(* ===== verification/Prelude.thy ===== *)
theory Prelude
  imports Main "HOL-Library.Word" "HOL-Library.Char_ord" "HOL-Library.List_Lexorder"
    "HOL-Library.AList" "HOL-Library.Multiset"
begin

text \<open>
  What the components share: Rust's fixed-width integers and their saturating and checked
  arithmetic, durations, the string operations of the standard library that the sources call
  (strings are lists of ASCII bytes), decimal printing and parsing, dictionaries as association
  lists with distinct keys, runs of a step function, and the generic lemmas about all of these.
\<close>

section \<open>Collections of facts\<close>

named_theorems word_ops \<open>definitions of the saturating and checked machine operations\<close>
named_theorems str_ops \<open>characteristic equations of the string operations\<close>

section \<open>Machine integers\<close>

type_synonym u8 = "8 word"
type_synonym u32 = "32 word"
type_synonym u64 = "64 word"
type_synonym i32 = "32 word"

definition sat_add :: "'a::len word \<Rightarrow> 'a word \<Rightarrow> 'a word" where
  "sat_add a b = (if unat a + unat b < 2 ^ LENGTH('a) then a + b else - 1)"

definition sat_sub :: "'a::len word \<Rightarrow> 'a word \<Rightarrow> 'a word" where
  "sat_sub a b = (if b \<le> a then a - b else 0)"

definition sat_mul :: "'a::len word \<Rightarrow> 'a word \<Rightarrow> 'a word" where
  "sat_mul a b = (if unat a * unat b < 2 ^ LENGTH('a) then a * b else - 1)"

definition checked_add :: "'a::len word \<Rightarrow> 'a word \<Rightarrow> 'a word option" where
  "checked_add a b = (if unat a + unat b < 2 ^ LENGTH('a) then Some (a + b) else None)"

definition checked_div :: "'a::len word \<Rightarrow> 'a word \<Rightarrow> 'a word option" where
  "checked_div a b = (if b = 0 then None else Some (a div b))"

declare sat_add_def [word_ops] sat_sub_def [word_ops] sat_mul_def [word_ops]
  checked_add_def [word_ops] checked_div_def [word_ops]

lemma unat_bound: "unat a < 2 ^ LENGTH('a)" for a :: "'a::len word"
  by (rule unsigned_less)

lemma unat_neg_one: "unat (- 1 :: 'a::len word) = 2 ^ LENGTH('a) - 1"
  by transfer (simp add: take_bit_minus_one_eq_mask nat_mask_eq, simp add: mask_eq_exp_minus_1)

lemma unat_sat_add: "unat (sat_add a b) = min (unat a + unat b) (2 ^ LENGTH('a) - 1)"
  for a b :: "'a::len word"
proof (cases "unat a + unat b < 2 ^ LENGTH('a)")
  case True
  then show ?thesis
    by (simp add: sat_add_def unat_word_ariths)
next
  case False
  then show ?thesis
    by (simp add: sat_add_def unat_neg_one min_absorb2)
qed

lemma unat_sat_mul: "unat (sat_mul a b) = min (unat a * unat b) (2 ^ LENGTH('a) - 1)"
  for a b :: "'a::len word"
proof (cases "unat a * unat b < 2 ^ LENGTH('a)")
  case True
  then show ?thesis
    by (simp add: sat_mul_def unat_word_ariths)
next
  case False
  then show ?thesis
    by (simp add: sat_mul_def unat_neg_one min_absorb2)
qed

lemma unat_sat_sub: "unat (sat_sub a b) = unat a - unat b"
  for a b :: "'a::len word"
  by (simp add: sat_sub_def unat_sub word_le_nat_alt)

lemma checked_add_Some_iff:
  "checked_add a b = Some c \<longleftrightarrow> unat a + unat b < 2 ^ LENGTH('a) \<and> c = a + b"
  for a b c :: "'a::len word"
  by (auto simp: checked_add_def)

lemma unat_checked_add: "checked_add a b = Some c \<Longrightarrow> unat c = unat a + unat b"
  for a b c :: "'a::len word"
  by (auto simp: checked_add_def unat_word_ariths split: if_splits)

section \<open>Time\<close>

text \<open>
  Durations, and readings of a clock as the time since its origin, are in nanoseconds. Rust's
  \<open>Duration\<close> overflows only beyond \<open>2 ^ 64\<close> seconds, which no clock reaches.
\<close>

type_synonym duration = nat

definition from_secs :: "nat \<Rightarrow> duration" where
  "from_secs n = n * 1000000000"

definition from_millis :: "nat \<Rightarrow> duration" where
  "from_millis n = n * 1000000"

definition as_secs :: "duration \<Rightarrow> nat" where
  "as_secs d = d div 1000000000"

definition as_millis :: "duration \<Rightarrow> nat" where
  "as_millis d = d div 1000000"

lemmas time_defs = from_secs_def from_millis_def as_secs_def as_millis_def

lemma as_millis_from_millis [simp]: "as_millis (from_millis n) = n"
  by (simp add: time_defs)

lemma as_secs_from_secs [simp]: "as_secs (from_secs n) = n"
  by (simp add: time_defs)

lemma as_millis_from_secs [simp]: "as_millis (from_secs n) = n * 1000"
  by (simp add: time_defs)

lemma as_secs_zero [simp]: "as_secs 0 = 0"
  by (simp add: as_secs_def)

lemma as_secs_add: "as_secs (w + from_secs k) = as_secs w + k"
  by (simp add: time_defs)

lemma from_secs_mono [simp]: "from_secs a \<le> from_secs b \<longleftrightarrow> a \<le> b"
  by (simp add: from_secs_def)

section \<open>Strings\<close>

text \<open>
  A Rust string is modelled by its bytes. The sources only compare, cut and rewrite ASCII
  characters; \<open>is_whitespace\<close> is \<open>char::is_whitespace\<close> on ASCII, and the order of \<open>string\<close>
  (lexicographic, by byte) is \<open>str\<close>'s \<open>Ord\<close>.
\<close>

definition is_whitespace :: "char \<Rightarrow> bool" where
  "is_whitespace c \<longleftrightarrow> (let n = (of_char c :: nat) in n = 32 \<or> (9 \<le> n \<and> n \<le> 13))"

definition ascii_lower :: "char \<Rightarrow> char" where
  "ascii_lower c = (let n = (of_char c :: nat) in if 65 \<le> n \<and> n \<le> 90 then char_of (n + 32) else c)"

definition is_ascii_alphanumeric :: "char \<Rightarrow> bool" where
  "is_ascii_alphanumeric c \<longleftrightarrow> (let n = (of_char c :: nat) in
     (48 \<le> n \<and> n \<le> 57) \<or> (65 \<le> n \<and> n \<le> 90) \<or> (97 \<le> n \<and> n \<le> 122))"

abbreviation to_ascii_lowercase :: "string \<Rightarrow> string" where
  "to_ascii_lowercase \<equiv> map ascii_lower"

definition trim_start :: "string \<Rightarrow> string" where
  "trim_start s = dropWhile is_whitespace s"

definition str_trim :: "string \<Rightarrow> string" where
  "str_trim s = rev (dropWhile is_whitespace (rev (trim_start s)))"

definition starts_with :: "'a list \<Rightarrow> 'a list \<Rightarrow> bool" where
  "starts_with s p \<longleftrightarrow> take (length p) s = p"

fun str_contains :: "'a list \<Rightarrow> 'a list \<Rightarrow> bool" where
  "str_contains [] p = (p = [])"
| "str_contains (c # s) p = (starts_with (c # s) p \<or> str_contains s p)"

text \<open>\<open>str::split\<close> on one separator: always at least one piece.\<close>

fun split_on :: "'a \<Rightarrow> 'a list \<Rightarrow> 'a list list" where
  "split_on d [] = [[]]"
| "split_on d (c # s) =
     (if c = d then [] # split_on d s
      else (case split_on d s of [] \<Rightarrow> [[c]] | p # ps \<Rightarrow> (c # p) # ps))"

text \<open>\<open>str::split_whitespace\<close>: the maximal runs of other characters.\<close>

fun split_ws_acc :: "string \<Rightarrow> string \<Rightarrow> string list" where
  "split_ws_acc w [] = (if w = [] then [] else [rev w])"
| "split_ws_acc w (c # s) =
     (if is_whitespace c then (if w = [] then split_ws_acc [] s else rev w # split_ws_acc [] s)
      else split_ws_acc (c # w) s)"

definition split_whitespace :: "string \<Rightarrow> string list" where
  "split_whitespace s = split_ws_acc [] s"

text \<open>\<open>str::split_once\<close>: the text before and after the first separator.\<close>

fun split_once :: "'a \<Rightarrow> 'a list \<Rightarrow> ('a list \<times> 'a list) option" where
  "split_once d [] = None"
| "split_once d (c # s) =
     (if c = d then Some ([], s)
      else map_option (\<lambda>(a, b). (c # a, b)) (split_once d s))"

text \<open>\<open>[T]::join\<close> on strings.\<close>

fun str_join :: "'a list \<Rightarrow> 'a list list \<Rightarrow> 'a list" where
  "str_join sep [] = []"
| "str_join sep [x] = x"
| "str_join sep (x # y # ys) = x @ sep @ str_join sep (y # ys)"

lemma starts_with_iff [str_ops]: "starts_with s p \<longleftrightarrow> (\<exists>r. s = p @ r)"
proof
  assume "starts_with s p"
  then have "s = p @ drop (length p) s"
    using append_take_drop_id [of "length p" s] by (simp add: starts_with_def)
  then show "\<exists>r. s = p @ r" ..
qed (auto simp: starts_with_def)

lemma str_contains_iff [str_ops]: "str_contains s p \<longleftrightarrow> (\<exists>a b. s = a @ p @ b)"
proof (induction s)
  case Nil
  then show ?case by auto
next
  case (Cons c s)
  have "(\<exists>a b. c # s = a @ p @ b) \<longleftrightarrow> (\<exists>r. c # s = p @ r) \<or> (\<exists>a b. s = a @ p @ b)"
    (is "?L \<longleftrightarrow> ?R")
  proof
    assume ?L
    then obtain a b where ab: "c # s = a @ p @ b" by blast
    then show ?R by (cases a) auto
  next
    assume ?R
    then show ?L
    proof
      assume "\<exists>r. c # s = p @ r"
      then have "\<exists>r. c # s = [] @ p @ r" by simp
      then show ?L by blast
    next
      assume "\<exists>a b. s = a @ p @ b"
      then obtain a b where "c # s = (c # a) @ p @ b" by auto
      then show ?L by blast
    qed
  qed
  then show ?case
    using Cons by (simp add: starts_with_iff)
qed

lemma split_on_not_Nil [simp]: "split_on d s \<noteq> []"
  by (induction s) (auto split: list.splits)

lemma split_on_notin: "d \<notin> set s \<Longrightarrow> split_on d s = [s]"
  by (induction s) (auto split: list.splits)

lemma split_on_append: "d \<notin> set a \<Longrightarrow> split_on d (a @ d # b) = a # split_on d b"
  by (induction a) (auto split: list.splits)

lemma split_on_pieces: "p \<in> set (split_on d s) \<Longrightarrow> d \<notin> set p"
proof (induction s arbitrary: p)
  case Nil
  then show ?case by simp
next
  case (Cons c s)
  obtain q qs where q: "split_on d s = q # qs"
    by (cases "split_on d s") auto
  with Cons show ?case
    by (cases "c = d") auto
qed

lemma str_join_Cons: "xs \<noteq> [] \<Longrightarrow> str_join sep (x # xs) = x @ sep @ str_join sep xs"
  by (cases xs) auto

lemma str_join_split_on: "str_join [d] (split_on d s) = s"
proof (induction s)
  case Nil
  then show ?case by simp
next
  case (Cons c s)
  obtain p ps where ps: "split_on d s = p # ps"
    by (cases "split_on d s") auto
  show ?case
    using Cons ps by (cases ps) (auto simp: str_join_Cons)
qed

lemma split_once_Some: "split_once d s = Some (a, b) \<longleftrightarrow> s = a @ d # b \<and> d \<notin> set a"
proof (induction s arbitrary: a)
  case Nil
  then show ?case by simp
next
  case (Cons c s)
  then show ?case by (cases a) auto
qed

lemma set_dropWhile_subset: "set (dropWhile P xs) \<subseteq> set xs"
  by (auto dest: set_dropWhileD)

lemma set_str_trim: "set (str_trim s) \<subseteq> set s"
proof -
  have "set (str_trim s) \<subseteq> set (rev (trim_start s))"
    using set_dropWhile_subset [of is_whitespace "rev (trim_start s)"] by (simp add: str_trim_def)
  also have "\<dots> \<subseteq> set s"
    using set_dropWhile_subset [of is_whitespace s] by (simp add: trim_start_def)
  finally show ?thesis .
qed

section \<open>Decimal numbers\<close>

definition digit_char :: "nat \<Rightarrow> char" where
  "digit_char n = char_of (48 + n)"

definition is_digit_char :: "char \<Rightarrow> bool" where
  "is_digit_char c \<longleftrightarrow> (let n = (of_char c :: nat) in 48 \<le> n \<and> n \<le> 57)"

definition digit_val :: "char \<Rightarrow> nat" where
  "digit_val c = of_char c - 48"

fun show_nat :: "nat \<Rightarrow> string" where
  "show_nat n = (if n < 10 then [digit_char n] else show_nat (n div 10) @ [digit_char (n mod 10)])"

declare show_nat.simps [simp del]

fun parse_acc :: "nat \<Rightarrow> string \<Rightarrow> nat option" where
  "parse_acc a [] = Some a"
| "parse_acc a (c # cs) = (if is_digit_char c then parse_acc (10 * a + digit_val c) cs else None)"

text \<open>
  \<open>str::parse\<close> at an unsigned type with \<open>b\<close> values: an optional plus sign, at least one digit,
  an error on overflow.
\<close>

definition parse_uint :: "nat \<Rightarrow> string \<Rightarrow> nat option" where
  "parse_uint b s =
     (let t = (case s of [] \<Rightarrow> [] | c # r \<Rightarrow> if c = CHR ''+'' then r else s)
      in if t = [] then None
         else (case parse_acc 0 t of None \<Rightarrow> None | Some n \<Rightarrow> if n < b then Some n else None))"

text \<open>\<open>format!("{:x}")\<close>.\<close>

fun show_hex :: "nat \<Rightarrow> string" where
  "show_hex n = (if n < 16 then [''0123456789abcdef'' ! n] else show_hex (n div 16) @ [''0123456789abcdef'' ! (n mod 16)])"

declare show_hex.simps [simp del]

text \<open>\<open>format!("{:02}")\<close>.\<close>

definition show_nat02 :: "nat \<Rightarrow> string" where
  "show_nat02 n = (if n < 10 then CHR ''0'' # show_nat n else show_nat n)"

text \<open>
  \<open>str::parse\<close> at a signed type with values from \<open>lo\<close> up to but not including \<open>hi\<close>: an optional
  sign, at least one digit, an error on overflow.
\<close>

definition parse_sint :: "int \<Rightarrow> int \<Rightarrow> string \<Rightarrow> int option" where
  "parse_sint lo hi s =
     (case s of
        [] \<Rightarrow> None
      | c # r \<Rightarrow>
          if c = CHR ''-'' then
            (if r = [] then None
             else case parse_acc 0 r of
               None \<Rightarrow> None
             | Some n \<Rightarrow> if lo \<le> - int n then Some (- int n) else None)
          else
            (let t = (if c = CHR ''+'' then r else s)
             in if t = [] then None
                else case parse_acc 0 t of
                  None \<Rightarrow> None
                | Some n \<Rightarrow> if int n < hi then Some (int n) else None))"

definition show_int :: "int \<Rightarrow> string" where
  "show_int i = (if i < 0 then CHR ''-'' # show_nat (nat (- i)) else show_nat (nat i))"

text \<open>A number of machine width is printed as the number it stands for.\<close>

definition show_word :: "'a::len word \<Rightarrow> string" where
  "show_word w = show_nat (unat w)"

text \<open>The line feed of a format string.\<close>

definition nl :: string where
  "nl = [CHR 0x0A]"

lemma of_char_digit [simp]: "n < 10 \<Longrightarrow> (of_char (digit_char n) :: nat) = 48 + n"
  by (simp add: digit_char_def of_char_of)

lemma is_digit_digit [simp]: "n < 10 \<Longrightarrow> is_digit_char (digit_char n)"
  by (simp add: is_digit_char_def)

lemma digit_val_digit [simp]: "n < 10 \<Longrightarrow> digit_val (digit_char n) = n"
  by (simp add: digit_val_def)

lemma show_nat_digits: "c \<in> set (show_nat n) \<Longrightarrow> is_digit_char c"
proof (induction n rule: show_nat.induct)
  case (1 n)
  then show ?case
    by (cases "n < 10") (auto simp: show_nat.simps [of n])
qed

lemma show_nat_not_Nil [simp]: "show_nat n \<noteq> []"
  by (subst show_nat.simps) simp

lemma parse_acc_append:
  "parse_acc a (s @ t) = (case parse_acc a s of None \<Rightarrow> None | Some b \<Rightarrow> parse_acc b t)"
  by (induction s arbitrary: a) auto

lemma parse_acc_show_nat: "parse_acc 0 (show_nat n) = Some n"
proof (induction n rule: show_nat.induct)
  case (1 n)
  show ?case
  proof (cases "n < 10")
    case True
    then show ?thesis by (simp add: show_nat.simps [of n])
  next
    case False
    with "1" have "parse_acc 0 (show_nat (n div 10)) = Some (n div 10)" by simp
    with False show ?thesis
      by (simp add: show_nat.simps [of n] parse_acc_append)
  qed
qed

lemma plus_not_digit: "\<not> is_digit_char CHR ''+''"
  by (simp add: is_digit_char_def)

lemma parse_uint_digits:
  assumes "s \<noteq> []" and "\<And>c. c \<in> set s \<Longrightarrow> is_digit_char c"
    and "parse_acc 0 s = Some n" and "n < b"
  shows "parse_uint b s = Some n"
proof (cases s)
  case Nil
  with assms show ?thesis by simp
next
  case (Cons c r)
  with assms(2) have "c \<noteq> CHR ''+''" using plus_not_digit by auto
  with Cons assms show ?thesis by (simp add: parse_uint_def)
qed

lemma parse_uint_show_nat [simp]: "n < b \<Longrightarrow> parse_uint b (show_nat n) = Some n"
  by (rule parse_uint_digits) (auto simp: parse_acc_show_nat intro: show_nat_digits)

lemma show_nat_inj: "show_nat m = show_nat n \<Longrightarrow> m = n"
  by (metis option.inject parse_acc_show_nat)

lemma parse_uint_show_nat02 [simp]: "n < b \<Longrightarrow> parse_uint b (show_nat02 n) = Some n"
proof -
  assume n: "n < b"
  have "is_digit_char CHR ''0''" "digit_val CHR ''0'' = 0"
    by (simp_all add: is_digit_char_def digit_val_def)
  with n show ?thesis
    by (intro parse_uint_digits)
      (auto simp: show_nat02_def parse_acc_show_nat split: if_splits dest: show_nat_digits)
qed

lemma parse_uint_bound: "parse_uint b s = Some n \<Longrightarrow> n < b"
  by (auto simp: parse_uint_def Let_def split: if_splits option.splits list.splits)

lemma dot_notin_show_nat [simp]: "CHR ''.'' \<notin> set (show_nat n)"
proof
  assume "CHR ''.'' \<in> set (show_nat n)"
  then have "is_digit_char CHR ''.''" by (rule show_nat_digits)
  then show False by (simp add: is_digit_char_def)
qed

lemma dot_notin_show_nat02 [simp]: "CHR ''.'' \<notin> set (show_nat02 n)"
  by (simp add: show_nat02_def)

lemma parse_sint_show_int [simp]:
  assumes "lo \<le> i" and "i < hi"
  shows "parse_sint lo hi (show_int i) = Some i"
proof (cases "i < 0")
  case True
  with assms show ?thesis
    by (simp add: parse_sint_def show_int_def parse_acc_show_nat)
next
  case False
  obtain c r where cr: "show_nat (nat i) = c # r"
    by (cases "show_nat (nat i)") auto
  have "is_digit_char c"
    using show_nat_digits [of c "nat i"] cr by simp
  then have "c \<noteq> CHR ''-''" "c \<noteq> CHR ''+''"
    by (auto simp: is_digit_char_def)
  with False assms cr parse_acc_show_nat [of "nat i"] show ?thesis
    by (simp add: parse_sint_def show_int_def)
qed

lemma show_nat_no_space: "c \<in> set (show_nat n) \<Longrightarrow> \<not> is_whitespace c"
  using show_nat_digits [of c n] by (auto simp: is_digit_char_def is_whitespace_def Let_def)

lemma show_int_no_space: "c \<in> set (show_int i) \<Longrightarrow> \<not> is_whitespace c"
  using show_nat_no_space
  by (auto simp: show_int_def is_whitespace_def split: if_splits)

lemma show_int_not_Nil [simp]: "show_int i \<noteq> []"
  by (simp add: show_int_def)

lemma dropWhile_none: "\<forall>c \<in> set s. \<not> P c \<Longrightarrow> dropWhile P s = s"
  by (cases s) auto

lemma str_trim_pad:
  assumes "\<forall>c \<in> set a. is_whitespace c" "\<forall>c \<in> set b. is_whitespace c"
    and "s \<noteq> []" "\<forall>c \<in> set s. \<not> is_whitespace c"
  shows "str_trim (a @ s @ b) = s"
proof -
  have "dropWhile is_whitespace (a @ s @ b) = dropWhile is_whitespace (s @ b)"
    using assms(1) by (simp add: dropWhile_append2)
  also have "\<dots> = s @ b"
    using assms(3,4) by (cases s) auto
  finally have "trim_start (a @ s @ b) = s @ b" by (simp add: trim_start_def)
  then have "str_trim (a @ s @ b) = rev (dropWhile is_whitespace (rev b @ rev s))"
    by (simp add: str_trim_def)
  also have "dropWhile is_whitespace (rev b @ rev s) = dropWhile is_whitespace (rev s)"
    using assms(2) by (intro dropWhile_append2) auto
  also have "dropWhile is_whitespace (rev s) = rev s"
    using assms(4) by (simp add: dropWhile_none)
  finally show ?thesis by simp
qed

text \<open>\<open>str::lines\<close>: pieces between line feeds, without a final empty one or a carriage return.\<close>

definition strip_cr :: "string \<Rightarrow> string" where
  "strip_cr s = (if s \<noteq> [] \<and> last s = CHR 0x0D then butlast s else s)"

definition str_lines :: "string \<Rightarrow> string list" where
  "str_lines s =
     (let ps = split_on (CHR 0x0A) s
      in map strip_cr (butlast ps) @ (if last ps = [] then [] else [last ps]))"

section \<open>Dictionaries\<close>

lemma update_absent: "map_of xs k = None \<Longrightarrow> AList.update k v xs = xs @ [(k, v)]"
  by (induction xs) (auto split: if_splits)

lemma length_update_present: "map_of xs k \<noteq> None \<Longrightarrow> length (AList.update k v xs) = length xs"
  by (induction xs) auto

lemma update_twice [simp]: "AList.update k v (AList.update k w xs) = AList.update k v xs"
  by (induction xs) auto

section \<open>Runs of a state machine\<close>

text \<open>
  A component whose operations are a function from a state and an operation to the next state
  keeps an invariant over every sequence of operations when every operation keeps it.
\<close>

locale machine =
  fixes step :: "'s \<Rightarrow> 'o \<Rightarrow> 's"
    and inv :: "'s \<Rightarrow> bool"
  assumes step_inv: "inv s \<Longrightarrow> inv (step s x)"
begin

lemma run_inv: "inv s \<Longrightarrow> inv (foldl step s xs)"
  by (induction xs arbitrary: s) (auto intro: step_inv)

lemma run_snoc_inv: "inv s \<Longrightarrow> inv (step (foldl step s xs) x)"
  by (intro step_inv run_inv)

end

end
