(* ===== verification/TransactionContract.thy ===== *)
theory TransactionContract
  imports Prelude
begin

text \<open>
  The admission predicates of \<open>crates/sharecli-core/src/transaction_contract.rs\<close>: delegation of
  grants, the physical reservation pool, the shared producer with its consumers, the retry rule
  for effects and the versioned membership of a parent transaction. Every method that can fail
  returns \<open>Inl\<close> of its error and leaves the state as it was; \<open>Inr\<close> carries the new state.
  A \<open>BTreeMap\<close> is an association list with distinct keys, a \<open>BTreeSet\<close> a set.
\<close>

section \<open>Actors and grants\<close>

datatype actor_kind = Human | SoftwareAgent

record actor =
  act_id :: string
  act_kind :: actor_kind

record grant =
  gr_actor_id :: string
  gr_scope_id :: string
  gr_authority_epoch :: u64
  gr_operations :: "string set"
  gr_max_delegated_units :: u64

definition validate_delegation :: "grant \<Rightarrow> grant \<Rightarrow> bool \<Rightarrow> bool" where
  "validate_delegation parent child child_is_descendant \<longleftrightarrow>
     child_is_descendant
     \<and> gr_authority_epoch parent = gr_authority_epoch child
     \<and> gr_max_delegated_units child \<le> gr_max_delegated_units parent
     \<and> gr_operations child \<subseteq> gr_operations parent"

datatype guard_error =
    Duplicate
  | InsufficientCapacity
  | Overflow
  | UnknownReservation
  | UnknownConsumer
  | InvalidUnits
  | NotReclaimed
  | ProducerStopping
  | StaleGeneration
  | IneligibleShare
  | StaleMembership
  | UnfinishedChild

text \<open>A chain of delegations, the root grant first, each link validated against its parent.\<close>

fun delegation_chain :: "grant \<Rightarrow> grant list \<Rightarrow> bool" where
  "delegation_chain g [] = True"
| "delegation_chain g (c # cs) = (validate_delegation g c True \<and> delegation_chain c cs)"

section \<open>The reservation pool\<close>

record reservation_pool =
  rp_capacity :: u64
  rp_active :: "(string \<times> u64) list"

definition rp_new :: "u64 \<Rightarrow> reservation_pool" where
  "rp_new capacity = \<lparr>rp_capacity = capacity, rp_active = []\<rparr>"

text \<open>The unchecked sum of \<open>admitted\<close>: it wraps where the checked one fails.\<close>

definition rp_admitted :: "reservation_pool \<Rightarrow> u64" where
  "rp_admitted p = sum_list (map snd (rp_active p))"

fun rp_checked_sum :: "u64 \<Rightarrow> u64 list \<Rightarrow> guard_error + u64" where
  "rp_checked_sum acc [] = Inr acc"
| "rp_checked_sum acc (v # vs) =
     (case checked_add acc v of None \<Rightarrow> Inl Overflow | Some acc' \<Rightarrow> rp_checked_sum acc' vs)"

definition rp_reserve :: "reservation_pool \<Rightarrow> string \<Rightarrow> u64 \<Rightarrow> guard_error + reservation_pool" where
  "rp_reserve p reservation_id units =
     (if map_of (rp_active p) reservation_id \<noteq> None then Inl Duplicate
      else if units = 0 then Inl InvalidUnits
      else case rp_checked_sum 0 (map snd (rp_active p)) of
        Inl e \<Rightarrow> Inl e
      | Inr used \<Rightarrow>
          (case checked_add used units of
             None \<Rightarrow> Inl Overflow
           | Some next \<Rightarrow>
               if rp_capacity p < next then Inl InsufficientCapacity
               else Inr (p\<lparr>rp_active := AList.update reservation_id units (rp_active p)\<rparr>)))"

definition rp_release :: "reservation_pool \<Rightarrow> string \<Rightarrow> bool \<Rightarrow> guard_error + reservation_pool" where
  "rp_release p reservation_id reclaimed =
     (if map_of (rp_active p) reservation_id = None then Inl UnknownReservation
      else if \<not> reclaimed then Inl NotReclaimed
      else Inr (p\<lparr>rp_active := AList.delete reservation_id (rp_active p)\<rparr>))"

datatype pool_op = Reserve string u64 | Release string bool

definition pool_exec :: "reservation_pool \<Rightarrow> pool_op \<Rightarrow> guard_error + reservation_pool" where
  "pool_exec p x = (case x of Reserve i u \<Rightarrow> rp_reserve p i u | Release i r \<Rightarrow> rp_release p i r)"

definition pool_step :: "reservation_pool \<Rightarrow> pool_op \<Rightarrow> reservation_pool" where
  "pool_step p x = (case pool_exec p x of Inl _ \<Rightarrow> p | Inr p' \<Rightarrow> p')"

text \<open>The units in use, as a number that cannot wrap.\<close>

definition rp_used :: "reservation_pool \<Rightarrow> nat" where
  "rp_used p = (\<Sum>v\<leftarrow>map snd (rp_active p). unat v)"

definition rp_inv :: "reservation_pool \<Rightarrow> bool" where
  "rp_inv p \<longleftrightarrow> distinct (map fst (rp_active p)) \<and> rp_used p \<le> unat (rp_capacity p)
     \<and> (\<forall>v \<in> set (map snd (rp_active p)). v \<noteq> 0)"

section \<open>The shared producer\<close>

datatype producer_state = Running | Stopping

record shared_producer =
  sp_generation :: u64
  sp_state :: producer_state
  sp_consumers :: "string set"

definition sp_new :: "u64 \<Rightarrow> shared_producer" where
  "sp_new generation = \<lparr>sp_generation = generation, sp_state = Running, sp_consumers = {}\<rparr>"

definition sp_join ::
  "shared_producer \<Rightarrow> u64 \<Rightarrow> string \<Rightarrow> bool \<Rightarrow> bool \<Rightarrow> bool \<Rightarrow> guard_error + shared_producer" where
  "sp_join s generation consumer_id equivalent share_allowed output_authorized =
     (if generation \<noteq> sp_generation s then Inl StaleGeneration
      else if sp_state s \<noteq> Running then Inl ProducerStopping
      else if \<not> (equivalent \<and> share_allowed \<and> output_authorized) then Inl IneligibleShare
      else Inr (s\<lparr>sp_consumers := insert consumer_id (sp_consumers s)\<rparr>))"

definition sp_detach ::
  "shared_producer \<Rightarrow> u64 \<Rightarrow> string \<Rightarrow> guard_error + (bool \<times> shared_producer)" where
  "sp_detach s generation consumer_id =
     (if generation \<noteq> sp_generation s then Inl StaleGeneration
      else if consumer_id \<notin> sp_consumers s then Inl UnknownConsumer
      else let s' = s\<lparr>sp_consumers := sp_consumers s - {consumer_id}\<rparr>
           in if sp_consumers s' = {} \<and> sp_state s' = Running
              then Inr (True, s'\<lparr>sp_state := Stopping\<rparr>)
              else Inr (False, s'))"

definition sp_consumer_count :: "shared_producer \<Rightarrow> nat" where
  "sp_consumer_count s = card (sp_consumers s)"

datatype producer_op = Join u64 string bool bool bool | Detach u64 string

text \<open>One call, with the flag that a successful \<open>detach\<close> returns.\<close>

fun producer_exec :: "shared_producer \<Rightarrow> producer_op \<Rightarrow> bool \<times> shared_producer" where
  "producer_exec s (Join g c e a u) =
     (case sp_join s g c e a u of Inl _ \<Rightarrow> (False, s) | Inr s' \<Rightarrow> (False, s'))"
| "producer_exec s (Detach g c) =
     (case sp_detach s g c of Inl _ \<Rightarrow> (False, s) | Inr r \<Rightarrow> r)"

fun producer_run :: "shared_producer \<Rightarrow> producer_op list \<Rightarrow> bool list \<times> shared_producer" where
  "producer_run s [] = ([], s)"
| "producer_run s (x # xs) =
     (let (b, s') = producer_exec s x; (bs, s'') = producer_run s' xs in (b # bs, s''))"

definition sp_inv :: "shared_producer \<Rightarrow> bool" where
  "sp_inv s \<longleftrightarrow> finite (sp_consumers s) \<and> (sp_state s = Stopping \<longrightarrow> sp_consumers s = {})"

section \<open>Retrying an effect\<close>

datatype effect_outcome = NotDispatched | ConfirmedSuccess | ConfirmedFailure | Unknown

definition can_retry_effect :: "effect_outcome \<Rightarrow> bool \<Rightarrow> bool \<Rightarrow> bool \<Rightarrow> bool \<Rightarrow> bool" where
  "can_retry_effect outcome same_effect_key_and_payload atomic_target_deduplication
      proven_absent duplication_explicitly_authorized =
     (case outcome of
        ConfirmedSuccess \<Rightarrow> False
      | NotDispatched \<Rightarrow> True
      | _ \<Rightarrow> proven_absent \<or> duplication_explicitly_authorized
             \<or> (same_effect_key_and_payload \<and> atomic_target_deduplication))"

section \<open>Parent membership\<close>

record parent_membership =
  pm_version :: u64
  pm_sealed :: bool
  pm_required :: "(string \<times> bool) list"

definition pm_default :: parent_membership where
  "pm_default = \<lparr>pm_version = 0, pm_sealed = False, pm_required = []\<rparr>"

definition pm_add_child :: "parent_membership \<Rightarrow> string \<Rightarrow> guard_error + parent_membership" where
  "pm_add_child m i =
     (if pm_sealed m then Inl StaleMembership
      else if map_of (pm_required m) i \<noteq> None then Inl Duplicate
      else case checked_add (pm_version m) 1 of
        None \<Rightarrow> Inl Overflow
      | Some v \<Rightarrow> Inr (m\<lparr>pm_version := v, pm_required := AList.update i False (pm_required m)\<rparr>))"

definition pm_mark_accepted :: "parent_membership \<Rightarrow> string \<Rightarrow> guard_error + parent_membership" where
  "pm_mark_accepted m i =
     (if pm_sealed m then Inl StaleMembership
      else if map_of (pm_required m) i = None then Inl UnknownReservation
      else Inr (m\<lparr>pm_required := AList.update i True (pm_required m)\<rparr>))"

definition pm_seal :: "parent_membership \<Rightarrow> u64 \<Rightarrow> guard_error + parent_membership" where
  "pm_seal m expected_version =
     (if pm_sealed m \<or> expected_version \<noteq> pm_version m then Inl StaleMembership
      else if \<not> (\<forall>complete \<in> set (map snd (pm_required m)). complete) then Inl UnfinishedChild
      else Inr (m\<lparr>pm_sealed := True\<rparr>))"

datatype member_op = AddChild string | MarkAccepted string | Seal u64

definition member_exec :: "parent_membership \<Rightarrow> member_op \<Rightarrow> guard_error + parent_membership" where
  "member_exec m x = (case x of AddChild i \<Rightarrow> pm_add_child m i
     | MarkAccepted i \<Rightarrow> pm_mark_accepted m i | Seal v \<Rightarrow> pm_seal m v)"

definition member_step :: "parent_membership \<Rightarrow> member_op \<Rightarrow> parent_membership" where
  "member_step m x = (case member_exec m x of Inl _ \<Rightarrow> m | Inr m' \<Rightarrow> m')"

definition pm_inv :: "parent_membership \<Rightarrow> bool" where
  "pm_inv m \<longleftrightarrow> distinct (map fst (pm_required m)) \<and> unat (pm_version m) = length (pm_required m)
     \<and> (pm_sealed m \<longrightarrow> (\<forall>b \<in> set (map snd (pm_required m)). b))"

section \<open>Delegation\<close>

lemma validate_delegation_trans:
  "validate_delegation a b d \<Longrightarrow> validate_delegation b c d' \<Longrightarrow> validate_delegation a c True"
  by (auto simp: validate_delegation_def)

section \<open>The pool: lemmas\<close>

lemma unat_sum_list:
  "(\<Sum>v\<leftarrow>vs. unat v) < 2 ^ LENGTH('a) \<Longrightarrow> unat (sum_list vs) = (\<Sum>v\<leftarrow>vs. unat v)"
  for vs :: "'a::len word list"
  by (induction vs) (simp_all add: unat_word_ariths)

lemma rp_checked_sum_eq:
  "rp_checked_sum acc vs =
     (if unat acc + (\<Sum>v\<leftarrow>vs. unat v) < 2 ^ 64 then Inr (acc + sum_list vs) else Inl Overflow)"
proof (induction vs arbitrary: acc)
  case Nil
  then show ?case using unat_bound [of acc] by simp
next
  case (Cons v vs)
  show ?case
  proof (cases "unat acc + unat v < 2 ^ 64")
    case True
    then have "unat (acc + v) = unat acc + unat v"
      by (simp add: unat_word_ariths)
    with True Cons show ?thesis
      by (simp add: checked_add_def add.assoc)
  next
    case False
    then show ?thesis by (simp add: checked_add_def)
  qed
qed

lemma rp_used_lt: "rp_inv p \<Longrightarrow> rp_used p < 2 ^ 64"
  using unat_bound [of "rp_capacity p"] by (simp add: rp_inv_def)

lemma rp_admitted_used: "rp_inv p \<Longrightarrow> unat (rp_admitted p) = rp_used p"
  using rp_used_lt [of p] unat_sum_list [of "map snd (rp_active p)"]
  by (simp add: rp_admitted_def rp_used_def)

lemma rp_reserve_eq:
  assumes "rp_inv p"
  shows "rp_reserve p i u =
     (if map_of (rp_active p) i \<noteq> None then Inl Duplicate
      else if u = 0 then Inl InvalidUnits
      else if 2 ^ 64 \<le> rp_used p + unat u then Inl Overflow
      else if unat (rp_capacity p) < rp_used p + unat u then Inl InsufficientCapacity
      else Inr (p\<lparr>rp_active := rp_active p @ [(i, u)]\<rparr>))"
proof -
  have sum: "rp_checked_sum 0 (map snd (rp_active p)) = Inr (rp_admitted p)"
    using rp_used_lt [OF assms] by (simp add: rp_checked_sum_eq rp_admitted_def rp_used_def)
  have adm: "unat (rp_admitted p) = rp_used p"
    using assms by (rule rp_admitted_used)
  show ?thesis
  proof (cases "rp_used p + unat u < 2 ^ 64")
    case True
    then have "unat (rp_admitted p + u) = rp_used p + unat u"
      by (simp add: unat_word_ariths adm)
    with True show ?thesis
      by (auto simp: rp_reserve_def sum checked_add_def adm word_less_nat_alt update_absent)
  next
    case False
    then show ?thesis
      by (auto simp: rp_reserve_def sum checked_add_def adm)
  qed
qed

lemma rp_used_delete: "rp_used (p\<lparr>rp_active := AList.delete i (rp_active p)\<rparr>) \<le> rp_used p"
proof -
  have "(\<Sum>x\<leftarrow>AList.delete i xs. unat (snd x)) \<le> (\<Sum>x\<leftarrow>xs. unat (snd x))" for xs :: "(string \<times> u64) list"
    by (induction xs) auto
  then show ?thesis by (simp add: rp_used_def comp_def)
qed

lemma rp_inv_new: "rp_inv (rp_new c)"
  by (simp add: rp_inv_def rp_new_def rp_used_def)

lemma rp_inv_reserve:
  assumes "rp_inv p" and "rp_reserve p i u = Inr p'"
  shows "rp_inv p'"
proof -
  from assms have "map_of (rp_active p) i = None" "u \<noteq> 0"
    "rp_used p + unat u \<le> unat (rp_capacity p)"
    "p' = p\<lparr>rp_active := rp_active p @ [(i, u)]\<rparr>"
    by (auto simp: rp_reserve_eq split: if_splits)
  with assms(1) show ?thesis
    by (auto simp: rp_inv_def rp_used_def map_of_eq_None_iff)
qed

lemma rp_inv_release:
  assumes "rp_inv p" and "rp_release p i r = Inr p'"
  shows "rp_inv p'"
proof -
  from assms(2) have p': "p' = p\<lparr>rp_active := AList.delete i (rp_active p)\<rparr>"
    by (auto simp: rp_release_def split: if_splits)
  have "set (AList.delete i (rp_active p)) \<subseteq> set (rp_active p)"
    by (auto simp: AList.delete_eq)
  with assms(1) show ?thesis
    using rp_used_delete [where p = p and i = i]
    by (auto simp: rp_inv_def p' intro: AList.distinct_delete)
qed

interpretation pool: machine pool_step rp_inv
  by unfold_locales
    (auto simp: pool_step_def pool_exec_def split: sum.splits pool_op.splits
      intro: rp_inv_reserve rp_inv_release)

lemma pool_step_capacity [simp]: "rp_capacity (pool_step p x) = rp_capacity p"
  by (auto simp: pool_step_def pool_exec_def rp_reserve_def rp_release_def
      split: sum.splits pool_op.splits if_splits option.splits)

lemma pool_run_capacity [simp]: "rp_capacity (foldl pool_step p xs) = rp_capacity p"
  by (induction xs arbitrary: p) auto

lemma pool_reachable_inv: "rp_inv (foldl pool_step (rp_new c) xs)"
  by (rule pool.run_inv) (rule rp_inv_new)

section \<open>The producer: lemmas\<close>

lemma sp_inv_new: "sp_inv (sp_new g)"
  by (simp add: sp_inv_def sp_new_def)

lemma producer_exec_inv: "sp_inv s \<Longrightarrow> sp_inv (snd (producer_exec s x))"
  by (cases x) (auto simp: sp_inv_def sp_join_def sp_detach_def Let_def)

lemma producer_exec_stopped:
  "sp_inv s \<Longrightarrow> sp_state s = Stopping \<Longrightarrow> producer_exec s x = (False, s)"
  by (cases x) (auto simp: sp_inv_def sp_join_def sp_detach_def Let_def)

lemma producer_exec_flag:
  "sp_state s = Running \<Longrightarrow>
     fst (producer_exec s x) \<longleftrightarrow> sp_state (snd (producer_exec s x)) = Stopping"
  by (cases x) (auto simp: sp_join_def sp_detach_def Let_def)

lemma producer_run_stopped:
  "sp_inv s \<Longrightarrow> sp_state s = Stopping \<Longrightarrow> producer_run s xs = (replicate (length xs) False, s)"
  by (induction xs) (simp_all add: producer_exec_stopped)

lemma producer_run_running:
  "sp_inv s \<Longrightarrow> sp_state s = Running \<Longrightarrow>
     length (filter id (fst (producer_run s xs))) =
       (if sp_state (snd (producer_run s xs)) = Stopping then 1 else 0)"
proof (induction xs arbitrary: s)
  case Nil
  then show ?case by simp
next
  case (Cons x xs)
  obtain b s' where e: "producer_exec s x = (b, s')" by (cases "producer_exec s x")
  have inv: "sp_inv s'" using producer_exec_inv [OF Cons.prems(1), of x] e by simp
  have flag: "b \<longleftrightarrow> sp_state s' = Stopping"
    using producer_exec_flag [OF Cons.prems(2), of x] e by simp
  show ?case
  proof (cases "sp_state s'")
    case Running
    with flag inv e Cons.IH [OF inv Running] show ?thesis by (auto split: prod.splits)
  next
    case Stopping
    with flag inv e show ?thesis by (simp add: producer_run_stopped)
  qed
qed

section \<open>Membership: lemmas\<close>

lemma pm_inv_default: "pm_inv pm_default"
  by (simp add: pm_inv_def pm_default_def)

lemma pm_inv_add_child:
  assumes "pm_inv m" and "pm_add_child m i = Inr m'"
  shows "pm_inv m'"
proof -
  from assms(2) obtain v where v: "\<not> pm_sealed m" "map_of (pm_required m) i = None"
    "checked_add (pm_version m) 1 = Some v"
    "m' = m\<lparr>pm_version := v, pm_required := pm_required m @ [(i, False)]\<rparr>"
    by (auto simp: pm_add_child_def update_absent split: if_splits option.splits)
  with assms(1) show ?thesis
    using unat_checked_add [OF v(3)] by (auto simp: pm_inv_def map_of_eq_None_iff)
qed

lemma pm_inv_mark_accepted:
  assumes "pm_inv m" and "pm_mark_accepted m i = Inr m'"
  shows "pm_inv m'"
proof -
  from assms(2) have "\<not> pm_sealed m" "map_of (pm_required m) i \<noteq> None"
    "m' = m\<lparr>pm_required := AList.update i True (pm_required m)\<rparr>"
    by (auto simp: pm_mark_accepted_def split: if_splits)
  with assms(1) show ?thesis
    by (simp add: pm_inv_def length_update_present AList.distinct_update del: not_None_eq)
qed

lemma pm_inv_seal: "pm_inv m \<Longrightarrow> pm_seal m v = Inr m' \<Longrightarrow> pm_inv m'"
  by (auto simp: pm_seal_def pm_inv_def split: if_splits)

interpretation member: machine member_step pm_inv
  by unfold_locales
    (auto simp: member_step_def member_exec_def split: sum.splits member_op.splits
      intro: pm_inv_add_child pm_inv_mark_accepted pm_inv_seal)

lemma member_step_sealed: "pm_sealed m \<Longrightarrow> member_step m x = m"
  by (auto simp: member_step_def member_exec_def pm_add_child_def pm_mark_accepted_def pm_seal_def
      split: member_op.splits)

lemma member_run_sealed: "pm_sealed m \<Longrightarrow> foldl member_step m xs = m"
  by (induction xs) (simp_all add: member_step_sealed)

section \<open>Properties\<close>

text \<open>
  C3: over every sequence of reserve and release calls on a new pool, the units admitted never
  exceed the capacity, and the unchecked sum that \<open>admitted\<close> returns is the true sum: it does
  not wrap.
\<close>

theorem pool_never_overcommits:
  "rp_used (foldl pool_step (rp_new c) xs) \<le> unat c
   \<and> unat (rp_admitted (foldl pool_step (rp_new c) xs)) = rp_used (foldl pool_step (rp_new c) xs)"
  using pool_reachable_inv [of c xs]
  by (simp add: rp_admitted_used) (simp add: rp_inv_def rp_new_def)

text \<open>
  On every reachable pool, \<open>reserve\<close> takes the first branch that applies of: duplicate id,
  zero units, 64-bit overflow of the total, total above the capacity; otherwise it adds exactly
  the new reservation. No request that fits is refused.
\<close>

theorem reserve_branches:
  "let p = foldl pool_step (rp_new c) xs in
   rp_reserve p i u =
     (if map_of (rp_active p) i \<noteq> None then Inl Duplicate
      else if u = 0 then Inl InvalidUnits
      else if 2 ^ 64 \<le> rp_used p + unat u then Inl Overflow
      else if unat c < rp_used p + unat u then Inl InsufficientCapacity
      else Inr (p\<lparr>rp_active := rp_active p @ [(i, u)]\<rparr>))"
  unfolding Let_def
  by (simp only: rp_reserve_eq [OF pool_reachable_inv] pool_run_capacity) (simp add: rp_new_def)

text \<open>
  In every sequence of joins and detaches on a new producer, at most one \<open>detach\<close> returns
  true, and one did exactly when the producer has ended up stopping: the stop is signalled once
  per generation, never twice, never lost.
\<close>

theorem producer_stops_once:
  "length (filter id (fst (producer_run (sp_new g) xs))) =
     (if sp_state (snd (producer_run (sp_new g) xs)) = Stopping then 1 else 0)"
  by (rule producer_run_running) (simp_all add: sp_inv_new, simp add: sp_new_def)

text \<open>
  Once a membership is sealed, no later call changes it, every required child in it has been
  accepted, and its version counts its children.
\<close>

theorem sealed_membership_final:
  assumes "pm_sealed (foldl member_step pm_default xs)"
  shows "foldl member_step pm_default (xs @ ys) = foldl member_step pm_default xs
    \<and> list_all snd (pm_required (foldl member_step pm_default xs))
    \<and> unat (pm_version (foldl member_step pm_default xs))
        = length (pm_required (foldl member_step pm_default xs))"
proof -
  have "pm_inv (foldl member_step pm_default xs)"
    by (rule member.run_inv) (rule pm_inv_default)
  with assms show ?thesis
    by (auto simp: member_run_sealed pm_inv_def list_all_iff)
qed

theorem sealed_membership_final_witness:
  "foldl member_step pm_default ([AddChild ''a'', MarkAccepted ''a'', Seal 1] @ [AddChild ''b''])
     = foldl member_step pm_default [AddChild ''a'', MarkAccepted ''a'', Seal 1]"
proof -
  have "pm_sealed (foldl member_step pm_default [AddChild ''a'', MarkAccepted ''a'', Seal 1])"
    by (simp add: member_step_def member_exec_def pm_add_child_def pm_mark_accepted_def
        pm_seal_def pm_default_def checked_add_def)
  from sealed_membership_final [OF this, of "[AddChild ''b'']"] show ?thesis by blast
qed

text \<open>
  Along a chain of validated delegations, every grant is bounded by the root: same epoch, no
  more units, no other operation.
\<close>

theorem delegation_never_widens:
  assumes "delegation_chain g cs" and "c \<in> set cs"
  shows "validate_delegation g c True"
  using assms
proof (induction cs arbitrary: g)
  case Nil
  then show ?case by simp
next
  case (Cons d ds)
  show ?case
  proof (cases "c = d")
    case True
    with Cons.prems show ?thesis by simp
  next
    case False
    with Cons have "validate_delegation d c True" by simp
    with Cons.prems show ?thesis
      by (auto intro: validate_delegation_trans)
  qed
qed

theorem delegation_never_widens_witness:
  "validate_delegation
     \<lparr>gr_actor_id = ''h'', gr_scope_id = ''s'', gr_authority_epoch = 3,
      gr_operations = {''read'', ''write''}, gr_max_delegated_units = 8\<rparr>
     \<lparr>gr_actor_id = ''b'', gr_scope_id = ''s2'', gr_authority_epoch = 3,
      gr_operations = {}, gr_max_delegated_units = 2\<rparr> True"
proof -
  let ?a = "\<lparr>gr_actor_id = ''a'', gr_scope_id = ''s1'', gr_authority_epoch = 3,
      gr_operations = {''read''}, gr_max_delegated_units = 4\<rparr>"
  let ?b = "\<lparr>gr_actor_id = ''b'', gr_scope_id = ''s2'', gr_authority_epoch = 3,
      gr_operations = {}, gr_max_delegated_units = 2\<rparr>"
  show ?thesis
    by (rule delegation_never_widens [where cs = "[?a, ?b]"]) (simp_all add: validate_delegation_def)
qed

end
