(* ===== verification/Meters.thy ===== *)
theory Meters
  imports Prelude
begin

text \<open>
  The operator meters of the hypervisor: coalesce cache hits and misses
  (\<open>crates/sharecli-fleet/src/coalesce_meters.rs\<close>) and slot queue acquisitions
  (\<open>crates/sharecli-fleet/src/slot_queue_meters.rs\<close>). The process-wide atomic counters are the
  fields of a record that the recording functions update; \<open>fetch_add\<close> wraps.
\<close>

section \<open>Coalesce meters\<close>

record coalesce_meters =
  cm_hits :: u64
  cm_misses :: u64
  cm_nocache_runs :: u64

definition hit_rate_pct :: "coalesce_meters \<Rightarrow> u64" where
  "hit_rate_pct m =
     (let total = sat_add (cm_hits m) (cm_misses m)
      in case checked_div (sat_mul (cm_hits m) 100) total of None \<Rightarrow> 0 | Some p \<Rightarrow> p)"

definition coalesce_format_status_section :: "coalesce_meters \<Rightarrow> string" where
  "coalesce_format_status_section m =
     nl @ ''=== Hypervisor Coalesce ==='' @ nl @ nl
     @ ''Cache hits:   '' @ show_word (cm_hits m) @ nl
     @ ''Cache misses: '' @ show_word (cm_misses m) @ nl
     @ ''Nocache runs: '' @ show_word (cm_nocache_runs m) @ nl
     @ ''Hit rate:     '' @ show_word (hit_rate_pct m) @ ''%'' @ nl"

definition coalesce_meters_zero :: coalesce_meters where
  "coalesce_meters_zero = \<lparr>cm_hits = 0, cm_misses = 0, cm_nocache_runs = 0\<rparr>"

definition record_coalesce_lookup_hit :: "coalesce_meters \<Rightarrow> coalesce_meters" where
  "record_coalesce_lookup_hit m = m\<lparr>cm_hits := cm_hits m + 1\<rparr>"

definition record_nocache_run :: "coalesce_meters \<Rightarrow> coalesce_meters" where
  "record_nocache_run m = m\<lparr>cm_nocache_runs := cm_nocache_runs m + 1\<rparr>"

datatype coalesce_hit_kind = Miss | LockRecheck | DebounceRecheck

definition shared_from_cache :: "coalesce_hit_kind \<Rightarrow> bool" where
  "shared_from_cache k \<longleftrightarrow> \<not> (case k of Miss \<Rightarrow> True | _ \<Rightarrow> False)"

definition record_coalesce_hit_kind :: "coalesce_hit_kind \<Rightarrow> coalesce_meters \<Rightarrow> coalesce_meters" where
  "record_coalesce_hit_kind k m =
     (case k of
        Miss \<Rightarrow> m\<lparr>cm_misses := cm_misses m + 1\<rparr>
      | LockRecheck \<Rightarrow> m\<lparr>cm_hits := cm_hits m + 1\<rparr>
      | DebounceRecheck \<Rightarrow> m\<lparr>cm_hits := cm_hits m + 1\<rparr>)"

section \<open>Slot queue meters\<close>

record slot_queue_meters =
  sm_acquires :: u64
  sm_waits :: u64
  sm_timeouts :: u64

definition slot_format_status_section :: "slot_queue_meters \<Rightarrow> string" where
  "slot_format_status_section m =
     nl @ ''=== Hypervisor SlotQueue ==='' @ nl @ nl
     @ ''Acquires:  '' @ show_word (sm_acquires m) @ nl
     @ ''Waits:     '' @ show_word (sm_waits m) @ nl
     @ ''Timeouts:  '' @ show_word (sm_timeouts m) @ nl"

definition slot_queue_meters_zero :: slot_queue_meters where
  "slot_queue_meters_zero = \<lparr>sm_acquires = 0, sm_waits = 0, sm_timeouts = 0\<rparr>"

definition record_slot_acquire :: "slot_queue_meters \<Rightarrow> slot_queue_meters" where
  "record_slot_acquire m = m\<lparr>sm_acquires := sm_acquires m + 1\<rparr>"

definition record_slot_wait :: "slot_queue_meters \<Rightarrow> slot_queue_meters" where
  "record_slot_wait m = m\<lparr>sm_waits := sm_waits m + 1\<rparr>"

definition record_slot_timeout :: "slot_queue_meters \<Rightarrow> slot_queue_meters" where
  "record_slot_timeout m = m\<lparr>sm_timeouts := sm_timeouts m + 1\<rparr>"

section \<open>Lemmas\<close>

lemma hit_rate_nat:
  "unat (hit_rate_pct m) =
     min (unat (cm_hits m) * 100) (2 ^ 64 - 1) div min (unat (cm_hits m) + unat (cm_misses m)) (2 ^ 64 - 1)"
proof (cases "sat_add (cm_hits m) (cm_misses m) = 0")
  case True
  then have "unat (sat_add (cm_hits m) (cm_misses m)) = 0" by simp
  then have "min (unat (cm_hits m) + unat (cm_misses m)) (2 ^ 64 - 1) = 0"
    by (simp only: unat_sat_add) simp
  with True show ?thesis by (simp add: hit_rate_pct_def checked_div_def)
next
  case False
  then show ?thesis
    by (simp add: hit_rate_pct_def checked_div_def unat_div unat_sat_add unat_sat_mul)
qed

lemma min_div_le:
  fixes a b c k :: nat
  assumes "a \<le> b"
  shows "min (a * k) c div min b c \<le> k"
proof (cases "min b c = 0")
  case False
  have "min (a * k) c \<le> k * min b c"
  proof (cases "b \<le> c")
    case True
    have "min (a * k) c \<le> a * k" by simp
    also have "\<dots> \<le> k * b" using assms by simp
    finally show ?thesis using True by simp
  next
    case False
    have "min (a * k) c \<le> k * c" by (cases k) auto
    with False show ?thesis by simp
  qed
  then have "min (a * k) c div min b c \<le> k * min b c div min b c"
    by (rule div_le_mono)
  with False show ?thesis by simp
qed simp

text \<open>
  The hit rate is a percentage for all counter values, saturated ones included, and it is
  the exact integer quotient while the products stay within 64 bits.
\<close>

theorem hit_rate_pct_correct:
  "unat (hit_rate_pct m) \<le> 100
   \<and> (unat (cm_hits m) * 100 < 2 ^ 64 \<and> unat (cm_hits m) + unat (cm_misses m) < 2 ^ 64 \<longrightarrow>
        unat (hit_rate_pct m) = unat (cm_hits m) * 100 div (unat (cm_hits m) + unat (cm_misses m)))"
proof
  show "unat (hit_rate_pct m) \<le> 100"
    unfolding hit_rate_nat by (rule min_div_le) simp
qed (auto simp: hit_rate_nat min_def)

theorem hit_rate_pct_correct_witness:
  "unat (hit_rate_pct \<lparr>cm_hits = 3, cm_misses = 1, cm_nocache_runs = 0\<rparr>) = 75"
  using hit_rate_pct_correct [of "\<lparr>cm_hits = 3, cm_misses = 1, cm_nocache_runs = 0\<rparr>"] by simp

end
