(* ===== verification/ThermalGate.thy ===== *)
theory ThermalGate
  imports Prelude
begin

text \<open>
  The back-pressure seam before every spawn: the thermal governor
  (\<open>crates/sharecli-fleet/src/thermal.rs\<close>), the contention of the agents on the host
  (\<open>crates/sharecli-fleet/src/agent_contention.rs\<close>), the gates that combine them
  (\<open>crates/sharecli-core/src/thermal_gate.rs\<close>) and the retry loop of the hypervisor
  (\<open>thermal_gate_check\<close> in \<open>crates/sharecli-core/src/hypervisor.rs\<close>). What the host answers, a
  file, the output of \<open>sysctl\<close> or the processes seen, is an argument.
\<close>

section \<open>The thermal governor\<close>

datatype thermal_level = Green | Yellow | Red

datatype poll_error = UnexpectedPressureLevel string | InvalidTemp string | PollIo

record thermal_governor =
  tg_mock_level :: "thermal_level option"

definition tg_new :: thermal_governor where
  "tg_new = \<lparr>tg_mock_level = None\<rparr>"

definition tg_with_mock :: "thermal_level \<Rightarrow> thermal_governor" where
  "tg_with_mock level = \<lparr>tg_mock_level = Some level\<rparr>"

text \<open>Reading a file: its text, that it is missing, or another error.\<close>

datatype file_read = ReadOk string | ReadNotFound | ReadErr

definition poll_impl_macos :: "string option \<Rightarrow> poll_error + thermal_level" where
  "poll_impl_macos stdout =
     (case stdout of
        None \<Rightarrow> Inl PollIo
      | Some out \<Rightarrow>
          (let raw = str_trim out
           in if raw = ''1'' then Inr Green
              else if raw = ''2'' then Inr Yellow
              else if raw = ''4'' then Inr Red
              else Inl (UnexpectedPressureLevel raw)))"

definition poll_impl_linux :: "file_read \<Rightarrow> poll_error + thermal_level" where
  "poll_impl_linux f =
     (case f of
        ReadNotFound \<Rightarrow> Inr Green
      | ReadErr \<Rightarrow> Inl PollIo
      | ReadOk contents \<Rightarrow>
          (case parse_sint (- (2 ^ 63)) (2 ^ 63) (str_trim contents) of
             None \<Rightarrow> Inl (InvalidTemp (str_trim contents))
           | Some t \<Rightarrow>
               if t < 70000 then Inr Green else if t < 85000 then Inr Yellow else Inr Red))"

text \<open>The three builds, each with what its probe of the host returns.\<close>

datatype host_probe = MacOs "string option" | Linux file_read | OtherOs

definition poll_impl :: "host_probe \<Rightarrow> poll_error + thermal_level" where
  "poll_impl h =
     (case h of
        MacOs out \<Rightarrow> poll_impl_macos out
      | Linux f \<Rightarrow> poll_impl_linux f
      | OtherOs \<Rightarrow> Inr Green)"

definition tg_poll :: "thermal_governor \<Rightarrow> host_probe \<Rightarrow> poll_error + thermal_level" where
  "tg_poll g h = (case tg_mock_level g of Some level \<Rightarrow> Inr level | None \<Rightarrow> poll_impl h)"

section \<open>Agent contention\<close>

record agent_contention_thresholds =
  ct_warn_at :: nat
  ct_refuse_at :: nat

definition contention_default :: agent_contention_thresholds where
  "contention_default = \<lparr>ct_warn_at = 4, ct_refuse_at = 8\<rparr>"

record agent_resource_thresholds =
  rt_warn_total_rss_bytes :: u64
  rt_refuse_total_rss_bytes :: u64

definition resource_default :: agent_resource_thresholds where
  "resource_default = \<lparr>rt_warn_total_rss_bytes = 16 * 1073741824,
                       rt_refuse_total_rss_bytes = 32 * 1073741824\<rparr>"

text \<open>The names under which \<open>thermal_gate.rs\<close> imports the tiers.\<close>

datatype agent_contention_tier = AgentsOk | AgentsWarn | AgentsRefuse

primrec tier_rank :: "agent_contention_tier \<Rightarrow> nat" where
  "tier_rank AgentsOk = 0"
| "tier_rank AgentsWarn = 1"
| "tier_rank AgentsRefuse = 2"

instantiation agent_contention_tier :: linorder
begin

definition less_eq_agent_contention_tier :: "agent_contention_tier \<Rightarrow> agent_contention_tier \<Rightarrow> bool" where
  "less_eq_agent_contention_tier a b \<longleftrightarrow> tier_rank a \<le> tier_rank b"

definition less_agent_contention_tier :: "agent_contention_tier \<Rightarrow> agent_contention_tier \<Rightarrow> bool" where
  "less_agent_contention_tier a b \<longleftrightarrow> tier_rank a < tier_rank b"

instance
proof
  fix x y z :: agent_contention_tier
  show "x < y \<longleftrightarrow> x \<le> y \<and> \<not> y \<le> x" "x \<le> x" "x \<le> y \<Longrightarrow> y \<le> z \<Longrightarrow> x \<le> z" "x \<le> y \<or> y \<le> x"
    by (auto simp: less_eq_agent_contention_tier_def less_agent_contention_tier_def)
  show "x \<le> y \<Longrightarrow> y \<le> x \<Longrightarrow> x = y"
    by (cases x; cases y) (auto simp: less_eq_agent_contention_tier_def)
qed

end

lemmas tier_order = less_eq_agent_contention_tier_def less_agent_contention_tier_def

definition agent_contention_tier_of :: "nat \<Rightarrow> agent_contention_thresholds \<Rightarrow> agent_contention_tier" where
  "agent_contention_tier_of agent_count th =
     (if ct_refuse_at th \<le> agent_count then AgentsRefuse
      else if ct_warn_at th \<le> agent_count then AgentsWarn
      else AgentsOk)"

definition agent_resource_contention_tier :: "u64 \<Rightarrow> agent_resource_thresholds \<Rightarrow> agent_contention_tier" where
  "agent_resource_contention_tier total_rss th =
     (if rt_refuse_total_rss_bytes th \<le> total_rss then AgentsRefuse
      else if rt_warn_total_rss_bytes th \<le> total_rss then AgentsWarn
      else AgentsOk)"

definition combined_agent_contention_tier ::
  "nat \<Rightarrow> u64 \<Rightarrow> agent_contention_thresholds \<Rightarrow> agent_resource_thresholds \<Rightarrow> agent_contention_tier" where
  "combined_agent_contention_tier agent_count total_rss cth rth =
     max (agent_contention_tier_of agent_count cth) (agent_resource_contention_tier total_rss rth)"

text \<open>The agents that the process scan sees, and the RSS samples of the watched ones.\<close>

definition total_watched_agent_rss_bytes :: "u64 list \<Rightarrow> u64" where
  "total_watched_agent_rss_bytes rss = sum_list rss"

definition live_agent_contention_tier :: "nat \<Rightarrow> u64 list \<Rightarrow> agent_contention_tier" where
  "live_agent_contention_tier agent_count rss =
     combined_agent_contention_tier agent_count (total_watched_agent_rss_bytes rss)
       contention_default resource_default"

definition effective_gate_decision_for_tier :: "thermal_level \<Rightarrow> agent_contention_tier \<Rightarrow> string" where
  "effective_gate_decision_for_tier thermal tier =
     (if thermal = Red then ''DENY'' else if tier = AgentsRefuse then ''DENY'' else ''ADMIT'')"

definition effective_gate_decision :: "thermal_level \<Rightarrow> nat \<Rightarrow> string" where
  "effective_gate_decision thermal agent_count =
     effective_gate_decision_for_tier thermal (agent_contention_tier_of agent_count contention_default)"

fun thermal_level_label :: "thermal_level \<Rightarrow> string" where
  "thermal_level_label Green = ''GREEN''"
| "thermal_level_label Yellow = ''YELLOW''"
| "thermal_level_label Red = ''RED''"

fun contention_tier_label :: "agent_contention_tier \<Rightarrow> string" where
  "contention_tier_label AgentsOk = ''OK''"
| "contention_tier_label AgentsWarn = ''WARN''"
| "contention_tier_label AgentsRefuse = ''REFUSE''"

record gate_status_snapshot =
  gs_thermal_pressure :: string
  gs_detected_agents :: nat
  gs_agent_total_rss_bytes :: u64
  gs_agent_contention :: string
  gs_gate_decision :: string

definition gate_status_snapshot_with_rss :: "thermal_level \<Rightarrow> nat \<Rightarrow> u64 \<Rightarrow> gate_status_snapshot" where
  "gate_status_snapshot_with_rss thermal agent_count total_rss =
     (let tier = combined_agent_contention_tier agent_count total_rss contention_default resource_default
      in \<lparr>gs_thermal_pressure = thermal_level_label thermal,
          gs_detected_agents = agent_count,
          gs_agent_total_rss_bytes = total_rss,
          gs_agent_contention = contention_tier_label tier,
          gs_gate_decision = effective_gate_decision_for_tier thermal tier\<rparr>)"

definition gate_status_snapshot_of :: "thermal_level \<Rightarrow> nat \<Rightarrow> u64 list \<Rightarrow> gate_status_snapshot" where
  "gate_status_snapshot_of thermal agent_count rss =
     gate_status_snapshot_with_rss thermal agent_count (total_watched_agent_rss_bytes rss)"

definition gate_format_csv_companion :: "gate_status_snapshot \<Rightarrow> string" where
  "gate_format_csv_companion s =
     nl @ ''record,thermal_pressure,detected_agents,agent_total_rss_bytes,agent_contention,gate_decision'' @ nl
     @ ''gate,'' @ gs_thermal_pressure s @ '','' @ show_nat (gs_detected_agents s)
     @ '','' @ show_word (gs_agent_total_rss_bytes s) @ '','' @ gs_agent_contention s
     @ '','' @ gs_gate_decision s @ nl"

definition format_gate_status_from_snapshot :: "gate_status_snapshot \<Rightarrow> string" where
  "format_gate_status_from_snapshot s =
     nl @ ''=== Thermal Gate (FR-011) ==='' @ nl @ nl
     @ ''Thermal level: '' @ gs_thermal_pressure s @ nl
     @ ''Detected agents: '' @ show_nat (gs_detected_agents s) @ nl
     @ ''Agent RSS total: '' @ show_word (gs_agent_total_rss_bytes s) @ '' bytes'' @ nl
     @ ''Agent contention: '' @ gs_agent_contention s
     @ '' (count warn>='' @ show_nat (ct_warn_at contention_default)
     @ '', refuse>='' @ show_nat (ct_refuse_at contention_default)
     @ ''; RSS warn>='' @ show_word (rt_warn_total_rss_bytes resource_default)
     @ '', refuse>='' @ show_word (rt_refuse_total_rss_bytes resource_default) @ '')'' @ nl
     @ ''Gate decision: ['' @ gs_gate_decision s @ '']'' @ nl"

section \<open>The gates\<close>

datatype thermal_decision = Allow | Warn | Refuse

definition system_check :: "thermal_governor \<Rightarrow> host_probe \<Rightarrow> thermal_decision" where
  "system_check g h =
     (case tg_poll g h of
        Inr Green \<Rightarrow> Allow
      | Inr Yellow \<Rightarrow> Warn
      | Inr Red \<Rightarrow> Refuse
      | Inl _ \<Rightarrow> Allow)"

fun combine_thermal_agent_decision :: "thermal_decision \<Rightarrow> agent_contention_tier \<Rightarrow> thermal_decision" where
  "combine_thermal_agent_decision Refuse _ = Refuse"
| "combine_thermal_agent_decision _ AgentsRefuse = Refuse"
| "combine_thermal_agent_decision Allow AgentsWarn = Warn"
| "combine_thermal_agent_decision Allow AgentsOk = Allow"
| "combine_thermal_agent_decision Warn _ = Warn"

text \<open>A gate is what its closures return: the inner decision and the tier at the time of the check.\<close>

record ('i, 't) agent_aware_gate =
  ag_inner :: "'i \<Rightarrow> thermal_decision"
  ag_tier :: "'t \<Rightarrow> agent_contention_tier"

definition ag_new ::
  "('i \<Rightarrow> thermal_decision) \<Rightarrow> agent_contention_thresholds \<Rightarrow> ('i, nat \<times> u64 list) agent_aware_gate" where
  "ag_new inner thresholds =
     \<lparr>ag_inner = inner, ag_tier = (\<lambda>(agent_count, rss). live_agent_contention_tier agent_count rss)\<rparr>"

definition ag_with_agent_count ::
  "('i \<Rightarrow> thermal_decision) \<Rightarrow> agent_contention_thresholds \<Rightarrow> ('i, nat) agent_aware_gate" where
  "ag_with_agent_count inner thresholds =
     \<lparr>ag_inner = inner, ag_tier = (\<lambda>agent_count. agent_contention_tier_of agent_count thresholds)\<rparr>"

definition ag_with_agent_tier ::
  "('i \<Rightarrow> thermal_decision) \<Rightarrow> ('t \<Rightarrow> agent_contention_tier) \<Rightarrow> ('i, 't) agent_aware_gate" where
  "ag_with_agent_tier inner tier = \<lparr>ag_inner = inner, ag_tier = tier\<rparr>"

definition ag_check :: "('i, 't) agent_aware_gate \<Rightarrow> 'i \<Rightarrow> 't \<Rightarrow> thermal_decision" where
  "ag_check g i t = (let base = ag_inner g i; tier = ag_tier g t in combine_thermal_agent_decision base tier)"

section \<open>The retry loop of the hypervisor\<close>

definition THERMAL_MAX_RETRIES :: nat where
  "THERMAL_MAX_RETRIES = 5"

definition THERMAL_RETRY_SLEEP :: duration where
  "THERMAL_RETRY_SLEEP = from_secs 2"

datatype gate_error = ThermallyThrottled

text \<open>
  The gate is polled again and again, so its answers are a sequence; the loop takes the number
  of refusals so far and the position in the sequence and returns its result, the position after
  the last poll and the time slept.
\<close>

function thermal_gate_loop ::
  "(nat \<Rightarrow> thermal_decision) \<Rightarrow> nat \<Rightarrow> nat \<Rightarrow> duration \<Rightarrow> (gate_error + unit) \<times> nat \<times> duration" where
  "thermal_gate_loop gate attempt pos slept =
     (case gate pos of
        Allow \<Rightarrow> (Inr (), Suc pos, slept)
      | Warn \<Rightarrow> (Inr (), Suc pos, slept)
      | Refuse \<Rightarrow>
          if THERMAL_MAX_RETRIES \<le> Suc attempt then (Inl ThermallyThrottled, Suc pos, slept)
          else thermal_gate_loop gate (Suc attempt) (Suc pos) (slept + THERMAL_RETRY_SLEEP))"
  by pat_completeness auto

termination thermal_gate_loop
  by (relation "measure (\<lambda>(g, attempt, p, s). THERMAL_MAX_RETRIES - attempt)") auto

declare thermal_gate_loop.simps [simp del]

definition thermal_gate_check ::
  "(nat \<Rightarrow> thermal_decision) \<Rightarrow> nat \<Rightarrow> (gate_error + unit) \<times> nat \<times> duration" where
  "thermal_gate_check gate pos = thermal_gate_loop gate 0 pos 0"

text \<open>Decisions in order of severity.\<close>

primrec severity :: "thermal_decision \<Rightarrow> nat" where
  "severity Allow = 0"
| "severity Warn = 1"
| "severity Refuse = 2"

section \<open>Lemmas\<close>

lemma severity_combine: "severity (combine_thermal_agent_decision d t) = max (severity d) (tier_rank t)"
  by (cases d; cases t) auto

lemma tier_rank_max: "tier_rank (max a b) = max (tier_rank a) (tier_rank b)"
  by (simp add: max_def tier_order)

lemma contention_tier_mono:
  "m \<le> n \<Longrightarrow> tier_rank (agent_contention_tier_of m th) \<le> tier_rank (agent_contention_tier_of n th)"
  by (auto simp: agent_contention_tier_of_def)

lemma resource_tier_mono:
  "a \<le> b \<Longrightarrow> tier_rank (agent_resource_contention_tier a th) \<le> tier_rank (agent_resource_contention_tier b th)"
  by (auto simp: agent_resource_contention_tier_def)

lemma combined_tier_mono:
  "m \<le> n \<Longrightarrow> a \<le> b \<Longrightarrow>
     tier_rank (combined_agent_contention_tier m a c r) \<le> tier_rank (combined_agent_contention_tier n b c r)"
  unfolding combined_agent_contention_tier_def tier_rank_max
  by (intro max.mono contention_tier_mono resource_tier_mono)

lemma system_check_level:
  "tg_poll g h = Inr l \<Longrightarrow> system_check g h = Refuse \<longleftrightarrow> l = Red"
  by (cases l) (auto simp: system_check_def)

lemma combine_refuse_iff: "combine_thermal_agent_decision d t = Refuse \<longleftrightarrow> d = Refuse \<or> t = AgentsRefuse"
  by (cases d; cases t) auto

lemma deny_iff: "effective_gate_decision_for_tier l t = ''DENY'' \<longleftrightarrow> l = Red \<or> t = AgentsRefuse"
  by (simp add: effective_gate_decision_for_tier_def)

text \<open>The loop stops at the first answer that is no refusal, if attempts are left for it.\<close>

lemma thermal_gate_loop_accept:
  assumes "gate (pos + i) \<noteq> Refuse" and "\<And>j. j < i \<Longrightarrow> gate (pos + j) = Refuse"
    and "attempt + i < THERMAL_MAX_RETRIES"
  shows "thermal_gate_loop gate attempt pos slept =
    (Inr (), Suc (pos + i), slept + i * THERMAL_RETRY_SLEEP)"
  using assms
proof (induction i arbitrary: attempt pos slept)
  case 0
  then show ?case
    by (subst thermal_gate_loop.simps) (auto split: thermal_decision.splits)
next
  case (Suc i)
  have "gate pos = Refuse" using Suc.prems(2) [of 0] by simp
  moreover have "thermal_gate_loop gate (Suc attempt) (Suc pos) (slept + THERMAL_RETRY_SLEEP) =
    (Inr (), Suc (Suc pos + i), slept + THERMAL_RETRY_SLEEP + i * THERMAL_RETRY_SLEEP)"
  proof (rule Suc.IH)
    show "gate (Suc pos + i) \<noteq> Refuse" using Suc.prems(1) by simp
    show "gate (Suc pos + j) = Refuse" if "j < i" for j
      using Suc.prems(2) [of "Suc j"] that by simp
    show "Suc attempt + i < THERMAL_MAX_RETRIES" using Suc.prems(3) by simp
  qed
  ultimately show ?case
    using Suc.prems(3) by (subst thermal_gate_loop.simps) simp
qed

lemma thermal_gate_loop_refuse:
  assumes "\<And>j. attempt + j < THERMAL_MAX_RETRIES \<Longrightarrow> gate (pos + j) = Refuse"
    and "attempt + Suc k = THERMAL_MAX_RETRIES"
  shows "thermal_gate_loop gate attempt pos slept =
    (Inl ThermallyThrottled, pos + Suc k, slept + k * THERMAL_RETRY_SLEEP)"
  using assms
proof (induction k arbitrary: attempt pos slept)
  case 0
  have "gate pos = Refuse" using "0.prems"(1) [of 0] "0.prems"(2) by simp
  with "0.prems"(2) show ?case
    by (subst thermal_gate_loop.simps) simp
next
  case (Suc k)
  have "gate pos = Refuse" using Suc.prems(1) [of 0] Suc.prems(2) by simp
  moreover have "thermal_gate_loop gate (Suc attempt) (Suc pos) (slept + THERMAL_RETRY_SLEEP) =
    (Inl ThermallyThrottled, Suc pos + Suc k, slept + THERMAL_RETRY_SLEEP + k * THERMAL_RETRY_SLEEP)"
  proof (rule Suc.IH)
    show "gate (Suc pos + j) = Refuse" if "Suc attempt + j < THERMAL_MAX_RETRIES" for j
      using Suc.prems(1) [of "Suc j"] that by simp
    show "Suc attempt + Suc k = THERMAL_MAX_RETRIES" using Suc.prems(2) by simp
  qed
  ultimately show ?case
    using Suc.prems(2) by (subst thermal_gate_loop.simps) simp
qed

lemma thermal_gate_check_refused:
  assumes "\<And>j. j < 5 \<Longrightarrow> gate (pos + j) = Refuse"
  shows "thermal_gate_check gate pos = (Inl ThermallyThrottled, pos + 5, from_secs 8)"
  unfolding thermal_gate_check_def
  by (subst thermal_gate_loop_refuse [where k = 4])
    (auto simp: assms THERMAL_MAX_RETRIES_def THERMAL_RETRY_SLEEP_def time_defs)

lemma thermal_gate_check_accepted:
  assumes "gate (pos + i) \<noteq> Refuse" and "i < 5"
  shows "\<exists>k \<le> i. gate (pos + k) \<noteq> Refuse \<and> (\<forall>j < k. gate (pos + j) = Refuse)
    \<and> thermal_gate_check gate pos = (Inr (), Suc (pos + k), from_secs (2 * k))"
proof -
  define k where "k = (LEAST k. gate (pos + k) \<noteq> Refuse)"
  have k: "gate (pos + k) \<noteq> Refuse" "k \<le> i"
    unfolding k_def
    by (rule LeastI [where P = "\<lambda>k. gate (pos + k) \<noteq> Refuse", OF assms(1)])
      (rule Least_le [where P = "\<lambda>k. gate (pos + k) \<noteq> Refuse", OF assms(1)])
  have before: "gate (pos + j) = Refuse" if "j < k" for j
    using not_less_Least [of j] that unfolding k_def by blast
  have "thermal_gate_check gate pos = (Inr (), Suc (pos + k), from_secs (2 * k))"
    unfolding thermal_gate_check_def
    by (subst thermal_gate_loop_accept [where i = k])
      (use k before assms(2) in \<open>auto simp: THERMAL_MAX_RETRIES_def THERMAL_RETRY_SLEEP_def time_defs\<close>)
  with k before show ?thesis by blast
qed

section \<open>Properties\<close>

text \<open>
  C4: the retry loop returns for every sequence of gate answers. It lets the spawn through
  exactly when one of the next five answers is not a refusal, stopping at the first such answer
  and sleeping two seconds for each refusal before it; otherwise it fails after five polls and
  eight seconds.
\<close>

theorem thermal_gate_check_correct:
  "(fst (thermal_gate_check gate pos) = Inr () \<longleftrightarrow> (\<exists>i<5. gate (pos + i) \<noteq> Refuse))
   \<and> (\<exists>k\<le>4. fst (snd (thermal_gate_check gate pos)) = Suc (pos + k)
        \<and> snd (snd (thermal_gate_check gate pos)) = from_secs (2 * k)
        \<and> (\<forall>j<k. gate (pos + j) = Refuse)
        \<and> (fst (thermal_gate_check gate pos) = Inr () \<or> k = 4))"
proof (cases "\<exists>i<5. gate (pos + i) \<noteq> Refuse")
  case True
  then obtain i where "i < 5" "gate (pos + i) \<noteq> Refuse" by blast
  from thermal_gate_check_accepted [where gate = gate and pos = pos, OF this(2,1)] this(1) obtain k
    where "k \<le> 4" "\<forall>j<k. gate (pos + j) = Refuse"
      "thermal_gate_check gate pos = (Inr (), Suc (pos + k), from_secs (2 * k))"
    by fastforce
  with True show ?thesis by auto
next
  case False
  then have "thermal_gate_check gate pos = (Inl ThermallyThrottled, pos + 5, from_secs 8)"
    by (intro thermal_gate_check_refused) auto
  with False show ?thesis by (auto intro!: exI [of _ 4])
qed

theorem thermal_gate_check_correct_witness:
  "fst (thermal_gate_check (\<lambda>i. if i < 3 then Refuse else Warn) 0) = Inr ()"
  using thermal_gate_check_correct [of "\<lambda>i. if i < 3 then Refuse else Warn" 0]
  by (auto intro: exI [of _ 3])

text \<open>
  C5: the decision that the status report shows to the operator is the decision of the
  production gate on the same readings: \<open>DENY\<close> is shown exactly when the gate refuses, whatever
  thresholds the gate was built with.
\<close>

theorem status_agrees_with_gate:
  assumes "tg_poll g h = Inr level"
  shows "gs_gate_decision (gate_status_snapshot_of level n rss) = ''DENY'' \<longleftrightarrow>
    ag_check (ag_new (system_check g) th) h (n, rss) = Refuse"
  using system_check_level [OF assms]
  by (simp add: gate_status_snapshot_of_def gate_status_snapshot_with_rss_def Let_def deny_iff
      ag_check_def ag_new_def live_agent_contention_tier_def combine_refuse_iff)

theorem status_agrees_with_gate_witness:
  "gs_gate_decision (gate_status_snapshot_of Yellow 8 []) = ''DENY'' \<longleftrightarrow>
    ag_check (ag_new (system_check tg_new) contention_default) (MacOs (Some ''2'')) (8, []) = Refuse"
proof -
  have "str_trim ''2'' = ''2''"
    by (simp add: str_trim_def trim_start_def is_whitespace_def)
  then have "tg_poll tg_new (MacOs (Some ''2'')) = Inr Yellow"
    by (simp add: tg_poll_def tg_new_def poll_impl_def poll_impl_macos_def)
  then show ?thesis by (rule status_agrees_with_gate)
qed

text \<open>
  Pressure only escalates. With as many agents or more and as much memory or more, and the
  same thermal reading, the production gate's decision is at least as severe; and it is never
  milder than the reading alone.
\<close>

theorem gate_monotone:
  assumes "m \<le> n" and "total_watched_agent_rss_bytes a \<le> total_watched_agent_rss_bytes b"
  shows "severity (inner i) \<le> severity (ag_check (ag_new inner th) i (m, a))
    \<and> severity (ag_check (ag_new inner th) i (m, a)) \<le> severity (ag_check (ag_new inner th) i (n, b))"
  using combined_tier_mono [OF assms]
  by (auto simp: ag_check_def ag_new_def severity_combine live_agent_contention_tier_def
      intro: max.coboundedI2)

theorem gate_monotone_witness:
  "severity Allow \<le> severity (ag_check (ag_new (\<lambda>_::unit. Allow) contention_default) () (3, [1]))
   \<and> severity (ag_check (ag_new (\<lambda>_::unit. Allow) contention_default) () (3, [1]))
     \<le> severity (ag_check (ag_new (\<lambda>_::unit. Allow) contention_default) () (8, [1, 1]))"
  by (rule gate_monotone) (simp_all add: total_watched_agent_rss_bytes_def)

text \<open>
  The Linux probe classifies every temperature the kernel can print, surrounded by any white
  space: below 70 degrees the gate allows, below 85 it warns, from 85 on it refuses.
\<close>

theorem linux_probe_classifies:
  assumes "- (2 ^ 63) \<le> t" and "t < 2 ^ 63"
    and "\<forall>c \<in> set a. is_whitespace c" and "\<forall>c \<in> set b. is_whitespace c"
  shows "system_check tg_new (Linux (ReadOk (a @ show_int t @ b))) =
    (if t < 70000 then Allow else if t < 85000 then Warn else Refuse)"
proof -
  have "str_trim (a @ show_int t @ b) = show_int t"
    using assms(3,4) by (rule str_trim_pad) (auto dest: show_int_no_space)
  then have "parse_sint (- (2 ^ 63)) (2 ^ 63) (str_trim (a @ show_int t @ b)) = Some t"
    using assms(1,2) by (simp del: power_numeral)
  then show ?thesis
    by (simp add: system_check_def tg_poll_def tg_new_def poll_impl_def poll_impl_linux_def)
qed

theorem linux_probe_classifies_witness:
  "system_check tg_new (Linux (ReadOk ([CHR '' ''] @ show_int 85000 @ [CHR 0x0A]))) = Refuse"
  using linux_probe_classifies [of 85000 "[CHR '' '']" "[CHR 0x0A]"] by (simp add: is_whitespace_def)

end
