(* ===== verification/Paths.thy ===== *)
theory Paths
  imports Prelude
begin

text \<open>
  The operations of \<open>std::path\<close> on Unix that the sources call, on paths as strings: joining, the
  last component, the stem and the extension. The rest of a path's structure is in the theories
  that need it.
\<close>

section \<open>Definitions\<close>

text \<open>\<open>Path::join\<close>: an absolute argument replaces the base.\<close>

definition path_join :: "string \<Rightarrow> string \<Rightarrow> string" where
  "path_join base p =
     (if starts_with p ''/'' then p
      else if base = [] \<or> last base = CHR ''/'' then base @ p
      else base @ ''/'' @ p)"

text \<open>
  \<open>Path::file_name\<close>: empty pieces and single dots are no components, and a path that ends in two
  dots has no file name.
\<close>

definition path_file_name :: "string \<Rightarrow> string option" where
  "path_file_name p =
     (case rev (filter (\<lambda>c. c \<noteq> [] \<and> c \<noteq> ''.'') (split_on CHR ''/'' p)) of
        [] \<Rightarrow> None
      | c # _ \<Rightarrow> if c = ''..'' then None else Some c)"

text \<open>
  \<open>Path::extension\<close> of a file name: the text after its last dot, unless that dot is its first
  character.
\<close>

definition name_extension :: "string \<Rightarrow> string option" where
  "name_extension f =
     (if f = ''..'' then None
      else case split_once CHR ''.'' (rev f) of
        None \<Rightarrow> None
      | Some (ext, stem) \<Rightarrow> if stem = [] then None else Some (rev ext))"

section \<open>Lemmas\<close>

lemma name_extension_Some:
  assumes "CHR ''.'' \<notin> set e" and "a \<noteq> []" and "a @ CHR ''.'' # e \<noteq> ''..''"
  shows "name_extension (a @ CHR ''.'' # e) = Some e"
proof -
  have "split_once CHR ''.'' (rev e @ CHR ''.'' # rev a) = Some (rev e, rev a)"
    using assms(1) by (simp add: split_once_Some)
  with assms(2,3) show ?thesis
    by (simp add: name_extension_def)
qed

lemma path_file_name_plain:
  assumes "CHR ''/'' \<notin> set c" and "c \<noteq> []" "c \<noteq> ''.''" "c \<noteq> ''..''"
  shows "path_file_name c = Some c"
  using assms by (simp add: path_file_name_def split_on_notin)

lemma path_file_name_dir:
  assumes "CHR ''/'' \<notin> set d" and "d \<noteq> []" and "path_file_name p = Some c"
  shows "path_file_name (d @ CHR ''/'' # p) = Some c"
proof -
  obtain r where "rev (filter (\<lambda>c. c \<noteq> [] \<and> c \<noteq> ''.'') (split_on CHR ''/'' p)) = c # r" "c \<noteq> ''..''"
    using assms(3) by (auto simp: path_file_name_def split: list.splits if_splits)
  with assms(1) show ?thesis
    by (simp add: path_file_name_def split_on_append)
qed

end
