(* ===== verification/CommandKey.thy ===== *)
theory CommandKey
  imports Paths
begin

text \<open>
  Cache keys of commands: the key modes (\<open>crates/sharecli-ipc/src/cache_key.rs\<close>), the detection of
  mutating flags (\<open>nocache.rs\<close>) and the semantic normalisation of lint commands
  (\<open>semantic.rs\<close>). The SHA-256 function and the answers of \<open>git\<close> are parameters; feeding a hasher
  piecewise is hashing the concatenation of the pieces.
\<close>

section \<open>Key modes\<close>

datatype cache_key_mode = Time | Args | Git

definition cache_key_mode_parse :: "string \<Rightarrow> cache_key_mode" where
  "cache_key_mode_parse raw =
     (let s = to_ascii_lowercase (str_trim raw)
      in if s = ''args'' then Args else if s = ''git'' then Git else Time)"

text \<open>A separator byte after every piece.\<close>

definition NUL :: char where "NUL = CHR 0x00"
definition SOH :: char where "SOH = CHR 0x01"

fun hash_argv :: "string list \<Rightarrow> string" where
  "hash_argv [] = []"
| "hash_argv (arg # argv) = arg @ NUL # hash_argv argv"

definition env_pair :: "string \<times> string \<Rightarrow> string" where
  "env_pair kv = fst kv @ CHR ''='' # snd kv"

fun hash_env_pairs :: "(string \<times> string) list \<Rightarrow> string" where
  "hash_env_pairs [] = []"
| "hash_env_pairs (kv # es) = env_pair kv @ NUL # hash_env_pairs es"

definition hash_env_subset :: "(string \<times> string) list \<Rightarrow> string" where
  "hash_env_subset env_subset = hash_env_pairs (sort_key fst env_subset)"

text \<open>
  \<open>git\<close> runs a command: no output when it cannot be started, otherwise whether it succeeded and
  what it printed.
\<close>

type_synonym git_cmd = "string list \<Rightarrow> (bool \<times> string) option"

definition git_output :: "git_cmd \<Rightarrow> string list \<Rightarrow> string" where
  "git_output git args =
     (case git args of None \<Rightarrow> [] | Some (success, out) \<Rightarrow> if success then out else [])"

definition git_fingerprint :: "git_cmd \<Rightarrow> string \<Rightarrow> string" where
  "git_fingerprint git cwd =
     git_output git [''-C'', cwd, ''status'', ''--porcelain'']
     @ git_output git [''-C'', cwd, ''rev-parse'', ''HEAD'']"

definition key_preimage ::
  "git_cmd \<Rightarrow> cache_key_mode \<Rightarrow> string list \<Rightarrow> string \<Rightarrow> (string \<times> string) list \<Rightarrow> string" where
  "key_preimage git mode argv cwd env_subset =
     hash_argv argv
     @ (case mode of
          Args \<Rightarrow> []
        | Time \<Rightarrow> SOH # cwd @ SOH # hash_env_subset env_subset
        | Git \<Rightarrow> SOH # cwd @ SOH # git_fingerprint git cwd)"

definition hex_digit :: "nat \<Rightarrow> char" where
  "hex_digit n = (if n < 10 then char_of (48 + n) else char_of (87 + n))"

definition hex_byte :: "u8 \<Rightarrow> string" where
  "hex_byte b = [hex_digit (unat b div 16), hex_digit (unat b mod 16)]"

definition hex_encode :: "u8 list \<Rightarrow> string" where
  "hex_encode bs = concat (map hex_byte bs)"

definition command_key_with_mode ::
  "(string \<Rightarrow> u8 list) \<Rightarrow> git_cmd \<Rightarrow> cache_key_mode \<Rightarrow> string list \<Rightarrow> string
     \<Rightarrow> (string \<times> string) list \<Rightarrow> string" where
  "command_key_with_mode sha256 git mode argv cwd env_subset =
     hex_encode (sha256 (key_preimage git mode argv cwd env_subset))"

definition command_key ::
  "(string \<Rightarrow> u8 list) \<Rightarrow> git_cmd \<Rightarrow> string list \<Rightarrow> string \<Rightarrow> (string \<times> string) list \<Rightarrow> string" where
  "command_key sha256 git argv cwd env_subset =
     command_key_with_mode sha256 git Time argv cwd env_subset"

section \<open>Mutating flags\<close>

definition DEFAULT_NOCACHE_ARGS :: "string list" where
  "DEFAULT_NOCACHE_ARGS =
     [''--fix'', ''--unsafe-fixes'', ''--force'', ''--write'', ''--in-place'', ''-w'', ''-i'']"

fun flag_among :: "string \<Rightarrow> string list \<Rightarrow> bool" where
  "flag_among arg [] = False"
| "flag_among arg (flag # flags) = (if arg = flag then True else flag_among arg flags)"

fun any_flag_among :: "string list \<Rightarrow> string list \<Rightarrow> bool" where
  "any_flag_among [] flags = False"
| "any_flag_among (arg # argv) flags = (if flag_among arg flags then True else any_flag_among argv flags)"

definition has_nocache_arg :: "string list \<Rightarrow> string list \<Rightarrow> bool" where
  "has_nocache_arg argv nocache_args =
     (if nocache_args = [] then False else any_flag_among argv nocache_args)"

definition should_bypass_coalesce :: "string list \<Rightarrow> string list \<Rightarrow> bool" where
  "should_bypass_coalesce argv nocache_args = has_nocache_arg argv nocache_args"

definition parse_nocache_args_csv :: "string \<Rightarrow> string list" where
  "parse_nocache_args_csv csv = filter (\<lambda>s. s \<noteq> []) (map str_trim (split_on CHR '','' csv))"

section \<open>Semantic normalisation\<close>

text \<open>
  What the file system answers: whether a path is a directory, and its canonical form when it
  has one.
\<close>

definition canonical_dir :: "(string \<Rightarrow> string option) \<Rightarrow> string \<Rightarrow> string option" where
  "canonical_dir canonicalize path = canonicalize path"

definition normalize_lint_path_arg ::
  "(string \<Rightarrow> bool) \<Rightarrow> (string \<Rightarrow> string option) \<Rightarrow> string \<Rightarrow> string \<Rightarrow> string" where
  "normalize_lint_path_arg is_dir canonicalize arg cwd =
     (if arg = ''.'' then ''__PROJECT_ROOT__''
      else let candidate = path_join cwd arg
           in if is_dir candidate
              then (case canonical_dir canonicalize candidate of None \<Rightarrow> arg | Some p \<Rightarrow> p)
              else arg)"

definition semantic_normalize_argv ::
  "(string \<Rightarrow> bool) \<Rightarrow> (string \<Rightarrow> string option) \<Rightarrow> string list \<Rightarrow> string \<Rightarrow> string list" where
  "semantic_normalize_argv is_dir canonicalize argv cwd =
     (case argv of
        [] \<Rightarrow> []
      | a0 # args \<Rightarrow>
          (let cmd = (case path_file_name a0 of None \<Rightarrow> a0 | Some c \<Rightarrow> c)
           in if cmd \<in> {''ruff'', ''mypy'', ''pylint'', ''flake8''}
              then a0 # map (\<lambda>arg. normalize_lint_path_arg is_dir canonicalize arg cwd) args
              else argv))"

section \<open>Requests without separator bytes\<close>

text \<open>The bytes that end a section of the preimage do not occur in what the section holds.\<close>

definition clean_arg :: "string \<Rightarrow> bool" where
  "clean_arg a \<longleftrightarrow> NUL \<notin> set a \<and> SOH \<notin> set a"

definition clean_env :: "(string \<times> string) list \<Rightarrow> bool" where
  "clean_env es \<longleftrightarrow> list_all (\<lambda>(k, v). NUL \<notin> set k \<and> CHR ''='' \<notin> set k \<and> NUL \<notin> set v) es"

definition clean_request :: "string list \<Rightarrow> string \<Rightarrow> (string \<times> string) list \<Rightarrow> bool" where
  "clean_request argv cwd env_subset \<longleftrightarrow>
     list_all clean_arg argv \<and> SOH \<notin> set cwd \<and> clean_env env_subset"

section \<open>Lemmas\<close>

lemma sep_split: "d \<notin> set a \<Longrightarrow> d \<notin> set b \<Longrightarrow> a @ d # r = b @ d # s \<longleftrightarrow> a = b \<and> r = s"
proof (induction a arbitrary: b)
  case Nil
  then show ?case by (cases b) auto
next
  case (Cons x a)
  then show ?case by (cases b) auto
qed

lemma hash_argv_inj:
  "list_all (\<lambda>a. NUL \<notin> set a) as \<Longrightarrow> list_all (\<lambda>a. NUL \<notin> set a) bs \<Longrightarrow>
     hash_argv as = hash_argv bs \<longleftrightarrow> as = bs"
proof (induction as arbitrary: bs)
  case Nil
  then show ?case by (cases bs) auto
next
  case (Cons a as)
  show ?case
  proof (cases bs)
    case Nil
    then show ?thesis by simp
  next
    case bs: (Cons b bs')
    with Cons.prems Cons.IH [of bs'] show ?thesis by (simp add: sep_split)
  qed
qed

lemma SOH_not_NUL [simp]: "SOH \<noteq> NUL" "NUL \<noteq> SOH"
  by (simp_all add: SOH_def NUL_def)

lemma hash_argv_section:
  "list_all clean_arg as \<Longrightarrow> list_all clean_arg bs \<Longrightarrow>
     hash_argv as @ SOH # r = hash_argv bs @ SOH # s \<longleftrightarrow> as = bs \<and> r = s"
proof (induction as arbitrary: bs)
  case Nil
  show ?case
  proof (cases bs)
    case (Cons b bs')
    with Nil show ?thesis by (cases b) (auto simp: clean_arg_def)
  qed auto
next
  case (Cons a as)
  show ?case
  proof (cases bs)
    case Nil
    with Cons.prems show ?thesis by (cases a) (auto simp: clean_arg_def)
  next
    case bs: (Cons b bs')
    with Cons.prems Cons.IH [of bs'] show ?thesis by (simp add: clean_arg_def sep_split)
  qed
qed

lemma clean_env_sort [simp]: "clean_env (sort_key f es) = clean_env es"
  by (simp add: clean_env_def list_all_iff)

lemma hash_env_pairs_inj:
  "clean_env es \<Longrightarrow> clean_env fs \<Longrightarrow> hash_env_pairs es = hash_env_pairs fs \<longleftrightarrow> es = fs"
proof (induction es arbitrary: fs)
  case Nil
  then show ?case by (cases fs) auto
next
  case (Cons e es)
  show ?case
  proof (cases fs)
    case Nil
    then show ?thesis by simp
  next
    case fs: (Cons f fs')
    have eq: "CHR ''='' \<noteq> NUL" by (simp add: NUL_def)
    have "NUL \<notin> set (env_pair e)" "NUL \<notin> set (env_pair f)"
      "CHR ''='' \<notin> set (fst e)" "CHR ''='' \<notin> set (fst f)"
      using Cons.prems fs eq by (auto simp: clean_env_def env_pair_def)
    moreover from this have "env_pair e = env_pair f \<longleftrightarrow> e = f"
      by (simp add: env_pair_def sep_split prod_eq_iff)
    moreover have "hash_env_pairs es = hash_env_pairs fs' \<longleftrightarrow> es = fs'"
      using Cons.prems fs by (intro Cons.IH) (simp_all add: clean_env_def)
    ultimately show ?thesis by (simp add: fs sep_split)
  qed
qed

lemma of_char_hex_digit: "n < 16 \<Longrightarrow> (of_char (hex_digit n) :: nat) = (if n < 10 then 48 + n else 87 + n)"
  by (simp add: hex_digit_def of_char_of)

lemma hex_digit_inj: "m < 16 \<Longrightarrow> n < 16 \<Longrightarrow> hex_digit m = hex_digit n \<Longrightarrow> m = n"
proof -
  assume m: "m < 16" and n: "n < 16" and eq: "hex_digit m = hex_digit n"
  have "(of_char (hex_digit m) :: nat) = of_char (hex_digit n)"
    by (simp only: eq)
  then have "(if m < 10 then 48 + m else 87 + m) = (if n < 10 then 48 + n else 87 + n)"
    by (simp only: of_char_hex_digit [OF m] of_char_hex_digit [OF n])
  then show "m = n" using m n by (simp split: if_splits)
qed

lemma hex_byte_inj:
  assumes "hex_byte a = hex_byte b"
  shows "a = b"
proof -
  have digits: "hex_digit (unat a div 16) = hex_digit (unat b div 16)"
    "hex_digit (unat a mod 16) = hex_digit (unat b mod 16)"
    using assms by (simp_all only: hex_byte_def list.inject)
  have "unat c div 16 < 16" for c :: u8
  proof -
    have "unat c < 16 * 16" using unat_bound [of c] by simp
    then show ?thesis by (rule less_mult_imp_div_less)
  qed
  then have "unat a div 16 = unat b div 16"
    using digits(1) by (intro hex_digit_inj) 
  moreover have "unat a mod 16 = unat b mod 16"
    using digits(2) by (rule hex_digit_inj [rotated 2]) simp_all
  ultimately have "unat a = unat b"
    by (metis div_mult_mod_eq)
  then show ?thesis by (rule unsigned_word_eqI)
qed

lemma hex_encode_inj: "hex_encode xs = hex_encode ys \<longleftrightarrow> xs = ys"
proof
  show "xs = ys" if "hex_encode xs = hex_encode ys"
    using that
  proof (induction xs arbitrary: ys)
    case Nil
    then show ?case by (cases ys) (auto simp: hex_encode_def hex_byte_def)
  next
    case (Cons x xs)
    then obtain y ys' where ys: "ys = y # ys'"
      by (cases ys) (auto simp: hex_encode_def hex_byte_def)
    have "length (hex_byte x) = length (hex_byte y)" by (simp add: hex_byte_def)
    with Cons.prems ys have "hex_byte x = hex_byte y" "hex_encode xs = hex_encode ys'"
      by (simp_all add: hex_encode_def)
    with Cons.IH ys show ?case by (auto dest: hex_byte_inj)
  qed
qed simp

lemma sort_env_cong:
  "distinct (map fst es) \<Longrightarrow> mset es = mset fs \<Longrightarrow> sort_key fst es = sort_key fst fs"
  by (rule sort_key_inj_key_eq) (auto simp: distinct_map)

lemma has_nocache_arg_iff: "has_nocache_arg argv flags \<longleftrightarrow> set argv \<inter> set flags \<noteq> {}"
proof -
  have "flag_among a fs \<longleftrightarrow> a \<in> set fs" for a fs by (induction fs) auto
  then have "any_flag_among as fs \<longleftrightarrow> set as \<inter> set fs \<noteq> {}" for as fs by (induction as) auto
  then show ?thesis by (auto simp: has_nocache_arg_def)
qed

lemma split_on_join:
  "xs \<noteq> [] \<Longrightarrow> list_all (\<lambda>x. d \<notin> set x) xs \<Longrightarrow> split_on d (str_join [d] xs) = xs"
proof (induction xs rule: list_nonempty_induct)
  case (single x)
  then show ?case by (simp add: split_on_notin)
next
  case (cons x xs)
  then show ?case by (simp add: str_join_Cons split_on_append)
qed

lemma key_preimage_Time_inj:
  assumes "clean_request argv cwd es" and "clean_request argv' cwd' es'"
  shows "key_preimage git Time argv cwd es = key_preimage git Time argv' cwd' es' \<longleftrightarrow>
    argv = argv' \<and> cwd = cwd' \<and> sort_key fst es = sort_key fst es'"
  using assms
  by (simp add: key_preimage_def clean_request_def hash_argv_section sep_split hash_env_subset_def
      hash_env_pairs_inj)

lemma command_key_eq_iff:
  "command_key_with_mode sha256 git mode argv cwd es = command_key_with_mode sha256 git mode' argv' cwd' es'
   \<longleftrightarrow> sha256 (key_preimage git mode argv cwd es) = sha256 (key_preimage git mode' argv' cwd' es')"
  by (simp add: command_key_with_mode_def hex_encode_inj)

lemma str_trim_spaced:
  assumes "str_trim f = f" and "f \<noteq> []"
  shows "str_trim (CHR '' '' # f) = f"
proof -
  have "trim_start (CHR '' '' # f) = trim_start f"
    by (simp add: trim_start_def is_whitespace_def)
  with assms show ?thesis by (simp add: str_trim_def)
qed

section \<open>Properties\<close>



text \<open>
  The key does not depend on the order in which the environment is listed, in any mode, as
  long as no variable is listed twice.
\<close>

theorem key_ignores_env_order:
  assumes "distinct (map fst es)" and "mset es = mset fs"
  shows "command_key_with_mode sha256 git mode argv cwd es
    = command_key_with_mode sha256 git mode argv cwd fs"
  using sort_env_cong [OF assms]
  by (cases mode) (simp_all add: command_key_with_mode_def key_preimage_def hash_env_subset_def)

theorem key_ignores_env_order_witness:
  "command_key_with_mode (\<lambda>s. [of_nat (length s)]) (\<lambda>_. None) Time [''ls''] ''/'' [(''B'', ''2''), (''A'', ''1'')]
   = command_key_with_mode (\<lambda>s. [of_nat (length s)]) (\<lambda>_. None) Time [''ls''] ''/'' [(''A'', ''1''), (''B'', ''2'')]"
  by (rule key_ignores_env_order) simp_all

text \<open>
  A list of flags written with commas, each after any single space or none, parses back to
  that list when the flags are nonempty, trimmed and free of commas; and exactly the commands
  that contain one of the flags bypass the cache.
\<close>

theorem nocache_flags_roundtrip:
  assumes "flags \<noteq> []" and "\<forall>f \<in> set flags. f \<noteq> [] \<and> str_trim f = f \<and> CHR '','' \<notin> set f"
  shows "parse_nocache_args_csv (str_join '','' flags) = flags
    \<and> parse_nocache_args_csv (str_join '','' (map (\<lambda>f. CHR '' '' # f) flags)) = flags
    \<and> (should_bypass_coalesce argv (parse_nocache_args_csv (str_join '','' flags)) \<longleftrightarrow>
         (\<exists>a \<in> set argv. a \<in> set flags))"
proof -
  have split: "split_on CHR '','' (str_join '','' flags) = flags"
    using assms by (intro split_on_join) (auto simp: list_all_iff)
  have split_sp: "split_on CHR '','' (str_join '','' (map (\<lambda>f. CHR '' '' # f) flags)) = map (\<lambda>f. CHR '' '' # f) flags"
    using assms by (intro split_on_join) (auto simp: list_all_iff)
  have "map str_trim flags = flags"
    using assms(2) by (simp add: map_idI)
  moreover have "map str_trim (map (\<lambda>f. CHR '' '' # f) flags) = flags"
    using assms(2) str_trim_spaced by (simp add: map_idI comp_def)
  moreover have "filter (\<lambda>s. s \<noteq> []) flags = flags"
    using assms(2) by (simp add: filter_id_conv)
  ultimately have csv: "parse_nocache_args_csv (str_join '','' flags) = flags"
    and "parse_nocache_args_csv (str_join '','' (map (\<lambda>f. CHR '' '' # f) flags)) = flags"
    by (simp_all only: parse_nocache_args_csv_def split split_sp)
  then show ?thesis
    by (auto simp: should_bypass_coalesce_def has_nocache_arg_iff)
qed

theorem nocache_flags_roundtrip_witness:
  "should_bypass_coalesce [''ruff'', ''--fix'']
     (parse_nocache_args_csv (str_join '','' [''--fix'', ''-w'']))"
proof -
  have "\<forall>f \<in> set [''--fix'', ''-w'']. f \<noteq> [] \<and> str_trim f = f \<and> CHR '','' \<notin> set f"
    by (simp add: str_trim_def trim_start_def is_whitespace_def)
  from nocache_flags_roundtrip [OF _ this, of "[''ruff'', ''--fix'']"] show ?thesis
    by (simp add: should_bypass_coalesce_def has_nocache_arg_iff)
qed

end
