(* ===== verification/TtlCache.thy ===== *)
theory TtlCache
  imports Prelude
begin

text \<open>
  The contract of the caches whose entries expire: what a lookup returns after a store, for the
  same key and for another one. The coalesce cache, the negative dentry cache and the read cache
  are instances; what follows from the contract for whole histories of stores is proved here once.
\<close>

text \<open>
  The contract speaks of the states that satisfy \<open>ok\<close> and of the values that satisfy \<open>good\<close>: those
  that survive the encoding of the cache.
\<close>

text \<open>A history of stores, oldest first, each with its time; and the last store of a key in it.\<close>

type_synonym ('k, 'v) history = "(nat \<times> 'k \<times> 'v) list"

fun latest :: "('k, 'v) history \<Rightarrow> 'k \<Rightarrow> (nat \<times> 'v) option" where
  "latest [] k = None"
| "latest ((t, k', v) # hs) k =
     (case latest hs k of Some r \<Rightarrow> Some r | None \<Rightarrow> if k' = k then Some (t, v) else None)"

locale ttl_cache =
  fixes lookup :: "'s \<Rightarrow> nat \<Rightarrow> 'k \<Rightarrow> 'v option"
    and store :: "'s \<Rightarrow> nat \<Rightarrow> 'k \<Rightarrow> 'v \<Rightarrow> 's"
    and ok :: "'s \<Rightarrow> bool"
    and good :: "'v \<Rightarrow> bool"
    and ttl :: nat
  assumes store_ok: "ok s \<Longrightarrow> ok (store s t k v)"
    and lookup_same: "ok s \<Longrightarrow> good v \<Longrightarrow> t \<le> t' \<Longrightarrow>
      lookup (store s t k v) t' k = (if t' - t < ttl then Some v else None)"
    and lookup_other: "ok s \<Longrightarrow> t \<le> t' \<Longrightarrow> k' \<noteq> k \<Longrightarrow> lookup (store s t k v) t' k' = lookup s t' k'"
begin

definition replay :: "'s \<Rightarrow> ('k, 'v) history \<Rightarrow> 's" where
  "replay s hs = foldl (\<lambda>s (t, k, v). store s t k v) s hs"

lemma replay_ok: "ok s \<Longrightarrow> ok (replay s hs)"
  by (induction hs arbitrary: s) (auto simp: replay_def store_ok)

text \<open>After any history a lookup returns the last store of its key while that is young enough.\<close>

lemma lookup_replay:
  assumes "ok s" and "\<forall>(t, k, v) \<in> set hs. t \<le> t' \<and> good v"
  shows "lookup (replay s hs) t' k =
    (case latest hs k of
       None \<Rightarrow> lookup s t' k
     | Some (t, v) \<Rightarrow> if t' - t < ttl then Some v else None)"
  using assms
proof (induction hs arbitrary: s)
  case Nil
  then show ?case by (simp add: replay_def)
next
  case (Cons h hs)
  obtain t k' v where h: "h = (t, k', v)" by (cases h)
  have "lookup (replay s (h # hs)) t' k = lookup (replay (store s t k' v) hs) t' k"
    by (simp add: replay_def h)
  also have "\<dots> = (case latest hs k of
       None \<Rightarrow> lookup (store s t k' v) t' k
     | Some (t, v) \<Rightarrow> if t' - t < ttl then Some v else None)"
    using Cons.prems by (intro Cons.IH) (simp_all add: store_ok)
  also have "\<dots> = (case latest (h # hs) k of
       None \<Rightarrow> lookup s t' k
     | Some (t, v) \<Rightarrow> if t' - t < ttl then Some v else None)"
    using Cons.prems h
    by (cases "k' = k") (auto simp: lookup_same lookup_other split: option.splits)
  finally show ?case .
qed

end

end
