(* ===== verification/CoalesceCache.thy ===== *)
theory CoalesceCache
  imports CommandKey Meters TtlCache
begin

text \<open>
  The coalesce cache (\<open>crates/sharecli-ipc/src/lib.rs\<close>): results of commands as files of one
  directory, expired by their modification time, and the lock-wait-cache protocol around them.
  The directory is a list of files in the order \<open>read_dir\<close> returns them, each with its bytes and
  its modification time. JSON encoding is a parameter. Every file operation can fail: which ones
  do is an argument, a predicate on the time and the operation. Errors carry the state they leave.
\<close>

section \<open>State and environment\<close>

record cached_result =
  cr_exit_code :: i32
  cr_stdout :: "u8 list"
  cr_stderr :: "u8 list"

record coalesce_cache =
  cc_root :: string
  cc_ttl :: duration
  cc_debounce :: duration

record cache_dir =
  cd_exists :: bool
  cd_files :: "(string \<times> u8 list \<times> nat) list"

datatype io_op =
    CreateRoot
  | Metadata string
  | ReadDir
  | DirEntry string
  | ReadFile string
  | RemoveFile string
  | CreateTemp
  | WriteTemp
  | FlushTemp
  | Persist string
  | OpenLock string

datatype cache_error =
    IoError io_op
  | Deserialise string
  | LockTimeout
  | LockIo
  | MissFailed string

text \<open>Whether an operation fails at a time.\<close>

type_synonym io_faults = "nat \<Rightarrow> io_op \<Rightarrow> bool"

definition DEFAULT_TTL :: duration where
  "DEFAULT_TTL = from_secs 300"

definition cc_with_options :: "string \<Rightarrow> duration \<Rightarrow> duration \<Rightarrow> coalesce_cache" where
  "cc_with_options root ttl debounce = \<lparr>cc_root = root, cc_ttl = ttl, cc_debounce = debounce\<rparr>"

definition cc_with_ttl :: "string \<Rightarrow> duration \<Rightarrow> coalesce_cache" where
  "cc_with_ttl root ttl = cc_with_options root ttl 0"

definition cc_new :: "string \<Rightarrow> coalesce_cache" where
  "cc_new root = cc_with_options root DEFAULT_TTL 0"

text \<open>File names under the root.\<close>

definition entry_path :: "string \<Rightarrow> string" where
  "entry_path key = key @ ''.json''"

definition lock_path :: "string \<Rightarrow> string" where
  "lock_path key = key @ ''.lock''"

section \<open>Lookup, eviction and store\<close>

definition ensure_root :: "io_faults \<Rightarrow> nat \<Rightarrow> cache_dir \<Rightarrow> (cache_error + unit) \<times> cache_dir" where
  "ensure_root fails now d =
     (if fails now CreateRoot then (Inl (IoError CreateRoot), d) else (Inr (), d\<lparr>cd_exists := True\<rparr>))"

text \<open>A modification time in the future counts as age zero.\<close>

definition entry_age :: "io_faults \<Rightarrow> nat \<Rightarrow> cache_dir \<Rightarrow> string \<Rightarrow> cache_error + duration option" where
  "entry_age fails now d name =
     (if fails now (Metadata name) then Inl (IoError (Metadata name))
      else case map_of (cd_files d) name of
        None \<Rightarrow> Inr None
      | Some (_, modified) \<Rightarrow> Inr (Some (now - modified)))"

definition is_fresh ::
  "coalesce_cache \<Rightarrow> io_faults \<Rightarrow> nat \<Rightarrow> cache_dir \<Rightarrow> string \<Rightarrow> cache_error + bool" where
  "is_fresh c fails now d name =
     (case entry_age fails now d name of
        Inl e \<Rightarrow> Inl e
      | Inr (Some age) \<Rightarrow> Inr (age < cc_ttl c)
      | Inr None \<Rightarrow> Inr False)"

fun evict_loop ::
  "coalesce_cache \<Rightarrow> io_faults \<Rightarrow> nat \<Rightarrow> string list \<Rightarrow> cache_dir \<Rightarrow> (cache_error + unit) \<times> cache_dir" where
  "evict_loop c fails now [] d = (Inr (), d)"
| "evict_loop c fails now (n # ns) d =
     (if fails now (DirEntry n) then (Inl (IoError (DirEntry n)), d)
      else if name_extension n \<noteq> Some ''json'' then evict_loop c fails now ns d
      else case is_fresh c fails now d n of
        Inl e \<Rightarrow> (Inl e, d)
      | Inr True \<Rightarrow> evict_loop c fails now ns d
      | Inr False \<Rightarrow>
          evict_loop c fails now ns
            (if fails now (RemoveFile n) then d else d\<lparr>cd_files := AList.delete n (cd_files d)\<rparr>))"

definition evict_stale ::
  "coalesce_cache \<Rightarrow> io_faults \<Rightarrow> nat \<Rightarrow> cache_dir \<Rightarrow> (cache_error + unit) \<times> cache_dir" where
  "evict_stale c fails now d =
     (if \<not> cd_exists d then (Inr (), d)
      else if fails now ReadDir then (Inl (IoError ReadDir), d)
      else evict_loop c fails now (map fst (cd_files d)) d)"

definition cc_lookup ::
  "coalesce_cache \<Rightarrow> (u8 list \<Rightarrow> cached_result option) \<Rightarrow> io_faults \<Rightarrow> nat \<Rightarrow> cache_dir \<Rightarrow> string
     \<Rightarrow> cache_error + cached_result option" where
  "cc_lookup c from_slice fails now d key =
     (let path = entry_path key
      in case is_fresh c fails now d path of
           Inl e \<Rightarrow> Inl e
         | Inr False \<Rightarrow> Inr None
         | Inr True \<Rightarrow>
             if fails now (ReadFile path) then Inl (IoError (ReadFile path))
             else (case map_of (cd_files d) path of
                     None \<Rightarrow> Inr None
                   | Some (bytes, _) \<Rightarrow>
                       (case from_slice bytes of
                          None \<Rightarrow> Inl (Deserialise path)
                        | Some result \<Rightarrow> Inr (Some result))))"

text \<open>A temporary file that is not persisted is removed when it is dropped.\<close>

definition cc_store ::
  "coalesce_cache \<Rightarrow> (cached_result \<Rightarrow> u8 list) \<Rightarrow> io_faults \<Rightarrow> nat \<Rightarrow> cache_dir \<Rightarrow> string
     \<Rightarrow> cached_result \<Rightarrow> (cache_error + unit) \<times> cache_dir" where
  "cc_store c to_vec fails now d key result =
     (case ensure_root fails now d of
        (Inl e, d) \<Rightarrow> (Inl e, d)
      | (Inr _, d) \<Rightarrow>
          (let bytes = to_vec result; dest = entry_path key
           in if fails now CreateTemp then (Inl (IoError CreateTemp), d)
              else if fails now WriteTemp then (Inl (IoError WriteTemp), d)
              else if fails now FlushTemp then (Inl (IoError FlushTemp), d)
              else if fails now (Persist dest) then (Inl (IoError (Persist dest)), d)
              else evict_stale c fails now
                     (d\<lparr>cd_files := AList.update dest (bytes, now) (cd_files d)\<rparr>)))"

section \<open>The advisory lock\<close>

datatype lock_answer = Locked | WouldBlock | LockFails

text \<open>The sleep before the next attempt: doubled each time, at most 250 ms.\<close>

fun backoff_at :: "nat \<Rightarrow> duration" where
  "backoff_at 0 = from_millis 5"
| "backoff_at (Suc i) = min (backoff_at i * 2) (from_millis 250)"

lemma backoff_pos: "0 < backoff_at i"
  by (induction i) (auto simp: time_defs)

text \<open>
  Attempt \<open>i\<close> gets the answer \<open>answers i\<close>; a sleep takes its duration and the delay \<open>delays i\<close> on
  top of it. The result comes with the time that has passed.
\<close>

function acquire_loop ::
  "(nat \<Rightarrow> lock_answer) \<Rightarrow> (nat \<Rightarrow> duration) \<Rightarrow> duration \<Rightarrow> nat \<Rightarrow> duration \<Rightarrow> (cache_error + unit) \<times> duration" where
  "acquire_loop answers delays deadline i elapsed =
     (case answers i of
        Locked \<Rightarrow> (Inr (), elapsed)
      | WouldBlock \<Rightarrow>
          if deadline \<le> elapsed then (Inl LockTimeout, elapsed)
          else acquire_loop answers delays deadline (Suc i) (elapsed + backoff_at i + delays i)
      | LockFails \<Rightarrow> (Inl LockIo, elapsed))"
  by pat_completeness auto

termination acquire_loop
  by (relation "measure (\<lambda>(a, d, deadline, i, elapsed). deadline - elapsed)")
    (use backoff_pos in \<open>auto simp: less_diff_conv2 intro: diff_less_mono2 add_strict_increasing2\<close>)

declare acquire_loop.simps [simp del]

definition acquire_lock_with_deadline ::
  "(nat \<Rightarrow> lock_answer) \<Rightarrow> (nat \<Rightarrow> duration) \<Rightarrow> duration \<Rightarrow> (cache_error + unit) \<times> duration" where
  "acquire_lock_with_deadline answers delays deadline = acquire_loop answers delays deadline 0 0"

section \<open>The lock-wait-cache protocol\<close>

text \<open>
  What a call meets: the JSON functions, the faults, the answers to the lock attempts with their
  delays, what other processes do to the directory while this one waits for the lock, sleeps in
  the debounce window or runs the command, and how long the command takes.
\<close>

datatype wait_point = LockWait | DebounceWait | RunWait

record cache_env =
  ce_to_vec :: "cached_result \<Rightarrow> u8 list"
  ce_from_slice :: "u8 list \<Rightarrow> cached_result option"
  ce_fails :: io_faults
  ce_answers :: "nat \<Rightarrow> lock_answer"
  ce_delays :: "nat \<Rightarrow> duration"
  ce_meanwhile :: "wait_point \<Rightarrow> cache_dir \<Rightarrow> cache_dir"
  ce_run_time :: duration

text \<open>The state of a call: the clock, the directory, the meters, and the world the command acts on.\<close>

record 'w cache_state =
  cs_now :: nat
  cs_dir :: cache_dir
  cs_meters :: coalesce_meters
  cs_world :: 'w

definition cs_wait :: "cache_env \<Rightarrow> wait_point \<Rightarrow> duration \<Rightarrow> 'w cache_state \<Rightarrow> 'w cache_state" where
  "cs_wait E p t s = s\<lparr>cs_now := cs_now s + t, cs_dir := ce_meanwhile E p (cs_dir s)\<rparr>"

definition cs_record :: "coalesce_hit_kind \<Rightarrow> 'w cache_state \<Rightarrow> 'w cache_state" where
  "cs_record k s = s\<lparr>cs_meters := record_coalesce_hit_kind k (cs_meters s)\<rparr>"

definition cs_lookup ::
  "coalesce_cache \<Rightarrow> cache_env \<Rightarrow> 'w cache_state \<Rightarrow> string \<Rightarrow> cache_error + cached_result option" where
  "cs_lookup c E s key = cc_lookup c (ce_from_slice E) (ce_fails E) (cs_now s) (cs_dir s) key"

text \<open>Opening the lock file creates it when it is missing and does not truncate it.\<close>

definition open_lock :: "cache_env \<Rightarrow> string \<Rightarrow> 'w cache_state \<Rightarrow> (cache_error + unit) \<times> 'w cache_state" where
  "open_lock E key s =
     (let path = lock_path key
      in if ce_fails E (cs_now s) (OpenLock path) then (Inl (IoError (OpenLock path)), s)
         else if map_of (cd_files (cs_dir s)) path = None
         then (Inr (), s\<lparr>cs_dir := (cs_dir s)\<lparr>cd_files := cd_files (cs_dir s) @ [(path, [], cs_now s)]\<rparr>\<rparr>)
         else (Inr (), s))"

text \<open>The part after the re-checks: run the command, and store its result when it succeeded.\<close>

definition run_miss ::
  "coalesce_cache \<Rightarrow> cache_env \<Rightarrow> string \<Rightarrow> ('w \<Rightarrow> (string + cached_result) \<times> 'w) \<Rightarrow> 'w cache_state
     \<Rightarrow> (cache_error + cached_result \<times> coalesce_hit_kind) \<times> 'w cache_state" where
  "run_miss c E key f s =
     (case f (cs_world s) of
        (Inl e, w) \<Rightarrow> (Inl (MissFailed e), cs_wait E RunWait (ce_run_time E) (s\<lparr>cs_world := w\<rparr>))
      | (Inr cached, w) \<Rightarrow>
          (let s = cs_wait E RunWait (ce_run_time E) (s\<lparr>cs_world := w\<rparr>)
           in if cr_exit_code cached \<noteq> 0 then (Inr (cached, Miss), cs_record Miss s)
              else (case cc_store c (ce_to_vec E) (ce_fails E) (cs_now s) (cs_dir s) key cached of
                      (Inl e, d) \<Rightarrow> (Inl e, s\<lparr>cs_dir := d\<rparr>)
                    | (Inr _, d) \<Rightarrow> (Inr (cached, Miss), cs_record Miss (s\<lparr>cs_dir := d\<rparr>)))))"

text \<open>Under the lock: the re-check, and after the debounce sleep a second one.\<close>

definition recheck ::
  "coalesce_cache \<Rightarrow> cache_env \<Rightarrow> string \<Rightarrow> ('w \<Rightarrow> (string + cached_result) \<times> 'w) \<Rightarrow> 'w cache_state
     \<Rightarrow> (cache_error + cached_result \<times> coalesce_hit_kind) \<times> 'w cache_state" where
  "recheck c E key f s =
     (case cs_lookup c E s key of
        Inl e \<Rightarrow> (Inl e, s)
      | Inr (Some cached) \<Rightarrow> (Inr (cached, LockRecheck), cs_record LockRecheck s)
      | Inr None \<Rightarrow>
          if cc_debounce c = 0 then run_miss c E key f s
          else (let s = cs_wait E DebounceWait (cc_debounce c) s
                in case cs_lookup c E s key of
                     Inl e \<Rightarrow> (Inl e, s)
                   | Inr (Some cached) \<Rightarrow> (Inr (cached, DebounceRecheck), cs_record DebounceRecheck s)
                   | Inr None \<Rightarrow> run_miss c E key f s))"

definition LOCK_DEADLINE :: duration where
  "LOCK_DEADLINE = from_secs 30"

definition with_lock_detailed ::
  "coalesce_cache \<Rightarrow> cache_env \<Rightarrow> string \<Rightarrow> ('w \<Rightarrow> (string + cached_result) \<times> 'w) \<Rightarrow> 'w cache_state
     \<Rightarrow> (cache_error + cached_result \<times> coalesce_hit_kind) \<times> 'w cache_state" where
  "with_lock_detailed c E key f s =
     (case ensure_root (ce_fails E) (cs_now s) (cs_dir s) of
        (Inl e, _) \<Rightarrow> (Inl e, s)
      | (Inr _, d) \<Rightarrow>
          (case open_lock E key (s\<lparr>cs_dir := d\<rparr>) of
             (Inl e, s) \<Rightarrow> (Inl e, s)
           | (Inr _, s) \<Rightarrow>
               (case acquire_lock_with_deadline (ce_answers E) (ce_delays E) LOCK_DEADLINE of
                  (Inl e, t) \<Rightarrow> (Inl e, cs_wait E LockWait t s)
                | (Inr _, t) \<Rightarrow> recheck c E key f (cs_wait E LockWait t s))))"

definition with_lock ::
  "coalesce_cache \<Rightarrow> cache_env \<Rightarrow> string \<Rightarrow> ('w \<Rightarrow> (string + cached_result) \<times> 'w) \<Rightarrow> 'w cache_state
     \<Rightarrow> (cache_error + cached_result) \<times> 'w cache_state" where
  "with_lock c E key f s =
     (case with_lock_detailed c E key f s of
        (Inl e, s) \<Rightarrow> (Inl e, s)
      | (Inr (value, _), s) \<Rightarrow> (Inr value, s))"

section \<open>Concurrent callers\<close>

text \<open>
  The same protocol with many callers of one key interleaved. Each caller is at one of the points
  of \<open>with_lock_detailed\<close>; the flock has at most one holder and is released when its holder
  returns or dies. Runs of the command are counted and the \<open>n\<close>-th one yields \<open>out n\<close>.
\<close>

datatype caller =
    Waiting
  | Holding
  | Debouncing nat
  | Missed
  | Ran cached_result
  | Finished cached_result coalesce_hit_kind
  | Gone

record crowd =
  cw_now :: nat
  cw_dir :: cache_dir
  cw_holder :: "nat option"
  cw_callers :: "nat \<Rightarrow> caller"
  cw_runs :: nat
  cw_crashes :: nat

definition no_faults :: io_faults where
  "no_faults = (\<lambda>_ _. False)"

definition cw_finish :: "nat \<Rightarrow> caller \<Rightarrow> crowd \<Rightarrow> crowd" where
  "cw_finish i p w = w\<lparr>cw_holder := None, cw_callers := (cw_callers w)(i := p)\<rparr>"

inductive crowd_step ::
  "coalesce_cache \<Rightarrow> (cached_result \<Rightarrow> u8 list) \<Rightarrow> (u8 list \<Rightarrow> cached_result option) \<Rightarrow> string
     \<Rightarrow> (nat \<Rightarrow> cached_result) \<Rightarrow> crowd \<Rightarrow> crowd \<Rightarrow> bool"
  for c to_vec from_slice key out where
  tick: "crowd_step c to_vec from_slice key out w (w\<lparr>cw_now := Suc (cw_now w)\<rparr>)"
| acquire: "cw_callers w i = Waiting \<Longrightarrow> cw_holder w = None \<Longrightarrow>
    crowd_step c to_vec from_slice key out w
      (w\<lparr>cw_holder := Some i, cw_callers := (cw_callers w)(i := Holding)\<rparr>)"
| lock_timeout: "cw_callers w i = Waiting \<Longrightarrow>
    crowd_step c to_vec from_slice key out w (w\<lparr>cw_callers := (cw_callers w)(i := Gone)\<rparr>)"
| lock_hit: "cw_callers w i = Holding \<Longrightarrow>
    cc_lookup c from_slice no_faults (cw_now w) (cw_dir w) key = Inr (Some r) \<Longrightarrow>
    crowd_step c to_vec from_slice key out w (cw_finish i (Finished r LockRecheck) w)"
| lock_miss: "cw_callers w i = Holding \<Longrightarrow>
    cc_lookup c from_slice no_faults (cw_now w) (cw_dir w) key = Inr None \<Longrightarrow>
    crowd_step c to_vec from_slice key out w
      (w\<lparr>cw_callers := (cw_callers w)(i :=
          (if cc_debounce c = 0 then Missed else Debouncing (cw_now w + cc_debounce c)))\<rparr>)"
| debounce_hit: "cw_callers w i = Debouncing t \<Longrightarrow> t \<le> cw_now w \<Longrightarrow>
    cc_lookup c from_slice no_faults (cw_now w) (cw_dir w) key = Inr (Some r) \<Longrightarrow>
    crowd_step c to_vec from_slice key out w (cw_finish i (Finished r DebounceRecheck) w)"
| debounce_miss: "cw_callers w i = Debouncing t \<Longrightarrow> t \<le> cw_now w \<Longrightarrow>
    cc_lookup c from_slice no_faults (cw_now w) (cw_dir w) key = Inr None \<Longrightarrow>
    crowd_step c to_vec from_slice key out w (w\<lparr>cw_callers := (cw_callers w)(i := Missed)\<rparr>)"
| run_command: "cw_callers w i = Missed \<Longrightarrow>
    crowd_step c to_vec from_slice key out w
      (w\<lparr>cw_runs := Suc (cw_runs w), cw_callers := (cw_callers w)(i := Ran (out (cw_runs w)))\<rparr>)"
| run_failed: "cw_callers w i = Ran r \<Longrightarrow> cr_exit_code r \<noteq> 0 \<Longrightarrow>
    crowd_step c to_vec from_slice key out w (cw_finish i (Finished r Miss) w)"
| run_stored: "cw_callers w i = Ran r \<Longrightarrow> cr_exit_code r = 0 \<Longrightarrow>
    cc_store c to_vec no_faults (cw_now w) (cw_dir w) key r = (Inr (), d) \<Longrightarrow>
    crowd_step c to_vec from_slice key out w (cw_finish i (Finished r Miss) (w\<lparr>cw_dir := d\<rparr>))"
| crash: "cw_holder w = Some i \<Longrightarrow>
    crowd_step c to_vec from_slice key out w (cw_finish i Gone (w\<lparr>cw_crashes := Suc (cw_crashes w)\<rparr>))"

inductive_cases crowd_stepE: "crowd_step c to_vec from_slice key out w w'"

definition crowd_init :: "nat \<Rightarrow> cache_dir \<Rightarrow> crowd" where
  "crowd_init now d = \<lparr>cw_now = now, cw_dir = d, cw_holder = None, cw_callers = (\<lambda>_. Waiting),
                      cw_runs = 0, cw_crashes = 0\<rparr>"

text \<open>An eviction, interrupted at any point, removes expired entries only.\<close>

definition evicted :: "coalesce_cache \<Rightarrow> nat \<Rightarrow> cache_dir \<Rightarrow> cache_dir \<Rightarrow> bool" where
  "evicted c now d d' \<longleftrightarrow>
     (\<forall>n. map_of (cd_files d') n = map_of (cd_files d) n
        \<or> (map_of (cd_files d') n = None
            \<and> (\<exists>b m. map_of (cd_files d) n = Some (b, m) \<and> cc_ttl c \<le> now - m)))"

text \<open>The callers between taking the lock and releasing it.\<close>

definition active :: "caller \<Rightarrow> bool" where
  "active p = (case p of Holding \<Rightarrow> True | Debouncing _ \<Rightarrow> True | Missed \<Rightarrow> True | Ran _ \<Rightarrow> True | _ \<Rightarrow> False)"

definition is_ran :: "caller \<Rightarrow> bool" where
  "is_ran p = (case p of Ran _ \<Rightarrow> True | _ \<Rightarrow> False)"

text \<open>The lock is held by exactly the active caller.\<close>

definition exclusive :: "nat option \<Rightarrow> (nat \<Rightarrow> caller) \<Rightarrow> bool" where
  "exclusive h cs \<longleftrightarrow> (\<forall>i. active (cs i) \<longleftrightarrow> h = Some i)"

text \<open>The number of expiry periods since the start.\<close>

definition periods :: "coalesce_cache \<Rightarrow> nat \<Rightarrow> nat \<Rightarrow> nat" where
  "periods c t0 t = (t - t0) div cc_ttl c"

text \<open>
  The bound on the runs, with what keeps it: whether a caller is about to run, whether one has run
  and not yet stored, and the entry with its time.
\<close>

definition runs_ok ::
  "coalesce_cache \<Rightarrow> nat \<Rightarrow> nat \<Rightarrow> nat \<Rightarrow> nat \<Rightarrow> bool \<Rightarrow> bool \<Rightarrow> (u8 list \<times> nat) option \<Rightarrow> bool" where
  "runs_ok c t0 now runs crashes missed pending entry \<longleftrightarrow>
     t0 \<le> now
     \<and> runs \<le> 1 + periods c t0 now + crashes
     \<and> (missed \<longrightarrow> runs \<le> periods c t0 now + crashes)
     \<and> (runs \<le> of_bool pending + crashes
        \<or> (\<exists>bytes ts. entry = Some (bytes, ts) \<and> t0 \<le> ts \<and> ts \<le> now
             \<and> runs \<le> of_bool pending + 1 + periods c t0 ts + crashes))"

definition runs_bounded :: "coalesce_cache \<Rightarrow> string \<Rightarrow> nat \<Rightarrow> crowd \<Rightarrow> bool" where
  "runs_bounded c key t0 w \<longleftrightarrow>
     runs_ok c t0 (cw_now w) (cw_runs w) (cw_crashes w)
       (\<exists>i. cw_callers w i = Missed) (\<exists>i. is_ran (cw_callers w i))
       (map_of (cd_files (cw_dir w)) (entry_path key))"

text \<open>Every result in the cache or returned comes from a run.\<close>

definition results_genuine ::
  "(cached_result \<Rightarrow> u8 list) \<Rightarrow> string \<Rightarrow> (nat \<Rightarrow> cached_result) \<Rightarrow> crowd \<Rightarrow> bool" where
  "results_genuine to_vec key out w \<longleftrightarrow>
     (\<forall>i r. cw_callers w i = Ran r \<longrightarrow> (\<exists>n < cw_runs w. r = out n))
     \<and> (\<forall>i r k. cw_callers w i = Finished r k \<longrightarrow> (\<exists>n < cw_runs w. r = out n))
     \<and> (\<forall>bytes ts. map_of (cd_files (cw_dir w)) (entry_path key) = Some (bytes, ts) \<longrightarrow>
          (\<exists>n < cw_runs w. bytes = to_vec (out n)))"

section \<open>The cache: lemmas\<close>

lemma entry_path_inj [simp]: "entry_path k = entry_path k' \<longleftrightarrow> k = k'"
  by (simp add: entry_path_def)

lemma entry_not_lock [simp]: "entry_path k \<noteq> lock_path k'" "lock_path k' \<noteq> entry_path k"
proof -
  have "last (entry_path k) \<noteq> last (lock_path k')"
    by (simp add: entry_path_def lock_path_def)
  then show "entry_path k \<noteq> lock_path k'" "lock_path k' \<noteq> entry_path k" by auto
qed

lemma entry_path_json: "k \<noteq> [] \<Longrightarrow> name_extension (entry_path k) = Some ''json''"
  unfolding entry_path_def
  using name_extension_Some [of "''json''" k] by simp

text \<open>Without faults a lookup is a function of the entry's bytes and age.\<close>

lemma lookup_no_faults:
  "cc_lookup c from_slice no_faults now d key =
     (case map_of (cd_files d) (entry_path key) of
        None \<Rightarrow> Inr None
      | Some (b, m) \<Rightarrow>
          if now - m < cc_ttl c
          then (case from_slice b of None \<Rightarrow> Inl (Deserialise (entry_path key)) | Some r \<Rightarrow> Inr (Some r))
          else Inr None)"
  by (auto simp: cc_lookup_def is_fresh_def entry_age_def no_faults_def split: option.splits bool.splits)

lemma evicted_refl: "evicted c now d d"
  by (simp add: evicted_def)

lemma evicted_trans: "evicted c now d d' \<Longrightarrow> evicted c now d' d'' \<Longrightarrow> evicted c now d d''"
  unfolding evicted_def by (metis option.distinct(1))

lemma evicted_delete:
  assumes "is_fresh c fails now d n = Inr False"
  shows "evicted c now d (d\<lparr>cd_files := AList.delete n (cd_files d)\<rparr>)"
proof -
  have "map_of (cd_files d) n = None \<or> (\<exists>b m. map_of (cd_files d) n = Some (b, m) \<and> cc_ttl c \<le> now - m)"
    using assms by (auto simp: is_fresh_def entry_age_def split: option.splits if_splits)
  then show ?thesis
    by (auto simp: evicted_def AList.delete_conv)
qed

lemma evict_loop_evicted: "evict_loop c fails now ns d = (res, d') \<Longrightarrow> evicted c now d d'"
proof (induction ns arbitrary: d)
  case Nil
  then show ?case by (simp add: evicted_refl)
next
  case (Cons n ns)
  show ?case
  proof (cases "is_fresh c fails now d n")
    case (Inl e)
    with Cons show ?thesis by (auto simp: evicted_refl split: if_splits)
  next
    case (Inr b)
    show ?thesis
    proof (cases b)
      case True
      with Inr Cons show ?thesis by (auto simp: evicted_refl split: if_splits)
    next
      case False
      with Inr Cons show ?thesis
        by (auto simp: evicted_refl split: if_splits intro: evicted_trans evicted_delete)
    qed
  qed
qed

lemma evict_stale_evicted: "evict_stale c fails now d = (res, d') \<Longrightarrow> evicted c now d d'"
  by (auto simp: evict_stale_def evicted_refl split: if_splits dest: evict_loop_evicted)

lemma evict_loop_exact:
  "\<exists>d'. evict_loop c no_faults now ns d = (Inr (), d') \<and> cd_exists d' = cd_exists d
     \<and> (\<forall>n. map_of (cd_files d') n =
          (case map_of (cd_files d) n of
             None \<Rightarrow> None
           | Some (b, m) \<Rightarrow>
               if n \<in> set ns \<and> name_extension n = Some ''json'' \<and> cc_ttl c \<le> now - m then None
               else Some (b, m)))"
proof (induction ns arbitrary: d)
  case Nil
  then show ?case by (auto split: option.splits)
next
  case (Cons n ns)
  show ?case
  proof (cases "name_extension n = Some ''json'' \<and> is_fresh c no_faults now d n = Inr False")
    case True
    let ?d = "d\<lparr>cd_files := AList.delete n (cd_files d)\<rparr>"
    have "evict_loop c no_faults now (n # ns) d = evict_loop c no_faults now ns ?d"
      using True by (simp add: no_faults_def)
    moreover have "map_of (cd_files d) n = Some (b, m) \<Longrightarrow> cc_ttl c \<le> now - m" for b m
      using True by (auto simp: is_fresh_def entry_age_def no_faults_def)
    ultimately show ?thesis
      using Cons [of ?d] True by (fastforce simp: AList.delete_conv split: option.splits)
  next
    case False
    have keep: "map_of (cd_files d) n = Some (b, m) \<Longrightarrow> name_extension n = Some ''json'' \<Longrightarrow> \<not> cc_ttl c \<le> now - m" for b m
      using False by (auto simp: is_fresh_def entry_age_def no_faults_def)
    have "evict_loop c no_faults now (n # ns) d = evict_loop c no_faults now ns d"
      using False by (auto simp: no_faults_def is_fresh_def entry_age_def split: option.splits bool.splits)
    with Cons [of d] keep show ?thesis by (fastforce split: option.splits)
  qed
qed

lemma evict_stale_exact:
  assumes "cd_exists d"
  shows "\<exists>d'. evict_stale c no_faults now d = (Inr (), d') \<and> cd_exists d'
     \<and> (\<forall>n. map_of (cd_files d') n =
          (case map_of (cd_files d) n of
             None \<Rightarrow> None
           | Some (b, m) \<Rightarrow>
               if name_extension n = Some ''json'' \<and> cc_ttl c \<le> now - m then None else Some (b, m)))"
proof -
  have mem: "map_of (cd_files d) n = Some y \<Longrightarrow> n \<in> set (map fst (cd_files d))" for n y
    by (metis domI dom_map_of_conv_image_fst set_map)
  have eq: "evict_stale c no_faults now d = evict_loop c no_faults now (map fst (cd_files d)) d"
    using assms by (simp add: evict_stale_def no_faults_def)
  show ?thesis
    unfolding eq using evict_loop_exact [of c now "map fst (cd_files d)" d] assms mem
    by (fastforce split: option.splits)
qed

text \<open>A store that gets as far as the rename replaces the entry and evicts; any other leaves it.\<close>

lemma store_cases:
  assumes "cc_store c to_vec fails now d key r = (res, d')"
  shows "(cd_files d' = cd_files d \<and> res \<noteq> Inr ())
    \<or> evicted c now (d\<lparr>cd_exists := True, cd_files := AList.update (entry_path key) (to_vec r, now) (cd_files d)\<rparr>) d'"
proof -
  let ?d = "d\<lparr>cd_exists := True, cd_files := AList.update (entry_path key) (to_vec r, now) (cd_files d)\<rparr>"
  have "(cd_files d' = cd_files d \<and> res \<noteq> Inr ()) \<or> evict_stale c fails now ?d = (res, d')"
    using assms by (auto simp: cc_store_def ensure_root_def Let_def split: if_splits)
  then show ?thesis by (auto dest: evict_stale_evicted)
qed

lemma lookup_evicted:
  assumes "evicted c now d d'" and "now \<le> now'"
  shows "cc_lookup c from_slice no_faults now' d' key = cc_lookup c from_slice no_faults now' d key"
proof -
  consider "map_of (cd_files d') (entry_path key) = map_of (cd_files d) (entry_path key)"
    | b m where "map_of (cd_files d') (entry_path key) = None"
        "map_of (cd_files d) (entry_path key) = Some (b, m)" "cc_ttl c \<le> now - m"
    using assms(1) unfolding evicted_def by blast
  then show ?thesis
  proof cases
    case 1
    then show ?thesis by (simp add: lookup_no_faults)
  next
    case 2
    with assms(2) have "\<not> now' - m < cc_ttl c" by arith
    with 2 show ?thesis by (simp add: lookup_no_faults)
  qed
qed

lemma lookup_update:
  assumes "from_slice (to_vec r) = Some r" and "now \<le> now'"
  shows "cc_lookup c from_slice no_faults now'
      (d\<lparr>cd_exists := x, cd_files := AList.update (entry_path key) (to_vec r, now) (cd_files d)\<rparr>) key
    = Inr (if now' - now < cc_ttl c then Some r else None)"
  using assms by (simp add: lookup_no_faults AList.update_conv)

lemma lookup_update_other:
  "key' \<noteq> key \<Longrightarrow> cc_lookup c from_slice no_faults now'
      (d\<lparr>cd_exists := x, cd_files := AList.update (entry_path key) y (cd_files d)\<rparr>) key'
    = cc_lookup c from_slice no_faults now' d key'"
  by (simp add: lookup_no_faults AList.update_conv)

lemma store_no_faults:
  "\<exists>d'. cc_store c to_vec no_faults now d key r = (Inr (), d')
     \<and> evicted c now (d\<lparr>cd_exists := True, cd_files := AList.update (entry_path key) (to_vec r, now) (cd_files d)\<rparr>) d'"
proof -
  let ?d = "d\<lparr>cd_exists := True, cd_files := AList.update (entry_path key) (to_vec r, now) (cd_files d)\<rparr>"
  have "cc_store c to_vec no_faults now d key r = evict_stale c no_faults now ?d"
    by (simp add: cc_store_def ensure_root_def no_faults_def)
  with evict_stale_exact [of ?d c now] show ?thesis
    by (auto dest: evict_stale_evicted)
qed

text \<open>The coalesce cache keeps the contract of a cache with expiring entries.\<close>

interpretation coalesce: ttl_cache
  "\<lambda>d now key. case cc_lookup c from_slice no_faults now d key of Inr r \<Rightarrow> r | Inl _ \<Rightarrow> None"
  "\<lambda>d now key r. snd (cc_store c to_vec no_faults now d key r)"
  "\<lambda>_. True" "\<lambda>r. from_slice (to_vec r) = Some r" "cc_ttl c"
  for c to_vec from_slice
proof unfold_locales
  fix d :: cache_dir and t t' :: nat and k k' :: string and v :: cached_result
  obtain d' where d': "cc_store c to_vec no_faults t d k v = (Inr (), d')"
    "evicted c t (d\<lparr>cd_exists := True, cd_files := AList.update (entry_path k) (to_vec v, t) (cd_files d)\<rparr>) d'"
    using store_no_faults by blast
  assume t: "t \<le> t'"
  show "from_slice (to_vec v) = Some v \<Longrightarrow>
    (case cc_lookup c from_slice no_faults t' (snd (cc_store c to_vec no_faults t d k v)) k of
       Inr r \<Rightarrow> r | Inl _ \<Rightarrow> None) = (if t' - t < cc_ttl c then Some v else None)"
    using t by (simp add: d'(1) lookup_evicted [OF d'(2) t] lookup_update)
  show "k' \<noteq> k \<Longrightarrow>
    (case cc_lookup c from_slice no_faults t' (snd (cc_store c to_vec no_faults t d k v)) k' of
       Inr r \<Rightarrow> r | Inl _ \<Rightarrow> None)
    = (case cc_lookup c from_slice no_faults t' d k' of Inr r \<Rightarrow> r | Inl _ \<Rightarrow> None)"
    by (simp add: d'(1) lookup_evicted [OF d'(2) t] lookup_update_other)
qed simp

section \<open>Concurrent callers: lemmas\<close>

lemma active_simps [simp]:
  "\<not> active Waiting" "active Holding" "active (Debouncing t)" "active Missed" "active (Ran r)"
  "\<not> active (Finished r k)" "\<not> active Gone"
  by (simp_all add: active_def)

lemma is_ran_simps [simp]:
  "\<not> is_ran Waiting" "\<not> is_ran Holding" "\<not> is_ran (Debouncing t)" "\<not> is_ran Missed" "is_ran (Ran r)"
  "\<not> is_ran (Finished r k)" "\<not> is_ran Gone"
  by (simp_all add: is_ran_def)

lemma is_ran_active: "is_ran p \<Longrightarrow> active p"
  by (cases p) auto

lemma exclusive_keep: "exclusive h cs \<Longrightarrow> active p = active (cs i) \<Longrightarrow> exclusive h (cs(i := p))"
  by (simp add: exclusive_def)

lemma exclusive_acquire: "exclusive None cs \<Longrightarrow> active p \<Longrightarrow> exclusive (Some i) (cs(i := p))"
  by (simp add: exclusive_def)

lemma exclusive_release: "exclusive h cs \<Longrightarrow> h = Some i \<Longrightarrow> \<not> active p \<Longrightarrow> exclusive None (cs(i := p))"
  by (auto simp: exclusive_def)

lemma exclusive_holder: "exclusive h cs \<Longrightarrow> active (cs i) \<Longrightarrow> h = Some i"
  by (simp add: exclusive_def)

lemma exclusive_step:
  assumes "crowd_step c to_vec from_slice key out w w'" and "exclusive (cw_holder w) (cw_callers w)"
  shows "exclusive (cw_holder w') (cw_callers w')"
  using assms(1)
proof cases
  case (acquire i)
  with assms(2) show ?thesis by (simp add: exclusive_acquire)
next
  case (lock_hit i r)
  with assms(2) exclusive_holder [OF assms(2), of i] show ?thesis
    by (simp add: cw_finish_def exclusive_release)
next
  case (debounce_hit i t r)
  with assms(2) exclusive_holder [OF assms(2), of i] show ?thesis
    by (simp add: cw_finish_def exclusive_release)
next
  case (run_failed i r)
  with assms(2) exclusive_holder [OF assms(2), of i] show ?thesis
    by (simp add: cw_finish_def exclusive_release)
next
  case (run_stored i r d)
  with assms(2) exclusive_holder [OF assms(2), of i] show ?thesis
    by (simp add: cw_finish_def exclusive_release)
next
  case (crash i)
  with assms(2) show ?thesis by (simp add: cw_finish_def exclusive_release)
qed (use assms(2) in \<open>simp_all add: exclusive_keep\<close>)

lemma exclusive_only: "exclusive h cs \<Longrightarrow> active (cs i) \<Longrightarrow> active (cs j) \<Longrightarrow> i = j"
  by (auto simp: exclusive_def)

lemma periods_mono: "t \<le> t' \<Longrightarrow> periods c t0 t \<le> periods c t0 t'"
  by (simp add: periods_def div_le_mono)

lemma periods_expired:
  assumes "0 < cc_ttl c" and "t0 \<le> ts" and "cc_ttl c \<le> now - ts"
  shows "1 + periods c t0 ts \<le> periods c t0 now"
proof -
  have "1 + periods c t0 ts = (ts - t0 + cc_ttl c) div cc_ttl c"
    using assms(1) by (simp add: periods_def div_add_self2)
  also have "\<dots> \<le> (now - t0) div cc_ttl c"
    using assms by (intro div_le_mono) linarith
  finally show ?thesis by (simp add: periods_def)
qed

text \<open>A caller that finds no fresh entry leaves room for one more run.\<close>

lemma miss_leaves_room:
  assumes "runs_ok c t0 now runs crashes missed False (map_of (cd_files d) (entry_path key))"
    and "0 < cc_ttl c" and "cc_lookup c from_slice no_faults now d key = Inr None"
  shows "runs \<le> periods c t0 now + crashes"
proof -
  from assms(1) consider "runs \<le> crashes"
    | ts bytes where "map_of (cd_files d) (entry_path key) = Some (bytes, ts)"
        "t0 \<le> ts" "runs \<le> 1 + periods c t0 ts + crashes"
    by (auto simp: runs_ok_def)
  then show ?thesis
  proof cases
    case 2
    with assms(3) have "cc_ttl c \<le> now - ts"
      by (auto simp: lookup_no_faults split: if_splits option.splits)
    with 2 assms(2) periods_expired [of c t0 ts now] show ?thesis by simp
  qed simp
qed

lemma runs_ok_tick: "runs_ok c t0 now n k m r e \<Longrightarrow> runs_ok c t0 (Suc now) n k m r e"
  using periods_mono [of now "Suc now" c t0] by (fastforce simp: runs_ok_def)

lemma runs_ok_unmissed: "runs_ok c t0 now n k m r e \<Longrightarrow> runs_ok c t0 now n k False r e"
  by (simp add: runs_ok_def)

lemma runs_ok_missed:
  "runs_ok c t0 now n k m r e \<Longrightarrow> n \<le> periods c t0 now + k \<Longrightarrow> runs_ok c t0 now n k True r e"
  by (simp add: runs_ok_def)

lemma runs_ok_run: "runs_ok c t0 now n k True False e \<Longrightarrow> runs_ok c t0 now (Suc n) k False True e"
  by (auto simp: runs_ok_def)

lemma runs_ok_store: "runs_ok c t0 now n k m r e \<Longrightarrow> runs_ok c t0 now n k False False (Some (bytes, now))"
  by (auto simp: runs_ok_def)

lemma runs_ok_crash: "runs_ok c t0 now n k m r e \<Longrightarrow> runs_ok c t0 now n (Suc k) False False e"
  by (cases r) (auto simp: runs_ok_def)

lemma holder_not_ran:
  assumes "exclusive h cs" and "active (cs i)" and "\<not> is_ran (cs i)"
  shows "\<not> (\<exists>j. is_ran (cs j))"
proof
  assume "\<exists>j. is_ran (cs j)"
  then obtain j where j: "is_ran (cs j)" ..
  then have "i = j" using exclusive_only [OF assms(1,2)] is_ran_active by blast
  with j assms(3) show False by simp
qed

text \<open>What the callers' points say of the whole crowd after one of them moves.\<close>

lemma flags_update:
  assumes "\<And>j. j \<noteq> i \<Longrightarrow> \<not> active (cs j)"
  shows "(\<exists>j. (cs(i := p)) j = Missed) = (p = Missed)" "(\<exists>j. is_ran ((cs(i := p)) j)) = is_ran p"
proof -
  have "cs j \<noteq> Missed" "\<not> is_ran (cs j)" if "j \<noteq> i" for j
    using assms [OF that] is_ran_active by auto
  then show "(\<exists>j. (cs(i := p)) j = Missed) = (p = Missed)" "(\<exists>j. is_ran ((cs(i := p)) j)) = is_ran p"
    by auto
qed

lemma others_inactive: "exclusive h cs \<Longrightarrow> h = Some i \<or> h = None \<Longrightarrow> j \<noteq> i \<Longrightarrow> \<not> active (cs j)"
  by (auto simp: exclusive_def)

lemma flags_now:
  assumes "exclusive h cs" and "active (cs i)"
  shows "(\<exists>j. cs j = Missed) = (cs i = Missed)" "(\<exists>j. is_ran (cs j)) = is_ran (cs i)"
  using flags_update [of i cs "cs i"] others_inactive [OF assms(1)] exclusive_holder [OF assms]
  by auto

lemma flags_idle:
  assumes "cs i = Waiting"
  shows "(\<exists>j. (cs(i := Gone)) j = Missed) = (\<exists>j. cs j = Missed)"
    "(\<exists>j. is_ran ((cs(i := Gone)) j)) = (\<exists>j. is_ran (cs j))"
  using assms by (auto, metis caller.distinct(5), metis is_ran_simps(1))

lemma stored_entry:
  assumes "cc_store c to_vec no_faults now d key r = (Inr (), d')" and "0 < cc_ttl c"
  shows "map_of (cd_files d') (entry_path key) = Some (to_vec r, now)"
proof -
  obtain d'' where "cc_store c to_vec no_faults now d key r = (Inr (), d'')"
    "evicted c now (d\<lparr>cd_exists := True, cd_files := AList.update (entry_path key) (to_vec r, now) (cd_files d)\<rparr>) d''"
    using store_no_faults by blast
  with assms show ?thesis
    by (auto simp: evicted_def AList.update_conv dest!: spec [of _ "entry_path key"])
qed

lemma results_genuine_step:
  assumes "crowd_step c to_vec from_slice key out w w'" and "results_genuine to_vec key out w"
    and "\<And>n. from_slice (to_vec (out n)) = Some (out n)" and "0 < cc_ttl c"
  shows "results_genuine to_vec key out w'"
proof -
  have hit: "\<exists>n < cw_runs w. r = out n"
    if "cc_lookup c from_slice no_faults (cw_now w) (cw_dir w) key = Inr (Some r)" for r
  proof -
    from that obtain b ts where "map_of (cd_files (cw_dir w)) (entry_path key) = Some (b, ts)"
      "from_slice b = Some r"
      by (auto simp: lookup_no_faults split: option.splits if_splits)
    with assms(2,3) show ?thesis by (auto simp: results_genuine_def)
  qed
  have ran: "\<exists>n < cw_runs w. r = out n" if "cw_callers w i = Ran r" for i r
    using that assms(2) by (auto simp: results_genuine_def)
  from assms(1) show ?thesis
  proof cases
    case (lock_hit i r)
    with hit assms(2) show ?thesis by (simp add: results_genuine_def cw_finish_def)
  next
    case (debounce_hit i t r)
    with hit assms(2) show ?thesis by (simp add: results_genuine_def cw_finish_def)
  next
    case (run_command i)
    with assms(2) show ?thesis by (auto simp: results_genuine_def less_Suc_eq) blast
  next
    case (run_failed i r)
    with ran assms(2) show ?thesis by (simp add: results_genuine_def cw_finish_def)
  next
    case (run_stored i r d)
    with ran [of i r] assms(2) stored_entry [OF run_stored(4) assms(4)] show ?thesis
      by (auto simp: results_genuine_def cw_finish_def)
  next
    case (crash i)
    with assms(2) show ?thesis by (simp add: results_genuine_def cw_finish_def)
  qed (use assms(2) in \<open>simp_all add: results_genuine_def\<close>)
qed

lemma runs_bounded_step:
  assumes "crowd_step c to_vec from_slice key out w w'" and "runs_bounded c key t0 w"
    and "exclusive (cw_holder w) (cw_callers w)" and "0 < cc_ttl c"
    and "\<And>i r. cw_callers w i = Ran r \<Longrightarrow> cr_exit_code r = 0"
  shows "runs_bounded c key t0 w'"
proof -
  let ?e = "map_of (cd_files (cw_dir w)) (entry_path key)"
  note ok = assms(2) [unfolded runs_bounded_def]
  have quiet: "runs_ok c t0 (cw_now w) (cw_runs w) (cw_crashes w) (cw_callers w i = Missed)
      (is_ran (cw_callers w i)) ?e" if "active (cw_callers w i)" for i
    using ok by (simp only: flags_now [OF assms(3) that])
  have others: "\<not> active (cw_callers w j)" if "active (cw_callers w i)" "j \<noteq> i" for i j
    using others_inactive [OF assms(3)] exclusive_holder [OF assms(3) that(1)] that(2) by blast
  from assms(1) show ?thesis
  proof cases
    case tick
    with ok show ?thesis by (simp add: runs_bounded_def runs_ok_tick)
  next
    case (acquire i)
    have "\<not> active (cw_callers w j)" for j
      using assms(3) acquire by (simp add: exclusive_def)
    then have none: "(\<exists>j. cw_callers w j = Missed) = False" "(\<exists>j. is_ran (cw_callers w j)) = False"
      using is_ran_active by (metis active_simps(4), metis)
    from ok have "runs_ok c t0 (cw_now w) (cw_runs w) (cw_crashes w) False False ?e"
      by (simp only: none)
    with \<open>\<And>j. \<not> active (cw_callers w j)\<close> acquire show ?thesis
      by (simp add: runs_bounded_def flags_update del: fun_upd_apply)
  next
    case (lock_timeout i)
    with ok show ?thesis by (simp only: runs_bounded_def) (simp add: flags_idle del: fun_upd_apply)
  next
    case (lock_hit i r)
    with quiet [of i] others [of i] show ?thesis
      by (simp add: runs_bounded_def cw_finish_def flags_update del: fun_upd_apply)
  next
    case (lock_miss i)
    with quiet [of i] have q: "runs_ok c t0 (cw_now w) (cw_runs w) (cw_crashes w) False False ?e"
      by simp
    have "runs_ok c t0 (cw_now w) (cw_runs w) (cw_crashes w) True False ?e"
      using q miss_leaves_room [OF q assms(4) lock_miss(3)] by (rule runs_ok_missed)
    with q lock_miss others [of i] show ?thesis
      by (simp add: runs_bounded_def flags_update del: fun_upd_apply)
  next
    case (debounce_hit i t r)
    with quiet [of i] others [of i] show ?thesis
      by (simp add: runs_bounded_def cw_finish_def flags_update del: fun_upd_apply)
  next
    case (debounce_miss i t)
    with quiet [of i] have q: "runs_ok c t0 (cw_now w) (cw_runs w) (cw_crashes w) False False ?e"
      by simp
    have "runs_ok c t0 (cw_now w) (cw_runs w) (cw_crashes w) True False ?e"
      using q miss_leaves_room [OF q assms(4) debounce_miss(4)] by (rule runs_ok_missed)
    with debounce_miss others [of i] show ?thesis
      by (simp add: runs_bounded_def flags_update del: fun_upd_apply)
  next
    case (run_command i)
    with quiet [of i] have "runs_ok c t0 (cw_now w) (Suc (cw_runs w)) (cw_crashes w) False True ?e"
      by (simp add: runs_ok_run)
    with run_command others [of i] show ?thesis
      by (simp add: runs_bounded_def flags_update del: fun_upd_apply)
  next
    case (run_failed i r)
    with assms(5) show ?thesis by blast
  next
    case (run_stored i r d)
    with quiet [of i] have "runs_ok c t0 (cw_now w) (cw_runs w) (cw_crashes w) False False (Some (to_vec r, cw_now w))"
      by (auto intro: runs_ok_store)
    with run_stored others [of i] stored_entry [OF run_stored(4) assms(4)] show ?thesis
      by (simp add: runs_bounded_def cw_finish_def flags_update del: fun_upd_apply)
  next
    case (crash i)
    then have act: "active (cw_callers w i)" using assms(3) by (simp add: exclusive_def)
    from quiet [OF act] have "runs_ok c t0 (cw_now w) (cw_runs w) (Suc (cw_crashes w)) False False ?e"
      by (rule runs_ok_crash)
    with crash others [OF act] show ?thesis
      by (simp add: runs_bounded_def cw_finish_def flags_update del: fun_upd_apply)
  qed
qed

text \<open>All invariants together, over every run of the crowd.\<close>

lemma crowd_reachable:
  assumes "(crowd_step c to_vec from_slice key out)\<^sup>*\<^sup>* (crowd_init t0 d) w"
    and "map_of (cd_files d) (entry_path key) = None" and "0 < cc_ttl c"
    and "\<And>n. from_slice (to_vec (out n)) = Some (out n)" and "\<And>n. cr_exit_code (out n) = 0"
  shows "exclusive (cw_holder w) (cw_callers w) \<and> results_genuine to_vec key out w \<and> runs_bounded c key t0 w"
  using assms(1)
proof (induction rule: rtranclp_induct)
  case base
  show ?case
    using assms(2)
    by (simp add: crowd_init_def exclusive_def results_genuine_def runs_bounded_def runs_ok_def)
next
  case (step w w')
  have "cr_exit_code r = 0" if "cw_callers w i = Ran r" for i r
    using step.IH that assms(5) unfolding results_genuine_def by metis
  with step assms(3,4) show ?case
    by (blast intro: exclusive_step results_genuine_step runs_bounded_step)
qed

section \<open>The protocol of one caller: lemmas\<close>

lemma backoff_le: "backoff_at i \<le> from_millis 250"
  by (cases i) (auto simp: time_defs)

lemma acquire_loop_props:
  assumes "acquire_loop answers delays deadline i elapsed = (res, t)"
    and "\<And>i. delays i \<le> D" and "elapsed < deadline + from_millis 250 + D"
  shows "t < deadline + from_millis 250 + D
    \<and> (res = Inl LockTimeout \<longrightarrow> deadline \<le> t)
    \<and> (res = Inr () \<longrightarrow> (\<exists>k \<ge> i. answers k = Locked \<and> (\<forall>j. i \<le> j \<and> j < k \<longrightarrow> answers j = WouldBlock)))"
  using assms
proof (induction answers delays deadline i elapsed rule: acquire_loop.induct [case_names step])
  case (step answers delays deadline i elapsed)
  show ?case
  proof (cases "answers i")
    case Locked
    with step.prems show ?thesis by (subst (asm) acquire_loop.simps) auto
  next
    case LockFails
    with step.prems show ?thesis by (subst (asm) acquire_loop.simps) auto
  next
    case WouldBlock
    show ?thesis
    proof (cases "deadline \<le> elapsed")
      case True
      with WouldBlock step.prems show ?thesis by (subst (asm) acquire_loop.simps) auto
    next
      case False
      have rec: "acquire_loop answers delays deadline (Suc i) (elapsed + backoff_at i + delays i) = (res, t)"
        using step.prems(1) False WouldBlock by (subst (asm) acquire_loop.simps) simp
      have lt: "elapsed + backoff_at i + delays i < deadline + from_millis 250 + D"
        using False backoff_le [of i] step.prems(2) [of i] by linarith
      from step.IH [OF WouldBlock False rec step.prems(2) lt] WouldBlock show ?thesis
        by (metis Suc_leD Suc_le_eq le_neq_implies_less)
    qed
  qed
qed

text \<open>Which of its effects a call has had when it returns.\<close>

lemma run_miss_effect:
  assumes "run_miss c E key f s = (res, s')"
  shows "cs_world s' = snd (f (cs_world s))
    \<and> (\<forall>r k. res = Inr (r, k) \<longrightarrow> k = Miss \<and> fst (f (cs_world s)) = Inr r
         \<and> cs_meters s' = record_coalesce_hit_kind Miss (cs_meters s))"
  using assms
  by (auto simp: run_miss_def cs_wait_def cs_record_def Let_def split: prod.splits sum.splits if_splits)

lemma recheck_effect:
  assumes "recheck c E key f s = (res, s')"
  shows "(cs_world s' = cs_world s \<or> cs_world s' = snd (f (cs_world s)))
    \<and> (\<forall>r k. res = Inr (r, k) \<longrightarrow> cs_meters s' = record_coalesce_hit_kind k (cs_meters s)
         \<and> (if shared_from_cache k then cs_world s' = cs_world s else f (cs_world s) = (Inr r, cs_world s')))"
proof -
  have miss: "(cs_world s' = cs_world s \<or> cs_world s' = snd (f (cs_world s)))
    \<and> (\<forall>r k. res = Inr (r, k) \<longrightarrow> cs_meters s' = record_coalesce_hit_kind k (cs_meters s)
         \<and> (if shared_from_cache k then cs_world s' = cs_world s else f (cs_world s) = (Inr r, cs_world s')))"
    if "run_miss c E key f s1 = (res, s')" "cs_world s1 = cs_world s" "cs_meters s1 = cs_meters s" for s1
    using run_miss_effect [OF that(1)] that(2,3)
    by (cases "f (cs_world s)") (auto simp: shared_from_cache_def)
  have waited: "cs_world (cs_wait E p t s) = cs_world s" "cs_meters (cs_wait E p t s) = cs_meters s" for p t
    by (simp_all add: cs_wait_def)
  show ?thesis
    using assms miss [of s] miss [of "cs_wait E DebounceWait (cc_debounce c) s"]
    by (auto simp: recheck_def waited shared_from_cache_def cs_record_def Let_def
        split: sum.splits option.splits if_splits)
qed

lemma open_lock_effect:
  "open_lock E key s = (res, s') \<Longrightarrow> cs_world s' = cs_world s \<and> cs_meters s' = cs_meters s"
  by (auto simp: open_lock_def Let_def split: if_splits)

lemma with_lock_detailed_effect:
  assumes "with_lock_detailed c E key f s = (res, s')"
  shows "(cs_world s' = cs_world s \<or> cs_world s' = snd (f (cs_world s)))
    \<and> (\<forall>r k. res = Inr (r, k) \<longrightarrow> cs_meters s' = record_coalesce_hit_kind k (cs_meters s)
         \<and> (if shared_from_cache k then cs_world s' = cs_world s else f (cs_world s) = (Inr r, cs_world s')))"
proof -
  obtain x d where d: "ensure_root (ce_fails E) (cs_now s) (cs_dir s) = (x, d)" by fastforce
  obtain y s1 where s1: "open_lock E key (s\<lparr>cs_dir := d\<rparr>) = (y, s1)" by fastforce
  obtain z t where t: "acquire_lock_with_deadline (ce_answers E) (ce_delays E) LOCK_DEADLINE = (z, t)" by fastforce
  have w: "cs_world (cs_wait E LockWait t s1) = cs_world s" "cs_meters (cs_wait E LockWait t s1) = cs_meters s"
    using open_lock_effect [OF s1] by (simp_all add: cs_wait_def)
  show ?thesis
  proof (cases "\<exists>u v q. x = Inr u \<and> y = Inr v \<and> z = Inr q")
    case True
    with assms d s1 t have "recheck c E key f (cs_wait E LockWait t s1) = (res, s')"
      by (auto simp: with_lock_detailed_def)
    from recheck_effect [OF this] show ?thesis unfolding w .
  next
    case False
    with assms d s1 t open_lock_effect [OF s1] show ?thesis
      by (cases x; cases y; cases z) (auto simp: with_lock_detailed_def cs_wait_def)
  qed
qed

lemma lookup_cong:
  "map_of (cd_files d) (entry_path key) = map_of (cd_files d') (entry_path key) \<Longrightarrow>
     cc_lookup c from_slice fails now d key = cc_lookup c from_slice fails now d' key"
  by (simp only: cc_lookup_def is_fresh_def entry_age_def Let_def)

lemma open_lock_entries:
  "open_lock E key s = (res, s') \<Longrightarrow>
     map_of (cd_files (cs_dir s')) (entry_path key') = map_of (cd_files (cs_dir s)) (entry_path key')"
  by (auto simp: open_lock_def Let_def map_add_def split: if_splits option.splits)

lemma recheck_keeps_entries:
  assumes "recheck c E key f s = (Inr (r, k), s')" and "cr_exit_code r \<noteq> 0"
    and "\<And>p d. ce_meanwhile E p d = d"
  shows "cs_dir s' = cs_dir s"
proof -
  have miss: "cs_dir s' = cs_dir s1" if "run_miss c E key f s1 = (Inr (r, k), s')" for s1
    using that assms(2,3)
    by (auto simp: run_miss_def cs_wait_def cs_record_def Let_def split: prod.splits sum.splits if_splits)
  have wait: "cs_dir (cs_wait E p t s) = cs_dir s" for p t
    using assms(3) by (simp add: cs_wait_def)
  show ?thesis
    using assms(1) miss [of s] miss [of "cs_wait E DebounceWait (cc_debounce c) s"]
    by (auto simp: recheck_def wait cs_record_def Let_def split: sum.splits option.splits if_splits)
qed

lemma with_lock_detailed_ok:
  assumes "with_lock_detailed c E key f s = (Inr y, s')"
  obtains s1 t where "recheck c E key f (cs_wait E LockWait t s1) = (Inr y, s')"
    "open_lock E key (s\<lparr>cs_dir := (cs_dir s)\<lparr>cd_exists := True\<rparr>\<rparr>) = (Inr (), s1)"
  using assms
  by (auto simp: with_lock_detailed_def ensure_root_def split: prod.splits sum.splits if_splits)

lemma run_miss_stored:
  assumes "run_miss c E key f s = (Inr (r, k), s')" and "cr_exit_code r = 0"
    and "ce_from_slice E (ce_to_vec E r) = Some r" and "cs_now s' \<le> t" and "t - cs_now s' < cc_ttl c"
  shows "cc_lookup c (ce_from_slice E) no_faults t (cs_dir s') key = Inr (Some r)"
proof -
  obtain w d where run: "cc_store c (ce_to_vec E) (ce_fails E) (cs_now s') d key r = (Inr (), cs_dir s')"
    using assms(1,2)
    by (auto simp: run_miss_def cs_wait_def cs_record_def Let_def split: prod.splits sum.splits if_splits)
  from store_cases [OF run] have "evicted c (cs_now s')
      (d\<lparr>cd_exists := True, cd_files := AList.update (entry_path key) (ce_to_vec E r, cs_now s') (cd_files d)\<rparr>) (cs_dir s')"
    by simp
  from lookup_evicted [OF this assms(4)] show ?thesis
    using lookup_update [of "ce_from_slice E" "ce_to_vec E" r, OF assms(3,4)] assms(5) by simp
qed

text \<open>A successful result of a miss is found until it expires.\<close>

lemma miss_is_cached:
  assumes "with_lock_detailed c E key f s = (Inr (r, Miss), s')" and "cr_exit_code r = 0"
    and "ce_from_slice E (ce_to_vec E r) = Some r" and "cs_now s' \<le> t" and "t - cs_now s' < cc_ttl c"
  shows "cc_lookup c (ce_from_slice E) no_faults t (cs_dir s') key = Inr (Some r)"
proof -
  from assms(1) obtain s1 where re: "recheck c E key f s1 = (Inr (r, Miss), s')"
    by (rule with_lock_detailed_ok)
  then obtain s2 where "run_miss c E key f s2 = (Inr (r, Miss), s')"
    by (auto simp: recheck_def Let_def split: sum.splits option.splits if_splits)
  from run_miss_stored [OF this assms(2-)] show ?thesis .
qed

section \<open>Properties\<close>



text \<open>
  C2: a store is atomic. Whatever faults interrupt it and wherever, a later lookup without faults
  gives, for the key stored, the new result while it is young or what it gave before; and for
  every other key what it gave before. A store that reports success has stored.
\<close>

theorem store_is_atomic:
  assumes "cc_store c to_vec fails now d key r = (res, d')" and "now \<le> t"
    and "from_slice (to_vec r) = Some r"
  shows "(cc_lookup c from_slice no_faults t d' key = Inr (if t - now < cc_ttl c then Some r else None)
      \<or> res \<noteq> Inr () \<and> cc_lookup c from_slice no_faults t d' key = cc_lookup c from_slice no_faults t d key)
    \<and> (\<forall>key'. key' \<noteq> key \<longrightarrow>
        cc_lookup c from_slice no_faults t d' key' = cc_lookup c from_slice no_faults t d key')"
  using store_cases [OF assms(1)]
proof
  assume "cd_files d' = cd_files d \<and> res \<noteq> Inr ()"
  then show ?thesis by (simp add: lookup_no_faults)
next
  assume ev: "evicted c now (d\<lparr>cd_exists := True, cd_files := AList.update (entry_path key) (to_vec r, now) (cd_files d)\<rparr>) d'"
  show ?thesis
    using assms(2,3)
    by (simp add: lookup_evicted [OF ev assms(2)] lookup_update lookup_update_other)
qed

theorem store_is_atomic_witness:
  "cc_lookup (cc_new ''/c'') (\<lambda>b. Some \<lparr>cr_exit_code = 0, cr_stdout = b, cr_stderr = []\<rparr>) no_faults 9
     (snd (cc_store (cc_new ''/c'') cr_stdout (\<lambda>_ x. x = ReadDir) 5 \<lparr>cd_exists = False, cd_files = []\<rparr> ''k''
        \<lparr>cr_exit_code = 0, cr_stdout = [7], cr_stderr = []\<rparr>)) ''other''
   = Inr None"
proof -
  let ?r = "\<lparr>cr_exit_code = 0, cr_stdout = [7], cr_stderr = []\<rparr>"
  let ?store = "cc_store (cc_new ''/c'') cr_stdout (\<lambda>_ x. x = ReadDir) 5 \<lparr>cd_exists = False, cd_files = []\<rparr> ''k'' ?r"
  have "?store = (fst ?store, snd ?store)" by simp
  from store_is_atomic [OF this, of 9 "\<lambda>b. Some \<lparr>cr_exit_code = 0, cr_stdout = b, cr_stderr = []\<rparr>"]
  show ?thesis by (simp add: lookup_no_faults)
qed

text \<open>
  The cache refines a plain history of stores. After any sequence of stores a lookup returns
  the result stored last under its key, if that is younger than the TTL, and nothing otherwise.
\<close>

theorem lookup_after_history:
  assumes "\<forall>(t, k, r) \<in> set hs. t \<le> now \<and> from_slice (to_vec r) = Some r"
  shows "(case cc_lookup c from_slice no_faults now
        (foldl (\<lambda>d (t, k, r). snd (cc_store c to_vec no_faults t d k r)) \<lparr>cd_exists = x, cd_files = []\<rparr> hs) key of
         Inr r \<Rightarrow> r | Inl _ \<Rightarrow> None)
      = (case latest hs key of None \<Rightarrow> None | Some (t, r) \<Rightarrow> if now - t < cc_ttl c then Some r else None)"
proof -
  have "cc_lookup c from_slice no_faults now \<lparr>cd_exists = x, cd_files = []\<rparr> key = Inr None"
    by (simp add: lookup_no_faults)
  then show ?thesis
    using coalesce.lookup_replay [OF TrueI assms, of c "\<lparr>cd_exists = x, cd_files = []\<rparr>" key]
    by (auto simp: coalesce.replay_def split: option.splits)
qed

theorem lookup_after_history_witness:
  "(case cc_lookup (cc_new ''/c'') (\<lambda>b. Some \<lparr>cr_exit_code = 0, cr_stdout = b, cr_stderr = []\<rparr>) no_faults 9
      (foldl (\<lambda>d (t, k, r). snd (cc_store (cc_new ''/c'') cr_stdout no_faults t d k r))
         \<lparr>cd_exists = False, cd_files = []\<rparr>
         [(1, ''a'', \<lparr>cr_exit_code = 0, cr_stdout = [7], cr_stderr = []\<rparr>),
          (2, ''b'', \<lparr>cr_exit_code = 0, cr_stdout = [8], cr_stderr = []\<rparr>)]) ''a'' of
      Inr r \<Rightarrow> r | Inl _ \<Rightarrow> None)
   = Some \<lparr>cr_exit_code = 0, cr_stdout = [7], cr_stderr = []\<rparr>"
  by (subst lookup_after_history)
    (simp_all add: cc_new_def cc_with_options_def DEFAULT_TTL_def time_defs)

text \<open>
  Without faults a store also sweeps: what is left in the directory is the new entry, the
  files that are no entries, and the entries younger than the TTL, all unchanged.
\<close>

theorem store_sweeps_expired:
  assumes "0 < cc_ttl c" and "n \<noteq> entry_path key"
  shows "map_of (cd_files (snd (cc_store c to_vec no_faults now d key r))) n =
     (case map_of (cd_files d) n of
        None \<Rightarrow> None
      | Some (b, m) \<Rightarrow>
          if name_extension n = Some ''json'' \<and> cc_ttl c \<le> now - m then None else Some (b, m))
   \<and> map_of (cd_files (snd (cc_store c to_vec no_faults now d key r))) (entry_path key) = Some (to_vec r, now)
   \<and> fst (cc_store c to_vec no_faults now d key r) = Inr ()"
proof -
  let ?d = "d\<lparr>cd_exists := True, cd_files := AList.update (entry_path key) (to_vec r, now) (cd_files d)\<rparr>"
  have "cc_store c to_vec no_faults now d key r = evict_stale c no_faults now ?d"
    by (simp add: cc_store_def ensure_root_def no_faults_def)
  then show ?thesis
    using evict_stale_exact [of ?d c now] assms by (auto simp: AList.update_conv)
qed

theorem store_sweeps_expired_witness:
  "map_of (cd_files (snd (cc_store (cc_with_ttl ''/c'' 10) cr_stdout no_faults 20
      \<lparr>cd_exists = True, cd_files = [(''old.json'', [], 5), (''k.lock'', [], 5)]\<rparr> ''k''
      \<lparr>cr_exit_code = 0, cr_stdout = [], cr_stderr = []\<rparr>))) ''old.json'' = None"
proof -
  have "''old.json'' \<noteq> entry_path ''k''" by (simp add: entry_path_def)
  moreover have "name_extension ''old.json'' = Some ''json''"
    by (simp add: name_extension_def)
  ultimately show ?thesis
    using store_sweeps_expired [of "cc_with_ttl ''/c'' 10" "''old.json''" "''k''" cr_stdout 20
        "\<lparr>cd_exists = True, cd_files = [(''old.json'', [], 5), (''k.lock'', [], 5)]\<rparr>"
        "\<lparr>cr_exit_code = 0, cr_stdout = [], cr_stderr = []\<rparr>"]
    by (simp add: cc_with_ttl_def cc_with_options_def)
qed



text \<open>
  One call runs the command at most once, whatever faults and other processes it meets. A
  result reported as shared was not run; a result reported as a miss is what the command
  returned; after an error the command has run once or not at all; and the meters count the hit
  or the miss that is reported.
\<close>

theorem with_lock_runs_at_most_once:
  assumes "with_lock_detailed c E key f s = (res, s')"
  shows "(cs_world s' = cs_world s \<or> cs_world s' = snd (f (cs_world s)))
    \<and> (\<forall>r k. res = Inr (r, k) \<longrightarrow> cs_meters s' = record_coalesce_hit_kind k (cs_meters s)
         \<and> (if shared_from_cache k then cs_world s' = cs_world s else f (cs_world s) = (Inr r, cs_world s')))"
  using assms by (rule with_lock_detailed_effect)

theorem with_lock_runs_at_most_once_witness:
  "let E = \<lparr>ce_to_vec = cr_stdout, ce_from_slice = (\<lambda>b. None), ce_fails = no_faults, ce_answers = (\<lambda>_. LockFails),
            ce_delays = (\<lambda>_. 0), ce_meanwhile = (\<lambda>_ d. d), ce_run_time = 1\<rparr>;
       s = \<lparr>cs_now = 0, cs_dir = \<lparr>cd_exists = False, cd_files = []\<rparr>, cs_meters = coalesce_meters_zero, cs_world = (0::nat)\<rparr>;
       f = (\<lambda>w. (Inr \<lparr>cr_exit_code = 0, cr_stdout = [], cr_stderr = []\<rparr>, Suc w))
   in cs_world (snd (with_lock_detailed (cc_new ''/c'') E ''k'' f s)) \<in> {0, 1}"
  unfolding Let_def
  using with_lock_runs_at_most_once [OF prod.collapse [symmetric], of "cc_new ''/c''"
      "\<lparr>ce_to_vec = cr_stdout, ce_from_slice = (\<lambda>b. None), ce_fails = no_faults, ce_answers = (\<lambda>_. LockFails),
        ce_delays = (\<lambda>_. 0), ce_meanwhile = (\<lambda>_ d. d), ce_run_time = 1\<rparr>" "''k''"
      "\<lambda>w. (Inr \<lparr>cr_exit_code = 0, cr_stdout = [], cr_stderr = []\<rparr>, Suc w)"
      "\<lparr>cs_now = 0, cs_dir = \<lparr>cd_exists = False, cd_files = []\<rparr>, cs_meters = coalesce_meters_zero, cs_world = 0\<rparr>"]
  by auto

text \<open>
  A failed result is returned and not cached. After a call that returns a result with a
  nonzero exit code, with no other process at work, every lookup at every time gives what it gave
  before the call.
\<close>

theorem failures_not_cached:
  assumes "with_lock_detailed c E key f s = (Inr (r, k), s')" and "cr_exit_code r \<noteq> 0"
    and "\<And>p d. ce_meanwhile E p d = d"
  shows "cc_lookup c from_slice fails t (cs_dir s') key' = cc_lookup c from_slice fails t (cs_dir s) key'"
proof -
  from assms(1) obtain s1 t1 where
    re: "recheck c E key f (cs_wait E LockWait t1 s1) = (Inr (r, k), s')"
    and op: "open_lock E key (s\<lparr>cs_dir := (cs_dir s)\<lparr>cd_exists := True\<rparr>\<rparr>) = (Inr (), s1)"
    by (rule with_lock_detailed_ok)
  have "cs_dir s' = cs_dir s1"
    using recheck_keeps_entries [OF re assms(2,3)] assms(3) by (simp add: cs_wait_def)
  with open_lock_entries [OF op, of key'] show ?thesis
    by (intro lookup_cong) simp
qed

theorem failures_not_cached_witness:
  "let E = \<lparr>ce_to_vec = cr_stdout, ce_from_slice = (\<lambda>b. None), ce_fails = no_faults, ce_answers = (\<lambda>_. Locked),
            ce_delays = (\<lambda>_. 0), ce_meanwhile = (\<lambda>_ d. d), ce_run_time = 1\<rparr>;
       s = \<lparr>cs_now = 0, cs_dir = \<lparr>cd_exists = False, cd_files = []\<rparr>, cs_meters = coalesce_meters_zero, cs_world = ()\<rparr>;
       f = (\<lambda>w. (Inr \<lparr>cr_exit_code = 1, cr_stdout = [], cr_stderr = []\<rparr>, w));
       s' = snd (with_lock_detailed (cc_new ''/c'') E ''k'' f s)
   in fst (with_lock_detailed (cc_new ''/c'') E ''k'' f s) = Inr (\<lparr>cr_exit_code = 1, cr_stdout = [], cr_stderr = []\<rparr>, Miss)
      \<and> cc_lookup (cc_new ''/c'') (\<lambda>b. None) no_faults 3 (cs_dir s') ''k''
          = cc_lookup (cc_new ''/c'') (\<lambda>b. None) no_faults 3 (cs_dir s) ''k''"
proof -
  let ?E = "\<lparr>ce_to_vec = cr_stdout, ce_from_slice = (\<lambda>b. None), ce_fails = no_faults, ce_answers = (\<lambda>_. Locked),
            ce_delays = (\<lambda>_. 0), ce_meanwhile = (\<lambda>_ d. d), ce_run_time = 1\<rparr>"
  let ?s = "\<lparr>cs_now = 0, cs_dir = \<lparr>cd_exists = False, cd_files = []\<rparr>, cs_meters = coalesce_meters_zero, cs_world = ()\<rparr>"
  let ?r = "\<lparr>cr_exit_code = 1, cr_stdout = [], cr_stderr = []\<rparr>"
  let ?c = "cc_new ''/c''"
  let ?f = "\<lambda>w. (Inr ?r, w)"
  have lock: "acquire_lock_with_deadline (\<lambda>_. Locked) (\<lambda>_. 0) LOCK_DEADLINE = (Inr (), 0)"
    by (simp add: acquire_lock_with_deadline_def acquire_loop.simps)
  have res: "fst (with_lock_detailed ?c ?E ''k'' ?f ?s) = Inr (?r, Miss)"
    by (simp add: with_lock_detailed_def ensure_root_def open_lock_def lock recheck_def cs_lookup_def
        lookup_no_faults cs_wait_def run_miss_def Let_def cc_new_def cc_with_options_def lock_path_def
        entry_path_def) (simp add: no_faults_def)
  then have "with_lock_detailed ?c ?E ''k'' ?f ?s = (Inr (?r, Miss), snd (with_lock_detailed ?c ?E ''k'' ?f ?s))"
    by (metis prod.collapse)
  from failures_not_cached [OF this, of "\<lambda>b. None" no_faults 3 "''k''"] res show ?thesis
    by (simp add: Let_def)
qed

end
