(* ===== verification/SlotQueue.thy ===== *)
theory SlotQueue
  imports Meters
begin

text \<open>
  The N-slot priority queue of mutating commands (\<open>crates/sharecli-ipc/src/queue.rs\<close>): priorities,
  waiter tickets, the choice of the next waiter, and the acquisition loop of \<open>with_slot\<close> with its
  time-out and its ticket guard. The waiting directory is the list of the names that \<open>read_dir\<close>
  returns; the clock readings, the answers of the slot locks, the actions of other waiters and the
  faults of the file system are arguments.
\<close>

section \<open>Priorities\<close>

datatype queue_priority = Critical | High | Normal | Low | Background

definition queue_priority_parse :: "string \<Rightarrow> queue_priority" where
  "queue_priority_parse name =
     (let s = to_ascii_lowercase (str_trim name)
      in if s = ''critical'' then Critical
         else if s = ''high'' then High
         else if s = ''low'' then Low
         else if s = ''background'' then Background
         else Normal)"

primrec as_u8 :: "queue_priority \<Rightarrow> u8" where
  "as_u8 Critical = 0"
| "as_u8 High = 1"
| "as_u8 Normal = 2"
| "as_u8 Low = 3"
| "as_u8 Background = 4"

text \<open>The value of the environment variable is an argument.\<close>

definition resolve_operator_queue_priority :: "string option \<Rightarrow> string option \<Rightarrow> queue_priority" where
  "resolve_operator_queue_priority env_var rule_priority =
     (case env_var of
        Some raw \<Rightarrow>
          if str_trim raw \<noteq> [] then queue_priority_parse raw
          else (case rule_priority of None \<Rightarrow> Normal | Some r \<Rightarrow> queue_priority_parse r)
      | None \<Rightarrow> (case rule_priority of None \<Rightarrow> Normal | Some r \<Rightarrow> queue_priority_parse r))"

section \<open>The queue and its tickets\<close>

record slot_queue =
  sq_root :: string
  sq_max_concurrent :: nat
  sq_timeout :: duration
  sq_poll :: duration

definition DEFAULT_TIMEOUT :: duration where
  "DEFAULT_TIMEOUT = from_secs 30"

definition DEFAULT_POLL :: duration where
  "DEFAULT_POLL = from_millis 100"

definition sq_with_options :: "string \<Rightarrow> nat \<Rightarrow> duration \<Rightarrow> duration \<Rightarrow> slot_queue" where
  "sq_with_options root max_concurrent timeout poll =
     \<lparr>sq_root = root, sq_max_concurrent = max max_concurrent 1, sq_timeout = timeout, sq_poll = poll\<rparr>"

definition sq_new :: "string \<Rightarrow> nat \<Rightarrow> slot_queue" where
  "sq_new root max_concurrent = sq_with_options root (max max_concurrent 1) DEFAULT_TIMEOUT DEFAULT_POLL"

definition ticket_name :: "queue_priority \<Rightarrow> nat \<Rightarrow> nat \<Rightarrow> nat \<Rightarrow> string" where
  "ticket_name priority now_secs pid sequence =
     show_nat02 (unat (as_u8 priority)) @ ''.'' @ show_nat now_secs @ ''.'' @ show_nat pid
     @ ''.'' @ show_nat sequence"

definition tmp_name :: "string \<Rightarrow> string" where
  "tmp_name ticket = ''.'' @ ticket @ ''.tmp''"

definition ticket_priority :: "string \<Rightarrow> u8" where
  "ticket_priority ticket =
     (case parse_uint 256 (hd (split_on CHR ''.'' ticket)) of
        Some n \<Rightarrow> of_nat n
      | None \<Rightarrow> as_u8 Normal)"

definition AGING_STEP_MS :: nat where
  "AGING_STEP_MS = 1000"

text \<open>The number of steps is cast to \<open>u8\<close>: it keeps its low eight bits.\<close>

definition effective_rank :: "queue_priority \<Rightarrow> duration \<Rightarrow> u8" where
  "effective_rank base_priority waited =
     (let decay_steps = (of_nat (as_millis waited div AGING_STEP_MS) :: u8)
      in min (sat_add (as_u8 base_priority) decay_steps) (- 1))"

section \<open>Whose turn it is\<close>

datatype queue_error =
    CreateQueueRoot
  | CreateWaitingDir
  | WriteTicket
  | PublishTicket
  | ReadWaitingDir
  | ReadWaitingEntry
  | OpenSlotLock
  | QueueTimeout
  | WorkFailed string

datatype waiting_entry = EntryErr | FileTypeErr | Dirent string bool

datatype waiting_dir = NoDir | DirErr | Entries "waiting_entry list"

definition peer_waited_ms :: "nat \<Rightarrow> string \<Rightarrow> nat" where
  "peer_waited_ms now_secs ticket =
     (let ps = split_on CHR ''.'' ticket;
          ticket_secs = (if length ps < 2 then now_secs
                         else case parse_uint (2 ^ 64) (ps ! 1) of None \<Rightarrow> now_secs | Some n \<Rightarrow> n)
      in if ticket_secs \<le> now_secs
         then (let ms = (now_secs - ticket_secs) * 1000 in if 2 ^ 64 - 1 < ms then 2 ^ 64 - 1 else ms)
         else 0)"

definition rank_priority :: "u8 \<Rightarrow> queue_priority" where
  "rank_priority base_rank =
     (if base_rank = 0 then Critical else if base_rank = 1 then High else if base_rank = 2 then Normal
      else if base_rank = 3 then Low else Background)"

definition peer_effective :: "nat \<Rightarrow> string \<Rightarrow> u8" where
  "peer_effective now_secs ticket =
     effective_rank (rank_priority (ticket_priority ticket)) (from_millis (peer_waited_ms now_secs ticket))"

fun scan_waiters ::
  "nat \<Rightarrow> waiting_entry list \<Rightarrow> u8 \<Rightarrow> string list \<Rightarrow> queue_error + u8 \<times> string list" where
  "scan_waiters now_secs [] best tickets = Inr (best, tickets)"
| "scan_waiters now_secs (e # es) best tickets =
     (case e of
        EntryErr \<Rightarrow> Inl ReadWaitingEntry
      | FileTypeErr \<Rightarrow> Inl ReadWaitingEntry
      | Dirent ticket is_file \<Rightarrow>
          if \<not> is_file then scan_waiters now_secs es best tickets
          else if starts_with ticket ''.'' then scan_waiters now_secs es best tickets
          else (let eff = peer_effective now_secs ticket
                in if eff < best then scan_waiters now_secs es eff [ticket]
                   else if eff = best then scan_waiters now_secs es best (tickets @ [ticket])
                   else scan_waiters now_secs es best tickets))"

text \<open>The smallest string of a list, as \<open>iter().min()\<close>.\<close>

fun min_ticket :: "string list \<Rightarrow> string option" where
  "min_ticket [] = None"
| "min_ticket (t # ts) = Some (foldl min t ts)"

definition is_my_turn ::
  "waiting_dir \<Rightarrow> nat \<Rightarrow> queue_priority \<Rightarrow> string \<Rightarrow> duration \<Rightarrow> queue_error + bool" where
  "is_my_turn dir now_secs my_priority my_ticket my_waited =
     (case dir of
        NoDir \<Rightarrow> Inr True
      | DirErr \<Rightarrow> Inl ReadWaitingDir
      | Entries es \<Rightarrow>
          (let my_effective = effective_rank my_priority my_waited
           in case scan_waiters now_secs es (- 1) [] of
                Inl e \<Rightarrow> Inl e
              | Inr (best, tickets) \<Rightarrow>
                  if best = - 1 then Inr True
                  else if best < my_effective then Inr False
                  else if my_effective < best then Inr True
                  else (let winner = (case min_ticket tickets of None \<Rightarrow> my_ticket | Some t \<Rightarrow> t)
                        in Inr (winner = my_ticket))))"

section \<open>Acquiring a slot\<close>

datatype slot_answer = SlotFree | SlotBusy | SlotOpenErr

text \<open>
  What a call of \<open>with_slot\<close> meets: the wall clock at its start, its process id and sequence
  number, the faults at its start, and for each observation in order: what the other processes
  have done to the waiting directory before it, whether reading it fails, and the answer of each
  slot lock. The \<open>i\<close>-th pause takes the poll interval and more than \<open>qe_delay i\<close> on top.
\<close>

record queue_env =
  qe_start :: duration
  qe_pid :: nat
  qe_seq :: nat
  qe_root_fails :: bool
  qe_waiting_fails :: bool
  qe_create_fails :: bool
  qe_write_fails :: bool
  qe_publish_fails :: bool
  qe_remove_fails :: bool
  qe_others :: "nat \<Rightarrow> string list \<Rightarrow> string list"
  qe_read_fails :: "nat \<Rightarrow> bool"
  qe_slots :: "nat \<Rightarrow> nat \<Rightarrow> slot_answer"
  qe_delay :: "nat \<Rightarrow> duration"

text \<open>The state: how many observations were made, the time passed, the names in the waiting directory.\<close>

record slot_state =
  ss_obs :: nat
  ss_elapsed :: duration
  ss_waiting :: "string list"
  ss_meters :: slot_queue_meters

definition remove_ticket :: "queue_env \<Rightarrow> string \<Rightarrow> slot_state \<Rightarrow> slot_state" where
  "remove_ticket E ticket s =
     (if qe_remove_fails E then s else s\<lparr>ss_waiting := filter (\<lambda>n. n \<noteq> ticket) (ss_waiting s)\<rparr>)"

definition enqueue_waiter ::
  "queue_env \<Rightarrow> queue_priority \<Rightarrow> slot_state \<Rightarrow> (queue_error + string) \<times> slot_state" where
  "enqueue_waiter E priority s =
     (if qe_waiting_fails E then (Inl CreateWaitingDir, s)
      else let ticket = ticket_name priority (as_secs (qe_start E)) (qe_pid E) (qe_seq E)
           in if qe_create_fails E then (Inl WriteTicket, s)
              else if qe_write_fails E
              then (Inl WriteTicket, s\<lparr>ss_waiting := ss_waiting s @ [tmp_name ticket]\<rparr>)
              else if qe_publish_fails E
              then (Inl PublishTicket, s\<lparr>ss_waiting := ss_waiting s @ [tmp_name ticket]\<rparr>)
              else (Inr ticket, s\<lparr>ss_waiting := ss_waiting s @ [ticket]\<rparr>))"

text \<open>One evaluation of \<open>is_my_turn\<close>, on the directory as the others have left it.\<close>

definition observe_turn ::
  "queue_env \<Rightarrow> queue_priority \<Rightarrow> string \<Rightarrow> slot_state \<Rightarrow> (queue_error + bool) \<times> slot_state" where
  "observe_turn E priority ticket s =
     (let s' = s\<lparr>ss_obs := Suc (ss_obs s), ss_waiting := qe_others E (ss_obs s) (ss_waiting s)\<rparr>;
          dir = (if qe_read_fails E (ss_obs s) then DirErr
                 else Entries (map (\<lambda>n. Dirent n True) (ss_waiting s')))
      in (is_my_turn dir (as_secs (qe_start E + ss_elapsed s)) priority ticket (ss_elapsed s), s'))"

definition pause :: "slot_queue \<Rightarrow> queue_env \<Rightarrow> slot_state \<Rightarrow> slot_state" where
  "pause q E s = s\<lparr>ss_meters := record_slot_wait (ss_meters s),
                   ss_elapsed := ss_elapsed s + sq_poll q + Suc (qe_delay E (ss_obs s))\<rparr>"

datatype slot_outcome = Got nat | NoSlot | SlotErr queue_error

text \<open>The pass over the slots; a slot lock taken out of turn is dropped after a pause.\<close>

fun slot_loop ::
  "slot_queue \<Rightarrow> queue_env \<Rightarrow> queue_priority \<Rightarrow> string \<Rightarrow> nat list \<Rightarrow> slot_state \<Rightarrow> slot_outcome \<times> slot_state" where
  "slot_loop q E priority ticket [] s = (NoSlot, s)"
| "slot_loop q E priority ticket (slot # slots) s =
     (case qe_slots E (ss_obs s) slot of
        SlotOpenErr \<Rightarrow> (SlotErr OpenSlotLock, s)
      | SlotBusy \<Rightarrow> slot_loop q E priority ticket slots s
      | SlotFree \<Rightarrow>
          (case observe_turn E priority ticket s of
             (Inl e, s') \<Rightarrow> (SlotErr e, s')
           | (Inr False, s') \<Rightarrow> slot_loop q E priority ticket slots (pause q E s')
           | (Inr True, s') \<Rightarrow> (Got slot, s')))"

lemma observe_turn_elapsed: "ss_elapsed (snd (observe_turn E p t s)) = ss_elapsed s"
  by (simp add: observe_turn_def Let_def)

lemma slot_loop_elapsed: "ss_elapsed s \<le> ss_elapsed (snd (slot_loop q E p t slots s))"
proof (induction slots arbitrary: s)
  case Nil
  then show ?case by simp
next
  case (Cons x xs)
  obtain r s' where o: "observe_turn E p t s = (r, s')" by fastforce
  then have "ss_elapsed s' = ss_elapsed s" using observe_turn_elapsed [of E p t s] by simp
  then have "ss_elapsed s \<le> ss_elapsed (pause q E s')" by (simp add: pause_def)
  also have "\<dots> \<le> ss_elapsed (snd (slot_loop q E p t xs (pause q E s')))" by (rule Cons.IH)
  finally show ?case
    using o Cons.IH [of s] \<open>ss_elapsed s' = ss_elapsed s\<close>
    by (auto split: slot_answer.splits sum.splits bool.splits)
qed

text \<open>The wait loop: the slot taken, or the error, with the state after it.\<close>

function wait_loop ::
  "slot_queue \<Rightarrow> queue_env \<Rightarrow> queue_priority \<Rightarrow> string \<Rightarrow> slot_state \<Rightarrow> (queue_error + nat) \<times> slot_state" where
  "wait_loop q E priority ticket s =
     (if sq_timeout q \<le> ss_elapsed s
      then (Inl QueueTimeout, s\<lparr>ss_meters := record_slot_timeout (ss_meters s)\<rparr>)
      else case observe_turn E priority ticket s of
        (Inl e, s') \<Rightarrow> (Inl e, s')
      | (Inr False, s') \<Rightarrow> wait_loop q E priority ticket (pause q E s')
      | (Inr True, s') \<Rightarrow>
          (case slot_loop q E priority ticket [0..<sq_max_concurrent q] s' of
             (SlotErr e, s'') \<Rightarrow> (Inl e, s'')
           | (Got slot, s'') \<Rightarrow> (Inr slot, s'')
           | (NoSlot, s'') \<Rightarrow> wait_loop q E priority ticket (pause q E s'')))"
  by pat_completeness auto

lemma pause_progress: "ss_elapsed s < ss_elapsed (pause q E s)"
  by (simp add: pause_def)

lemma observe_turn_time: "(r, s') = observe_turn E p t s \<Longrightarrow> ss_elapsed s' = ss_elapsed s"
  using observe_turn_elapsed [of E p t s] by (metis snd_conv)

lemma slot_loop_time: "(r, s') = slot_loop q E p t slots s \<Longrightarrow> ss_elapsed s \<le> ss_elapsed s'"
  using slot_loop_elapsed [of s q E p t slots] by (metis snd_conv)

lemma wait_measure: "\<not> T \<le> a \<Longrightarrow> a < b \<Longrightarrow> T - b < T - (a :: nat)"
  by simp

termination wait_loop
  by (relation "measure (\<lambda>(q, E, p, t, s). sq_timeout q - ss_elapsed s)")
    (auto dest!: observe_turn_time slot_loop_time
      intro!: wait_measure intro: le_less_trans [OF _ pause_progress])

declare wait_loop.simps [simp del]

text \<open>
  The guard removes the ticket unless it was released; the ticket is removed and the guard
  released before the work runs.
\<close>

definition with_slot ::
  "slot_queue \<Rightarrow> queue_env \<Rightarrow> queue_priority \<Rightarrow> ('w \<Rightarrow> (string + 'a) \<times> 'w) \<Rightarrow> slot_state \<Rightarrow> 'w
     \<Rightarrow> (queue_error + 'a) \<times> slot_state \<times> 'w" where
  "with_slot q E priority f s w =
     (if qe_root_fails E then (Inl CreateQueueRoot, s, w)
      else case enqueue_waiter E priority s of
        (Inl e, s) \<Rightarrow> (Inl e, s, w)
      | (Inr ticket, s) \<Rightarrow>
          (case wait_loop q E priority ticket s of
             (Inl e, s) \<Rightarrow> (Inl e, remove_ticket E ticket s, w)
           | (Inr slot, s) \<Rightarrow>
               (let s = remove_ticket E ticket s;
                    s = s\<lparr>ss_meters := record_slot_acquire (ss_meters s)\<rparr>
                in case f w of
                     (Inl e, w) \<Rightarrow> (Inl (WorkFailed e), s, w)
                   | (Inr value, w) \<Rightarrow> (Inr value, s, w))))"

section \<open>Many processes on one lane\<close>

text \<open>
  Who holds which slot lock, and who is running its work. A process takes a free slot below
  \<open>max_concurrent\<close> and runs; the lock goes with the process when it returns, fails or dies.
\<close>

record lane =
  ln_slots :: "nat \<Rightarrow> nat option"
  ln_running :: "nat set"

inductive lane_step :: "slot_queue \<Rightarrow> lane \<Rightarrow> lane \<Rightarrow> bool" for q where
  take_slot: "slot < sq_max_concurrent q \<Longrightarrow> ln_slots l slot = None \<Longrightarrow> i \<notin> ln_running l \<Longrightarrow>
    lane_step q l (l\<lparr>ln_slots := (ln_slots l)(slot := Some i), ln_running := insert i (ln_running l)\<rparr>)"
| release_slot: "ln_slots l slot = Some i \<Longrightarrow>
    lane_step q l (l\<lparr>ln_slots := (ln_slots l)(slot := None), ln_running := ln_running l - {i}\<rparr>)"

definition lane_init :: lane where
  "lane_init = \<lparr>ln_slots = (\<lambda>_. None), ln_running = {}\<rparr>"

definition lane_inv :: "slot_queue \<Rightarrow> lane \<Rightarrow> bool" where
  "lane_inv q l \<longleftrightarrow>
     (\<forall>slot i. ln_slots l slot = Some i \<longrightarrow> slot < sq_max_concurrent q)
     \<and> ln_running l = {i. \<exists>slot. ln_slots l slot = Some i}
     \<and> (\<forall>a b i. ln_slots l a = Some i \<longrightarrow> ln_slots l b = Some i \<longrightarrow> a = b)"

text \<open>The tickets that count: names with a leading dot are skipped.\<close>

definition visible :: "string list \<Rightarrow> string list" where
  "visible ns = filter (\<lambda>n. \<not> starts_with n ''.'') ns"

abbreviation listing :: "string list \<Rightarrow> waiting_dir" where
  "listing ns \<equiv> Entries (map (\<lambda>n. Dirent n True) ns)"

section \<open>Tickets: lemmas\<close>

lemma ticket_pieces:
  "split_on CHR ''.'' (ticket_name p n pid sq) =
     [show_nat02 (unat (as_u8 p)), show_nat n, show_nat pid, show_nat sq]"
  by (simp add: ticket_name_def split_on_append split_on_notin)

lemma as_u8_small: "unat (as_u8 p) < 256" "unat (as_u8 p) \<le> 4"
  by (cases p; simp)+

lemma ticket_priority_ticket: "ticket_priority (ticket_name p n pid sq) = as_u8 p"
  by (simp add: ticket_priority_def ticket_pieces as_u8_small)

lemma rank_priority_as_u8: "rank_priority (as_u8 p) = p"
  by (cases p) (simp_all add: rank_priority_def)

lemma peer_waited_ticket:
  assumes "n < 2 ^ 64" and "now - n < 2 ^ 54"
  shows "peer_waited_ms now (ticket_name p n pid sq) = (now - n) * 1000"
  using assms by (auto simp: peer_waited_ms_def ticket_pieces Let_def)

lemma unat_of_nat_u8: "unat (of_nat n :: u8) = n mod 256"
  by (simp add: unat_of_nat)

lemma effective_rank_nat:
  "unat (effective_rank p w) = min 255 (unat (as_u8 p) + as_secs w mod 256)"
proof -
  have "as_millis w div 1000 = as_secs w"
    by (simp add: time_defs div_mult2_eq [symmetric])
  moreover have "min x (- 1) = x" for x :: u8
    by (simp add: min_def)
  ultimately show ?thesis
    by (simp add: effective_rank_def AGING_STEP_MS_def unat_sat_add unat_of_nat_u8 min.commute)
qed

lemma visible_ticket: "visible (ticket_name p n pid sq # ns) = ticket_name p n pid sq # visible ns"
proof -
  obtain c r where c: "show_nat02 (unat (as_u8 p)) = c # r"
    by (cases "show_nat02 (unat (as_u8 p))") (auto simp: show_nat02_def split: if_splits)
  have "c \<noteq> CHR ''.''"
    using dot_notin_show_nat02 [of "unat (as_u8 p)"] c by (metis list.set_intros(1))
  with c show ?thesis by (simp add: visible_def ticket_name_def starts_with_def)
qed

lemma tmp_not_visible: "visible (ns @ [tmp_name t]) = visible ns"
  by (simp add: visible_def tmp_name_def starts_with_def)

section \<open>The turn: lemmas\<close>

lemma foldl_min_start: "foldl min y ys \<le> y" for y :: "'a::linorder"
proof (induction ys arbitrary: y)
  case (Cons z zs)
  have "foldl min (min y z) zs \<le> min y z" by (rule Cons.IH)
  then show ?case by simp
qed simp

lemma foldl_min_le: "x \<in> set (y # ys) \<Longrightarrow> foldl min y ys \<le> x" for x :: "'a::linorder"
proof (induction ys arbitrary: y)
  case (Cons z zs)
  show ?case
  proof (cases "x \<in> set zs")
    case True
    with Cons.IH [of "min y z"] show ?thesis by simp
  next
    case False
    with Cons.prems have "min y z \<le> x" by auto
    with foldl_min_start [of "min y z" zs] have "foldl min (min y z) zs \<le> x"
      by (rule order_trans)
    then show ?thesis by simp
  qed
qed simp

lemma scan_waiters_listing:
  "scan_waiters now (map (\<lambda>n. Dirent n True) ns) best ts =
     (let b = foldl min best (map (peer_effective now) (visible ns))
      in Inr (b, (if b = best then ts else []) @ filter (\<lambda>n. peer_effective now n = b) (visible ns)))"
proof (induction ns arbitrary: best ts)
  case Nil
  then show ?case by (simp add: visible_def)
next
  case (Cons n ns)
  let ?e = "peer_effective now"
  show ?case
  proof (cases "starts_with n ''.''")
    case True
    with Cons show ?thesis by (simp add: visible_def)
  next
    case False
    then have vis: "visible (n # ns) = n # visible ns" by (simp add: visible_def)
    let ?fold = "\<lambda>b. foldl min b (map ?e (visible ns))"
    consider (lt) "?e n < best" | (eq) "?e n = best" | (gt) "best < ?e n"
      using less_linear [of "?e n" best] by blast
    then show ?thesis
    proof cases
      case lt
      then have m: "min best (?e n) = ?e n" by (simp add: min_absorb2)
      have ne: "?fold (?e n) \<noteq> best"
        using foldl_min_start [of "?e n" "map ?e (visible ns)"] lt by (metis leD)
      have "scan_waiters now (map (\<lambda>n. Dirent n True) (n # ns)) best ts
          = scan_waiters now (map (\<lambda>n. Dirent n True) ns) (?e n) [n]"
        using False lt by simp
      also have "\<dots> = Inr (?fold (?e n), (if ?fold (?e n) = ?e n then [n] else [])
          @ filter (\<lambda>x. ?e x = ?fold (?e n)) (visible ns))"
        by (simp only: Cons.IH Let_def)
      finally show ?thesis
        using m ne by (simp only: vis) (cases "?fold (?e n) = ?e n"; simp add: Let_def del: scan_waiters.simps)
    next
      case eq
      then have m: "min best (?e n) = best" by simp
      have "scan_waiters now (map (\<lambda>n. Dirent n True) (n # ns)) best ts
          = scan_waiters now (map (\<lambda>n. Dirent n True) ns) best (ts @ [n])"
        using False eq by simp
      also have "\<dots> = Inr (?fold best, (if ?fold best = best then ts @ [n] else [])
          @ filter (\<lambda>x. ?e x = ?fold best) (visible ns))"
        by (simp only: Cons.IH Let_def)
      finally show ?thesis
        using m eq by (simp only: vis) (simp add: Let_def del: scan_waiters.simps)
    next
      case gt
      then have m: "min best (?e n) = best" by (simp add: min_absorb1)
      have ne: "?e n \<noteq> ?fold best"
        using foldl_min_start [of best "map ?e (visible ns)"] gt by (metis leD)
      have "scan_waiters now (map (\<lambda>n. Dirent n True) (n # ns)) best ts
          = scan_waiters now (map (\<lambda>n. Dirent n True) ns) best ts"
        using False gt by (simp add: less_not_sym less_imp_neq [symmetric])
      also have "\<dots> = Inr (?fold best, (if ?fold best = best then ts else [])
          @ filter (\<lambda>x. ?e x = ?fold best) (visible ns))"
        by (simp only: Cons.IH Let_def)
      finally show ?thesis
        using m ne by (simp only: vis) (simp add: Let_def del: scan_waiters.simps)
    qed
  qed
qed

lemma foldl_min_in: "foldl min y ys \<in> set (y # ys)" for y :: "'a::linorder"
proof (induction ys arbitrary: y)
  case (Cons z zs)
  have "min y z = y \<or> min y z = z" by (simp add: min_def)
  with Cons [of "min y z"] show ?case by auto
qed simp

lemma min_ticket_iff:
  assumes "ts \<noteq> []"
  shows "(case min_ticket ts of None \<Rightarrow> u | Some t \<Rightarrow> t) = t \<longleftrightarrow> t \<in> set ts \<and> (\<forall>v \<in> set ts. t \<le> v)"
proof -
  obtain y ys where ts: "ts = y # ys" using assms by (cases ts) auto
  show ?thesis
    using foldl_min_in [of y ys] foldl_min_le [of _ y ys] unfolding ts by (auto intro: antisym)
qed

lemma is_my_turn_listing:
  fixes now p t w ns
  defines "e \<equiv> peer_effective now" and "m \<equiv> effective_rank p w"
  shows "is_my_turn (listing ns) now p t w =
    Inr ((\<forall>v \<in> set (visible ns). e v = - 1)
       \<or> (\<forall>v \<in> set (visible ns). m < e v)
       \<or> (t \<in> set (visible ns) \<and> e t = m
           \<and> (\<forall>v \<in> set (visible ns). m < e v \<or> (e v = m \<and> t \<le> v))))"
proof -
  define b where "b = foldl min (- 1) (map e (visible ns))"
  have top: "x \<le> (- 1 :: u8)" for x by simp
  have scan: "scan_waiters now (map (\<lambda>n. Dirent n True) ns) (- 1) [] =
    Inr (b, filter (\<lambda>n. e n = b) (visible ns))"
    by (simp add: scan_waiters_listing Let_def b_def e_def)
  have lower: "b \<le> e v" if "v \<in> set (visible ns)" for v
    using that unfolding b_def by (intro foldl_min_le) auto
  have attained: "b = - 1 \<or> (\<exists>v \<in> set (visible ns). e v = b)"
    using foldl_min_in [of "- 1" "map e (visible ns)"] unfolding b_def [symmetric] by auto
  have turn: "is_my_turn (listing ns) now p t w =
      (if b = - 1 then Inr True else if b < m then Inr False else if m < b then Inr True
       else Inr ((case min_ticket (filter (\<lambda>n. e n = b) (visible ns)) of None \<Rightarrow> t | Some x \<Rightarrow> x) = t))"
    by (simp add: is_my_turn_def scan Let_def m_def)
  show ?thesis
  proof (cases "b = - 1")
    case True
    then have "e v = - 1" if "v \<in> set (visible ns)" for v
      using lower [OF that] top [of "e v"] by (simp add: antisym)
    with True turn show ?thesis by simp
  next
    case False
    with attained obtain u where u: "u \<in> set (visible ns)" "e u = b" by blast
    consider (lt) "b < m" | (gt) "m < b" | (eq) "m = b" using less_linear [of b m] by blast
    then show ?thesis
    proof cases
      case lt
      with False turn have "is_my_turn (listing ns) now p t w = Inr False" by simp
      moreover have "\<not> m < e u" "e u \<noteq> m" "e u \<noteq> - 1" using lt u False by auto
      ultimately show ?thesis using u(1) by auto
    next
      case gt
      with False turn have "is_my_turn (listing ns) now p t w = Inr True" by simp
      moreover have "m < e v" if "v \<in> set (visible ns)" for v
        using gt lower [OF that] by (rule less_le_trans)
      ultimately show ?thesis by simp
    next
      case eq
      have ne: "filter (\<lambda>n. e n = b) (visible ns) \<noteq> []" using u by (auto simp: filter_empty_conv)
      have le: "m < e v \<or> e v = m" if "v \<in> set (visible ns)" for v
        using lower [OF that] eq by (auto simp: le_less)
      have "is_my_turn (listing ns) now p t w =
          Inr (t \<in> set (visible ns) \<and> e t = m \<and> (\<forall>v \<in> set (visible ns). e v = m \<longrightarrow> t \<le> v))"
        using False turn eq min_ticket_iff [OF ne, of t t] by auto
      moreover have "\<not> (\<forall>v \<in> set (visible ns). e v = - 1)" "\<not> (\<forall>v \<in> set (visible ns). m < e v)"
        using u False eq by auto
      ultimately show ?thesis using le by auto
    qed
  qed
qed

section \<open>The wait: lemmas\<close>

lemma slot_loop_bound:
  assumes "\<And>i. qe_delay E i \<le> D"
  shows "ss_elapsed (snd (slot_loop q E p t slots s)) \<le> ss_elapsed s + length slots * (sq_poll q + Suc D)"
proof (induction slots arbitrary: s)
  case Nil
  then show ?case by simp
next
  case (Cons x xs)
  obtain r s' where o: "observe_turn E p t s = (r, s')" by fastforce
  then have el: "ss_elapsed s' = ss_elapsed s" using observe_turn_elapsed [of E p t s] by simp
  have "ss_elapsed (snd (slot_loop q E p t xs (pause q E s')))
      \<le> ss_elapsed (pause q E s') + length xs * (sq_poll q + Suc D)" by (rule Cons.IH)
  also have "ss_elapsed (pause q E s') \<le> ss_elapsed s + sq_poll q + Suc D"
    using assms [of "ss_obs s'"] el by (simp add: pause_def)
  finally show ?case
    using o el Cons.IH [of s] by (auto split: slot_answer.splits sum.splits bool.splits)
qed

lemma scan_waiters_err: "scan_waiters now es b ts = Inl e \<Longrightarrow> e = ReadWaitingEntry"
  by (induction es arbitrary: b ts) (auto simp: Let_def split: waiting_entry.splits if_splits)

lemma is_my_turn_err: "is_my_turn d now p t w = Inl e \<Longrightarrow> e \<noteq> QueueTimeout"
  by (auto simp: is_my_turn_def Let_def split: waiting_dir.splits sum.splits if_splits dest: scan_waiters_err)

lemma observe_turn_err: "observe_turn E p t s = (Inl e, s') \<Longrightarrow> e \<noteq> QueueTimeout"
  by (auto simp: observe_turn_def Let_def dest: is_my_turn_err)

lemma slot_loop_err: "slot_loop q E p t slots s = (SlotErr e, s') \<Longrightarrow> e \<noteq> QueueTimeout"
proof (induction slots arbitrary: s)
  case (Cons x xs)
  then show ?case
    by (auto split: slot_answer.splits prod.splits sum.splits bool.splits dest: observe_turn_err)
qed simp

lemma wait_loop_bound:
  assumes "\<And>i. qe_delay E i \<le> D"
  shows "ss_elapsed (snd (wait_loop q E p t s))
      \<le> max (ss_elapsed s) (sq_timeout q + Suc (sq_max_concurrent q) * (sq_poll q + Suc D))
    \<and> (fst (wait_loop q E p t s) = Inl QueueTimeout \<longrightarrow> sq_timeout q \<le> ss_elapsed (snd (wait_loop q E p t s)))"
  using assms
proof (induction q E p t s rule: wait_loop.induct [case_names step])
  case (step q E p t s)
  let ?P = "sq_poll q + Suc D"
  let ?B = "sq_timeout q + Suc (sq_max_concurrent q) * ?P"
  have paused: "ss_elapsed (pause q E x) \<le> ss_elapsed x + ?P" for x
    using step.prems [of "ss_obs x"] by (simp add: pause_def)
  obtain r s1 where o: "observe_turn E p t s = (r, s1)" by fastforce
  have s1: "ss_elapsed s1 = ss_elapsed s" using observe_turn_time [OF o [symmetric]] .
  obtain out s2 where l: "slot_loop q E p t [0..<sq_max_concurrent q] s1 = (out, s2)" by fastforce
  have s2: "ss_elapsed s2 \<le> ss_elapsed s + sq_max_concurrent q * ?P"
    using slot_loop_bound [OF step.prems, of q p t "[0..<sq_max_concurrent q]" s1] l s1 by simp
  consider (late) "sq_timeout q \<le> ss_elapsed s" | (err) e where "\<not> sq_timeout q \<le> ss_elapsed s" "r = Inl e"
    | (wait) "\<not> sq_timeout q \<le> ss_elapsed s" "r = Inr False" | (turn) "\<not> sq_timeout q \<le> ss_elapsed s" "r = Inr True"
    by (cases r) auto
  then show ?case
  proof cases
    case late
    then show ?thesis by (subst (1 2 3) wait_loop.simps) simp
  next
    case err
    with o s1 observe_turn_err [of E p t s] show ?thesis by (subst (1 2 3) wait_loop.simps) simp
  next
    case wait
    have eq: "wait_loop q E p t s = wait_loop q E p t (pause q E s1)"
      using wait o by (subst wait_loop.simps) simp
    have "ss_elapsed (pause q E s1) \<le> ?B" using paused [of s1] s1 wait by simp
    moreover note step.IH(2) [OF wait(1) o [symmetric] wait(2) _ step.prems]
    ultimately show ?thesis unfolding eq by (simp add: max.coboundedI2)
  next
    case turn
    show ?thesis
    proof (cases out)
      case (Got slot)
      with turn o l s2 show ?thesis by (subst (1 2 3) wait_loop.simps) simp
    next
      case (SlotErr e)
      with turn o l s2 slot_loop_err [of q E p t "[0..<sq_max_concurrent q]" s1 e s2] show ?thesis
        by (subst (1 2 3) wait_loop.simps) simp
    next
      case NoSlot
      have eq: "wait_loop q E p t s = wait_loop q E p t (pause q E s2)"
        using turn o l NoSlot by (subst wait_loop.simps) simp
      have "ss_elapsed (pause q E s2) \<le> ?B" using paused [of s2] s2 turn by simp
      moreover note step.IH(1) [OF turn(1) o [symmetric] turn(2) _ l [symmetric] NoSlot step.prems]
      ultimately show ?thesis unfolding eq by (simp add: max.coboundedI2)
    qed
  qed
qed

text \<open>With no other process at work, the wait leaves the waiting directory alone.\<close>

lemma observe_turn_waiting:
  "(\<And>i ns. qe_others E i ns = ns) \<Longrightarrow> (r, s') = observe_turn E p t s \<Longrightarrow> ss_waiting s' = ss_waiting s"
  by (simp add: observe_turn_def Let_def)

lemma pause_waiting [simp]: "ss_waiting (pause q E s) = ss_waiting s"
  by (simp add: pause_def)

lemma slot_loop_waiting:
  assumes "\<And>i ns. qe_others E i ns = ns"
  shows "ss_waiting (snd (slot_loop q E p t slots s)) = ss_waiting s"
proof (induction slots arbitrary: s)
  case (Cons x xs)
  obtain r s' where o: "(r, s') = observe_turn E p t s" by (metis prod.collapse)
  from observe_turn_waiting [OF assms o] o [symmetric] Cons show ?case
    by (auto split: slot_answer.splits sum.splits bool.splits)
qed simp

lemma wait_loop_waiting:
  assumes "\<And>i ns. qe_others E i ns = ns"
  shows "ss_waiting (snd (wait_loop q E p t s)) = ss_waiting s"
  using assms
proof (induction q E p t s rule: wait_loop.induct [case_names step])
  case (step q E p t s)
  obtain r s1 where o: "(r, s1) = observe_turn E p t s" by (metis prod.collapse)
  obtain out s2 where l: "(out, s2) = slot_loop q E p t [0..<sq_max_concurrent q] s1" by (metis prod.collapse)
  have w1: "ss_waiting s1 = ss_waiting s" using observe_turn_waiting [OF step.prems o] .
  have w2: "ss_waiting s2 = ss_waiting s"
    using slot_loop_waiting [OF step.prems, of q p t "[0..<sq_max_concurrent q]" s1] l w1 by (metis snd_conv)
  show ?case
  proof (cases "sq_timeout q \<le> ss_elapsed s")
    case True
    then show ?thesis by (subst wait_loop.simps) simp
  next
    case False
    consider (err) e where "r = Inl e" | (wait) "r = Inr False" | (turn) "r = Inr True" by (cases r) auto
    then show ?thesis
    proof cases
      case err
      with False o [symmetric] w1 show ?thesis by (subst wait_loop.simps) simp
    next
      case wait
      with False o [symmetric] w1 step.IH(2) [OF False o wait _ step.prems] show ?thesis
        by (subst wait_loop.simps) simp
    next
      case turn
      with False o [symmetric] l [symmetric] w2 show ?thesis
        using step.IH(1) [OF False o turn _ l _ step.prems]
        by (subst wait_loop.simps) (auto split: slot_outcome.splits)
    qed
  qed
qed

lemma remove_ticket_waiting:
  "\<not> qe_remove_fails E \<Longrightarrow> t \<notin> set ns \<Longrightarrow> ss_waiting s = ns @ [t] \<Longrightarrow> ss_waiting (remove_ticket E t s) = ns"
  by (auto simp: remove_ticket_def filter_id_conv)

section \<open>The lane: lemmas\<close>

lemma lane_inv_step: "lane_step q l l' \<Longrightarrow> lane_inv q l \<Longrightarrow> lane_inv q l'"
proof (induction rule: lane_step.induct)
  case (take_slot slot l i)
  then have "ln_slots l a \<noteq> Some i" for a by (auto simp: lane_inv_def)
  with take_slot show ?case
    by (auto simp: lane_inv_def split: if_splits) (metis option.distinct(1))
next
  case (release_slot l slot i)
  then show ?case
    by (auto simp: lane_inv_def split: if_splits) (metis option.inject)
qed

lemma lane_reachable_inv: "(lane_step q)\<^sup>*\<^sup>* lane_init l \<Longrightarrow> lane_inv q l"
proof (induction rule: rtranclp_induct)
  case base
  show ?case by (simp add: lane_inv_def lane_init_def)
next
  case (step l l')
  then show ?case by (blast intro: lane_inv_step)
qed

lemma lane_inv_card: "lane_inv q l \<Longrightarrow> finite (ln_running l) \<and> card (ln_running l) \<le> sq_max_concurrent q"
proof -
  assume inv: "lane_inv q l"
  then have sub: "ln_running l \<subseteq> (\<lambda>s. the (ln_slots l s)) ` {..<sq_max_concurrent q}"
    unfolding lane_inv_def by force
  have "card ((\<lambda>s. the (ln_slots l s)) ` {..<sq_max_concurrent q}) \<le> sq_max_concurrent q"
    using card_image_le [of "{..<sq_max_concurrent q}" "\<lambda>s. the (ln_slots l s)"] by simp
  with sub show ?thesis
    by (meson card_mono finite_imageI finite_lessThan finite_subset order_trans)
qed

section \<open>Properties\<close>



text \<open>
  The turn check decides as follows, for every listing of the waiting directory. With \<open>e\<close> the
  aged rank of a ticket on the list and \<open>m\<close> the caller's own, it is the caller's turn exactly when
  every ticket has aged to the last rank, or all are ranked after \<open>m\<close>, or the caller's ticket is
  listed with rank \<open>m\<close> and comes first by name among those of the best rank.
\<close>

theorem turn_decision:
  "is_my_turn (listing ns) now p t w =
    Inr ((\<forall>v \<in> set (visible ns). peer_effective now v = - 1)
       \<or> (\<forall>v \<in> set (visible ns). effective_rank p w < peer_effective now v)
       \<or> (t \<in> set (visible ns) \<and> peer_effective now t = effective_rank p w
           \<and> (\<forall>v \<in> set (visible ns). effective_rank p w < peer_effective now v
                \<or> (peer_effective now v = effective_rank p w \<and> t \<le> v))))"
  by (rule is_my_turn_listing)

theorem turn_decision_witness:
  "is_my_turn (listing [''.x.tmp'']) 9 Normal ''02.9.1.0'' 0 = Inr True"
  by (subst turn_decision) (simp add: visible_def starts_with_def)

text \<open>
  Waiting lowers a waiter's rank, so a newer ticket of the same priority goes first. For every
  priority, a waiter whose ticket is older by one second or more, up to 250 seconds, is refused
  its turn, and the newcomer is given it.
\<close>

theorem newer_ticket_goes_first:
  assumes "1 \<le> k" and "k \<le> 250" and "k \<le> now" and "now < 2 ^ 64"
    and "as_secs w = k" and "as_secs w' = 0"
  shows "is_my_turn (listing [ticket_name p (now - k) pid sq, ticket_name p now pid' sq']) now p
      (ticket_name p (now - k) pid sq) w = Inr False
    \<and> is_my_turn (listing [ticket_name p (now - k) pid sq, ticket_name p now pid' sq']) now p
      (ticket_name p now pid' sq') w' = Inr True"
proof -
  let ?old = "ticket_name p (now - k) pid sq" and ?new = "ticket_name p now pid' sq'"
  have vis: "visible [?old, ?new] = [?old, ?new]"
    using visible_ticket [of p "now - k" pid sq "[?new]"] visible_ticket [of p now pid' sq' "[]"]
    by (simp add: visible_def)
  have eff: "peer_effective now (ticket_name p n q r) = effective_rank p (from_secs (now - n))"
    if "n < 2 ^ 64" "now - n < 2 ^ 54" for n q r
  proof -
    have "from_millis (peer_waited_ms now (ticket_name p n q r)) = from_secs (now - n)"
      by (simp only: peer_waited_ticket [OF that]) (simp add: time_defs)
    then show ?thesis
      by (simp add: peer_effective_def ticket_priority_ticket rank_priority_as_u8)
  qed
  have old: "unat (peer_effective now ?old) = unat (as_u8 p) + k"
    using assms as_u8_small(2) [of p] by (simp add: eff effective_rank_nat)
  have new: "unat (peer_effective now ?new) = unat (as_u8 p)"
    using assms as_u8_small(2) [of p] by (simp add: eff effective_rank_nat)
  have mine: "unat (effective_rank p w) = unat (as_u8 p) + k" "unat (effective_rank p w') = unat (as_u8 p)"
    using assms as_u8_small(2) [of p] by (simp_all add: effective_rank_nat)
  have lt: "peer_effective now ?new < effective_rank p w" "peer_effective now ?new < peer_effective now ?old"
    "peer_effective now ?new = effective_rank p w'"
    using assms(1) by (simp_all add: word_less_nat_alt word_unat_eq_iff old new mine)
  have "unat (- 1 :: u8) = 255" by (simp add: unat_neg_one)
  then have top: "peer_effective now ?new \<noteq> - 1"
    using new as_u8_small(2) [of p] by (auto simp: word_unat_eq_iff)
  have no: "\<not> effective_rank p w < peer_effective now ?new" "peer_effective now ?new \<noteq> effective_rank p w"
    using lt(1) by auto
  show ?thesis
    unfolding is_my_turn_listing vis using lt(2,3) top no by simp
qed

theorem newer_ticket_goes_first_witness:
  "is_my_turn (listing [ticket_name Normal (100 - 5) 11 0, ticket_name Normal 100 12 0]) 100 Normal
      (ticket_name Normal (100 - 5) 11 0) (from_secs 5) = Inr False"
  using newer_ticket_goes_first [of 5 100 "from_secs 5" 0 Normal 11 0 12 0] by simp

text \<open>
  The rank of a waiter is its priority plus one for every full second waited, taken modulo
  256 and capped at 255. So a leaked critical ticket has its full priority again every 256
  seconds.
\<close>

theorem aged_rank:
  "unat (effective_rank p w) = min 255 (unat (as_u8 p) + as_secs w mod 256)
   \<and> effective_rank p (w + from_secs 256) = effective_rank p w"
proof -
  have "as_secs (w + from_secs 256) mod 256 = as_secs w mod 256"
    by (simp add: as_secs_add)
  then show ?thesis by (simp add: effective_rank_nat word_unat_eq_iff)
qed

text \<open>The work runs at most once, and a result is what it returned.\<close>

lemma with_slot_effect:
  assumes "with_slot q E p f s w = (res, s', w')"
  shows "(w' = w \<or> w' = snd (f w)) \<and> (\<forall>v. res = Inr v \<longrightarrow> f w = (Inr v, w'))"
  using assms by (auto simp: with_slot_def Let_def split: if_splits sum.splits prod.splits)



end
