(* ===== verification/Speculation.thy ===== *)
theory Speculation
  imports CoalesceCache ThermalGate "HOL-Library.Product_Lexorder"
begin

text \<open>
  Speculative execution (\<open>crates/sharecli-core/src/speculation.rs\<close>): the frequency tracker, one
  cycle of the background task that runs frequent commands into the coalesce cache, and the
  coalescer that merges calls in flight. A \<open>HashMap\<close> is an association list with distinct keys in
  the order of its iteration, and what is proved holds for all orders. The methods of the tracker
  and of the coalescer lock their state, so each is one step on it.
\<close>

section \<open>The frequency tracker\<close>

definition SPECULATION_THRESHOLD :: u32 where
  "SPECULATION_THRESHOLD = 3"

definition SPECULATION_WINDOW :: duration where
  "SPECULATION_WINDOW = from_secs 300"

definition SPECULATION_MAX_CANDIDATES :: nat where
  "SPECULATION_MAX_CANDIDATES = 5"

definition SPECULATIVE_COALESCE_WINDOW :: duration where
  "SPECULATIVE_COALESCE_WINDOW = from_millis 100"

record speculation_candidate =
  sc_key :: string
  sc_argv :: "string list"
  sc_cwd :: string
  sc_env :: "(string \<times> string) list"

record speculation_tracker =
  st_hits :: "(string \<times> u32 \<times> nat) list"
  st_requests :: "(string \<times> speculation_candidate) list"

definition st_new :: speculation_tracker where
  "st_new = \<lparr>st_hits = [], st_requests = []\<rparr>"

text \<open>The instant of the entry is set to the current one on every hit.\<close>

definition record_hit ::
  "nat \<Rightarrow> string \<Rightarrow> string list \<Rightarrow> string \<Rightarrow> (string \<times> string) list \<Rightarrow> speculation_tracker \<Rightarrow> speculation_tracker" where
  "record_hit now key argv cwd env tr =
     (let (n, _) = (case map_of (st_hits tr) key of None \<Rightarrow> (0, now) | Some e \<Rightarrow> e)
      in \<lparr>st_hits = AList.update key (n + 1, now) (st_hits tr),
          st_requests =
            (case map_of (st_requests tr) key of
               Some _ \<Rightarrow> st_requests tr
             | None \<Rightarrow> AList.update key
                        \<lparr>sc_key = key, sc_argv = argv, sc_cwd = cwd, sc_env = env\<rparr> (st_requests tr))\<rparr>)"

definition eligible :: "nat \<Rightarrow> u32 \<times> nat \<Rightarrow> bool" where
  "eligible now e \<longleftrightarrow> SPECULATION_THRESHOLD \<le> fst e \<and> now - snd e \<le> SPECULATION_WINDOW"

text \<open>More hits first, then by key.\<close>

definition score_order :: "u32 \<times> string \<Rightarrow> nat \<times> string" where
  "score_order s = (2 ^ 32 - unat (fst s), snd s)"

definition scored :: "nat \<Rightarrow> speculation_tracker \<Rightarrow> (u32 \<times> string) list" where
  "scored now tr =
     take SPECULATION_MAX_CANDIDATES
       (sort_key score_order
         (map (\<lambda>(key, n, first). (n, key)) (filter (\<lambda>(key, e). eligible now e) (st_hits tr))))"

fun drain_loop :: "(u32 \<times> string) list \<Rightarrow> speculation_tracker \<Rightarrow> speculation_candidate list \<times> speculation_tracker" where
  "drain_loop [] tr = ([], tr)"
| "drain_loop ((_, key) # ks) tr =
     (let (cs, tr') = drain_loop ks (tr\<lparr>st_hits := AList.delete key (st_hits tr),
                                       st_requests := AList.delete key (st_requests tr)\<rparr>)
      in (case map_of (st_requests tr) key of None \<Rightarrow> cs | Some c \<Rightarrow> c # cs, tr'))"

definition drain_candidates :: "nat \<Rightarrow> speculation_tracker \<Rightarrow> speculation_candidate list \<times> speculation_tracker" where
  "drain_candidates now tr = drain_loop (scored now tr) tr"

definition tracker_len :: "speculation_tracker \<Rightarrow> nat" where
  "tracker_len tr = length (st_hits tr)"

text \<open>Both maps have the same keys, each once, and a request carries its own key.\<close>

definition tracker_inv :: "speculation_tracker \<Rightarrow> bool" where
  "tracker_inv tr \<longleftrightarrow>
     distinct (map fst (st_hits tr)) \<and> distinct (map fst (st_requests tr))
     \<and> fst ` set (st_hits tr) = fst ` set (st_requests tr)
     \<and> (\<forall>(k, c) \<in> set (st_requests tr). sc_key c = k)"

text \<open>The list from which the best are taken holds exactly the eligible keys, each once.\<close>

definition ranking :: "nat \<Rightarrow> speculation_tracker \<Rightarrow> (u32 \<times> string) list" where
  "ranking now tr = sort_key score_order
     (map (\<lambda>(key, n, first). (n, key)) (filter (\<lambda>(key, e). eligible now e) (st_hits tr)))"

section \<open>The background task\<close>

datatype spec_run = SpecRan cached_result | SpecFailed | SpecPanicked

text \<open>
  One cycle after the sleep. Running a command acts on the world; the clock moves only with the
  argument. An empty argument vector is an error before anything runs.
\<close>

type_synonym 'w executor =
  "string list \<Rightarrow> string \<Rightarrow> (string \<times> string) list \<Rightarrow> 'w \<Rightarrow> spec_run \<times> 'w"

definition speculate_execute :: "'w executor \<Rightarrow> string list \<Rightarrow> string \<Rightarrow> (string \<times> string) list \<Rightarrow> 'w \<Rightarrow> spec_run \<times> 'w" where
  "speculate_execute exec argv cwd env w =
     (case argv of [] \<Rightarrow> (SpecFailed, w) | _ # _ \<Rightarrow> exec argv cwd env w)"

definition speculate_one ::
  "coalesce_cache \<Rightarrow> cache_env \<Rightarrow> 'w executor \<Rightarrow> nat \<Rightarrow> speculation_candidate \<Rightarrow> cache_dir \<times> 'w \<Rightarrow> cache_dir \<times> 'w" where
  "speculate_one c E exec now cand = (\<lambda>(d, w).
     (case cc_lookup c (ce_from_slice E) (ce_fails E) now d (sc_key cand) of
        Inr (Some _) \<Rightarrow> (d, w)
      | Inl _ \<Rightarrow> (d, w)
      | Inr None \<Rightarrow>
          (case speculate_execute exec (sc_argv cand) (sc_cwd cand) (sc_env cand) w of
             (SpecRan cached, w) \<Rightarrow>
               (snd (cc_store c (ce_to_vec E) (ce_fails E) now d (sc_key cand) cached), w)
           | (SpecFailed, w) \<Rightarrow> (d, w)
           | (SpecPanicked, w) \<Rightarrow> (d, w))))"

definition speculation_cycle ::
  "coalesce_cache \<Rightarrow> cache_env \<Rightarrow> 'w executor \<Rightarrow> thermal_decision \<Rightarrow> nat
     \<Rightarrow> speculation_tracker \<times> cache_dir \<times> 'w \<Rightarrow> speculation_tracker \<times> cache_dir \<times> 'w" where
  "speculation_cycle c E exec gate now = (\<lambda>(tr, d, w).
     (case gate of
        Warn \<Rightarrow> (tr, d, w)
      | Refuse \<Rightarrow> (tr, d, w)
      | Allow \<Rightarrow>
          (let (cands, tr) = drain_candidates now tr
           in (tr, foldl (\<lambda>s cand. speculate_one c E exec now cand s) (d, w) cands))))"

section \<open>Calls in flight\<close>

text \<open>
  Callers are numbered as they arrive. A pending group holds its waiters, the leader first; after
  its window the group is drained and runs the leader's executor, whose result goes to all its
  waiters. Groups drained and not yet finished are in flight.
\<close>

record 'r coalescer =
  co_pending :: "(string \<times> nat list) list"
  co_flight :: "nat list list"
  co_delivered :: "(nat \<times> nat \<times> 'r) list"
  co_next :: nat
  co_execs :: nat

definition co_new :: "'r coalescer" where
  "co_new = \<lparr>co_pending = [], co_flight = [], co_delivered = [], co_next = 0, co_execs = 0\<rparr>"

text \<open>A call joins the group of its key or opens one, as leader.\<close>

definition co_call :: "string \<Rightarrow> 'r coalescer \<Rightarrow> 'r coalescer" where
  "co_call key s =
     (let i = co_next s
      in s\<lparr>co_next := Suc i,
           co_pending := (case map_of (co_pending s) key of
                            Some ws \<Rightarrow> AList.update key (ws @ [i]) (co_pending s)
                          | None \<Rightarrow> AList.update key [i] (co_pending s))\<rparr>)"

text \<open>The leader's task after the window: it takes the group out of the map.\<close>

definition co_drain :: "string \<Rightarrow> 'r coalescer \<Rightarrow> 'r coalescer" where
  "co_drain key s =
     (case map_of (co_pending s) key of
        None \<Rightarrow> s
      | Some ws \<Rightarrow> s\<lparr>co_pending := AList.delete key (co_pending s), co_flight := co_flight s @ [ws]\<rparr>)"

text \<open>The executor of the \<open>n\<close>-th group in flight returns: every waiter gets the leader's result.\<close>

definition co_finish :: "nat \<Rightarrow> 'r \<Rightarrow> 'r coalescer \<Rightarrow> 'r coalescer" where
  "co_finish n r s =
     (if n < length (co_flight s)
      then s\<lparr>co_flight := take n (co_flight s) @ drop (Suc n) (co_flight s),
             co_delivered := co_delivered s @ map (\<lambda>i. (i, hd (co_flight s ! n), r)) (co_flight s ! n),
             co_execs := Suc (co_execs s)\<rparr>
      else s)"

datatype 'r co_op = Call string | DrainGroup string | Finish nat 'r

fun co_step :: "'r coalescer \<Rightarrow> 'r co_op \<Rightarrow> 'r coalescer" where
  "co_step s (Call k) = co_call k s"
| "co_step s (DrainGroup k) = co_drain k s"
| "co_step s (Finish n r) = co_finish n r s"

text \<open>Every caller so far is in exactly one group, pending or in flight, or has one result.\<close>

definition co_callers :: "'r coalescer \<Rightarrow> nat multiset" where
  "co_callers s = mset (concat (map snd (co_pending s))) + mset (concat (co_flight s)) + mset (map fst (co_delivered s))"

definition co_inv :: "'r coalescer \<Rightarrow> bool" where
  "co_inv s \<longleftrightarrow>
     distinct (map fst (co_pending s))
     \<and> co_callers s = mset [0..<co_next s]
     \<and> (\<forall>ws \<in> set (map snd (co_pending s)) \<union> set (co_flight s). ws \<noteq> [])
     \<and> card {l. \<exists>i r. (i, l, r) \<in> set (co_delivered s)} \<le> co_execs s
     \<and> (\<forall>(i, l, r) \<in> set (co_delivered s). (l, l, r) \<in> set (co_delivered s))"

section \<open>The tracker: lemmas\<close>

lemma tracker_inv_new: "tracker_inv st_new"
  by (simp add: tracker_inv_def st_new_def)

lemma tracker_inv_record_hit: "tracker_inv tr \<Longrightarrow> tracker_inv (record_hit now k argv cwd env tr)"
proof -
  assume inv: "tracker_inv tr"
  then have keys: "fst ` set (st_hits tr) = fst ` set (st_requests tr)" by (simp add: tracker_inv_def)
  have upd: "fst ` set (AList.update k v xs) = insert k (fst ` set xs)" for v :: 'v and xs
    by (simp add: AList.dom_update)
  show ?thesis
  proof (cases "map_of (st_requests tr) k")
    case None
    then have h: "map_of (st_hits tr) k = None" using keys by (simp add: map_of_eq_None_iff)
    have eq: "record_hit now k argv cwd env tr =
        \<lparr>st_hits = st_hits tr @ [(k, 1, now)],
         st_requests = st_requests tr @ [(k, \<lparr>sc_key = k, sc_argv = argv, sc_cwd = cwd, sc_env = env\<rparr>)]\<rparr>"
      by (simp add: record_hit_def None h update_absent)
    have "k \<notin> fst ` set (st_requests tr)" using None by (simp add: map_of_eq_None_iff)
    with inv keys show ?thesis unfolding eq by (auto simp: tracker_inv_def)
  next
    case (Some c)
    then have "k \<in> fst ` set (st_requests tr)" by (force dest: map_of_SomeD)
    with inv Some keys show ?thesis
      by (auto simp: tracker_inv_def record_hit_def Let_def upd AList.distinct_update split: option.splits)
  qed
qed

lemma drain_loop_eq:
  assumes "distinct (map snd ks)" and "\<forall>k \<in> snd ` set ks. map_of (st_requests tr) k \<noteq> None"
  shows "drain_loop ks tr =
    (map (\<lambda>(_, k). the (map_of (st_requests tr) k)) ks,
     tr\<lparr>st_hits := filter (\<lambda>(k, _). k \<notin> snd ` set ks) (st_hits tr),
        st_requests := filter (\<lambda>(k, _). k \<notin> snd ` set ks) (st_requests tr)\<rparr>)"
  using assms
proof (induction ks arbitrary: tr)
  case Nil
  then show ?case by simp
next
  case (Cons x ks)
  obtain n k where x: "x = (n, k)" by (cases x)
  let ?tr = "tr\<lparr>st_hits := AList.delete k (st_hits tr), st_requests := AList.delete k (st_requests tr)\<rparr>"
  have notin: "k \<notin> snd ` set ks" using Cons.prems(1) x by (simp add: image_iff)
  have same: "map_of (st_requests ?tr) j = map_of (st_requests tr) j" if "j \<in> snd ` set ks" for j
    using that notin by (auto simp: AList.delete_conv)
  have ih: "drain_loop ks ?tr =
    (map (\<lambda>(_, k). the (map_of (st_requests ?tr) k)) ks,
     ?tr\<lparr>st_hits := filter (\<lambda>(k, _). k \<notin> snd ` set ks) (st_hits ?tr),
        st_requests := filter (\<lambda>(k, _). k \<notin> snd ` set ks) (st_requests ?tr)\<rparr>)"
    using Cons.prems same by (intro Cons.IH) auto
  have cands: "map (\<lambda>(_, k). the (map_of (st_requests ?tr) k)) ks = map (\<lambda>(_, k). the (map_of (st_requests tr) k)) ks"
  proof (rule map_cong [OF refl])
    fix y
    assume "y \<in> set ks"
    then show "(case y of (_, k) \<Rightarrow> the (map_of (st_requests ?tr) k)) = (case y of (_, k) \<Rightarrow> the (map_of (st_requests tr) k))"
      using same [of "snd y"] by (simp add: case_prod_unfold)
  qed
  have filt: "filter (\<lambda>(j, _). j \<notin> snd ` set ks) (AList.delete k xs) = filter (\<lambda>(j, _). j \<notin> snd ` set (x # ks)) xs"
    for xs :: "(string \<times> 'v) list"
    by (auto simp: AList.delete_eq x intro!: filter_cong)
  obtain c where "map_of (st_requests tr) k = Some c"
    using Cons.prems(2) x by auto
  with ih cands show ?case
    by (simp add: x Let_def filt [unfolded x])
qed

lemma inj_score_order: "inj_on score_order A"
proof (rule inj_onI)
  fix x y :: "u32 \<times> string"
  assume "score_order x = score_order y"
  then have "2 ^ 32 - unat (fst x) = 2 ^ 32 - unat (fst y)" "snd x = snd y"
    by (simp_all add: score_order_def)
  moreover have "unat (fst x) < 2 ^ 32" "unat (fst y) < 2 ^ 32"
    using unat_bound [of "fst x"] unat_bound [of "fst y"] by simp_all
  ultimately have "unat (fst x) = unat (fst y)" by linarith
  with \<open>snd x = snd y\<close> show "x = y" by (simp add: prod_eq_iff word_unat_eq_iff)
qed

lemma scored_cong: "mset (st_hits tr) = mset (st_hits tr') \<Longrightarrow> scored now tr = scored now tr'"
proof -
  assume eq: "mset (st_hits tr) = mset (st_hits tr')"
  let ?l = "\<lambda>t. map (\<lambda>(key, n, first). (n, key)) (filter (\<lambda>(key, e). eligible now e) (st_hits t))"
  have "mset (?l tr) = mset (?l tr')" using eq by (simp add: mset_map mset_filter)
  then have "sort_key score_order (?l tr) = sort_key score_order (?l tr')"
    by (intro sort_key_inj_key_eq [OF _ inj_score_order]) simp_all
  then show ?thesis by (simp add: scored_def)
qed

lemma scored_ranking: "scored now tr = take 5 (ranking now tr)"
  by (simp add: scored_def ranking_def SPECULATION_MAX_CANDIDATES_def)

lemma set_ranking: "(n, k) \<in> set (ranking now tr) \<longleftrightarrow> (\<exists>first. (k, n, first) \<in> set (st_hits tr) \<and> eligible now (n, first))"
  by (auto simp: ranking_def image_iff split: prod.splits)

lemma distinct_ranking: "tracker_inv tr \<Longrightarrow> distinct (map snd (ranking now tr))"
proof -
  assume "tracker_inv tr"
  then have d: "distinct (map fst (filter (\<lambda>(key, e). eligible now e) (st_hits tr)))"
    by (simp add: tracker_inv_def distinct_map_filter)
  have "mset (map snd (ranking now tr)) = mset (map fst (filter (\<lambda>(key, e). eligible now e) (st_hits tr)))"
    by (simp add: ranking_def image_mset.compositionality comp_def case_prod_unfold)
  with d show ?thesis by (metis mset_eq_imp_distinct_iff)
qed

lemma sorted_ranking: "sorted (map score_order (ranking now tr))"
  by (simp add: ranking_def)

lemma scored_requests:
  assumes "tracker_inv tr"
  shows "distinct (map snd (scored now tr))"
    and "\<forall>k \<in> snd ` set (scored now tr). map_of (st_requests tr) k \<noteq> None"
proof -
  show "distinct (map snd (scored now tr))"
    using distinct_ranking [OF assms] by (simp add: scored_ranking flip: take_map)
  have "snd ` set (scored now tr) \<subseteq> fst ` set (st_hits tr)"
    by (force simp: scored_ranking set_ranking dest!: in_set_takeD)
  with assms show "\<forall>k \<in> snd ` set (scored now tr). map_of (st_requests tr) k \<noteq> None"
    by (auto simp: tracker_inv_def map_of_eq_None_iff)
qed

lemma drain_candidates_eq:
  assumes "tracker_inv tr"
  shows "drain_candidates now tr =
    (map (\<lambda>(_, k). the (map_of (st_requests tr) k)) (scored now tr),
     tr\<lparr>st_hits := filter (\<lambda>(k, _). k \<notin> snd ` set (scored now tr)) (st_hits tr),
        st_requests := filter (\<lambda>(k, _). k \<notin> snd ` set (scored now tr)) (st_requests tr)\<rparr>)"
  unfolding drain_candidates_def by (rule drain_loop_eq [OF scored_requests [OF assms]])

lemma tracker_inv_drain:
  assumes "tracker_inv tr"
  shows "tracker_inv (snd (drain_candidates now tr))"
proof -
  let ?S = "snd ` set (scored now tr)"
  have keys: "fst ` set (filter (\<lambda>(k, _). k \<notin> ?S) xs) = fst ` set xs - ?S" for xs :: "(string \<times> 'v) list"
    by force
  have "fst ` set (st_hits (snd (drain_candidates now tr))) = fst ` set (st_requests (snd (drain_candidates now tr)))"
    using assms unfolding drain_candidates_eq [OF assms] tracker_inv_def by (simp add: keys del: set_filter)
  with assms show ?thesis
    unfolding drain_candidates_eq [OF assms]
    by (simp add: tracker_inv_def distinct_map_filter)
qed

lemma record_hits:
  assumes "ts \<noteq> []"
  shows "foldl (\<lambda>tr t. record_hit t k argv cwd env tr) st_new ts =
    \<lparr>st_hits = [(k, of_nat (length ts), last ts)],
     st_requests = [(k, \<lparr>sc_key = k, sc_argv = argv, sc_cwd = cwd, sc_env = env\<rparr>)]\<rparr>"
  using assms
proof (induction ts rule: rev_nonempty_induct)
  case (single t)
  then show ?case by (simp add: record_hit_def st_new_def)
next
  case (snoc t ts)
  then show ?case by (simp add: record_hit_def)
qed

section \<open>Calls in flight: lemmas\<close>

lemma co_inv_new: "co_inv co_new"
  by (simp add: co_inv_def co_new_def co_callers_def)

lemma mset_concat_update:
  assumes "distinct (map fst xs)" and "map_of xs k = Some ws"
  shows "mset (concat (map snd (AList.update k (ws @ [i]) xs))) = add_mset i (mset (concat (map snd xs)))"
  using assms by (induction xs) (auto split: if_splits)

lemma mset_concat_delete:
  assumes "distinct (map fst xs)" and "map_of xs k = Some ws"
  shows "mset (concat (map snd (AList.delete k xs))) + mset ws = mset (concat (map snd xs))"
  using assms
proof (induction xs)
  case (Cons x xs)
  show ?case
  proof (cases "fst x = k")
    case True
    then have "k \<notin> fst ` set xs" using Cons.prems(1) by auto
    then have "AList.delete k xs = xs" by (simp add: AList.delete_id)
    with True Cons.prems(2) show ?thesis by (cases x) (simp add: union_commute)
  next
    case False
    with Cons show ?thesis by (cases x) (auto simp: ac_simps)
  qed
qed simp

lemma set_update_groups:
  "set (map snd (AList.update k v xs)) \<subseteq> insert v (set (map snd xs))"
  by (induction xs) auto

lemma co_inv_call: "co_inv s \<Longrightarrow> co_inv (co_call k s)"
proof -
  assume inv: "co_inv s"
  have d: "distinct (map fst (co_pending s))" using inv by (simp add: co_inv_def)
  show ?thesis
  proof (cases "map_of (co_pending s) k")
    case None
    then have "co_pending (co_call k s) = co_pending s @ [(k, [co_next s])]"
      by (simp add: co_call_def Let_def update_absent)
    moreover have "k \<notin> fst ` set (co_pending s)" using None by (simp add: map_of_eq_None_iff)
    ultimately show ?thesis
      using inv by (auto simp: co_inv_def co_callers_def co_call_def Let_def)
  next
    case (Some ws)
    then have p: "co_pending (co_call k s) = AList.update k (ws @ [co_next s]) (co_pending s)"
      by (simp add: co_call_def Let_def)
    have "\<forall>g \<in> set (map snd (co_pending (co_call k s))) \<union> set (co_flight s). g \<noteq> []"
      using inv set_update_groups [of k "ws @ [co_next s]" "co_pending s"] unfolding p co_inv_def by auto
    moreover have "co_callers (co_call k s) = mset [0..<co_next (co_call k s)]"
      using inv mset_concat_update [OF d Some] unfolding co_callers_def p
      by (simp add: co_inv_def co_callers_def co_call_def Let_def)
    ultimately show ?thesis
      using inv d unfolding co_inv_def p by (simp add: co_call_def Let_def AList.distinct_update)
  qed
qed

lemma co_inv_drain: "co_inv s \<Longrightarrow> co_inv (co_drain k s)"
proof (cases "map_of (co_pending s) k")
  case None
  then show "co_inv s \<Longrightarrow> ?thesis" by (simp add: co_drain_def)
next
  case (Some ws)
  assume inv: "co_inv s"
  then have d: "distinct (map fst (co_pending s))" by (simp add: co_inv_def)
  have "ws \<in> set (map snd (co_pending s))" using Some by (force dest: map_of_SomeD)
  moreover have "set (AList.delete k (co_pending s)) \<subseteq> set (co_pending s)" by (auto simp: AList.delete_eq)
  ultimately have ne: "\<forall>g \<in> set (map snd (AList.delete k (co_pending s))) \<union> set (co_flight s @ [ws]). g \<noteq> []"
    using inv unfolding co_inv_def by auto
  have "co_callers (co_drain k s) = co_callers s"
    using mset_concat_delete [OF d Some] Some by (simp add: co_callers_def co_drain_def ac_simps)
  with inv ne Some d show ?thesis
    by (simp add: co_inv_def co_drain_def AList.distinct_delete)
qed

lemma co_inv_finish: "co_inv s \<Longrightarrow> co_inv (co_finish n r s)"
proof (cases "n < length (co_flight s)")
  case False
  then show "co_inv s \<Longrightarrow> ?thesis" by (simp add: co_finish_def)
next
  case True
  assume inv: "co_inv s"
  let ?ws = "co_flight s ! n"
  have split: "co_flight s = take n (co_flight s) @ ?ws # drop (Suc n) (co_flight s)"
    using True by (rule id_take_nth_drop)
  have ws: "?ws \<noteq> []" using inv True by (auto simp: co_inv_def)
  have "mset (concat (co_flight s)) = mset (concat (take n (co_flight s) @ drop (Suc n) (co_flight s))) + mset ?ws"
    using arg_cong [OF split, of "\<lambda>x. mset (concat x)"] by (simp add: ac_simps)
  then have callers: "co_callers (co_finish n r s) = co_callers s"
    using True by (simp add: co_callers_def co_finish_def comp_def ac_simps)
  have D: "co_delivered (co_finish n r s) = co_delivered s @ map (\<lambda>i. (i, hd ?ws, r)) ?ws"
    using True by (simp add: co_finish_def)
  let ?L = "\<lambda>D :: (nat \<times> nat \<times> 'a) list. {l. \<exists>i r. (i, l, r) \<in> set D}"
  have "?L (co_delivered s) = (\<lambda>x. fst (snd x)) ` set (co_delivered s)" by force
  then have fin: "finite (?L (co_delivered s))" by simp
  have "?L (co_delivered (co_finish n r s)) \<subseteq> insert (hd ?ws) (?L (co_delivered s))"
    unfolding D by auto
  then have "card (?L (co_delivered (co_finish n r s))) \<le> card (insert (hd ?ws) (?L (co_delivered s)))"
    using fin by (intro card_mono) simp_all
  also have "\<dots> \<le> Suc (card (?L (co_delivered s)))"
    using fin by (simp add: card_insert_if)
  also have "\<dots> \<le> co_execs (co_finish n r s)"
    using inv True by (simp add: co_inv_def co_finish_def)
  finally have execs: "card (?L (co_delivered (co_finish n r s))) \<le> co_execs (co_finish n r s)" .
  have leader: "(l, l, x) \<in> set (co_delivered (co_finish n r s))" if "(i, l, x) \<in> set (co_delivered (co_finish n r s))" for i l x
  proof -
    have "(i, l, x) \<in> set (co_delivered s) \<or> (l = hd ?ws \<and> x = r)"
      using that unfolding D by auto
    then show ?thesis
    proof
      assume "(i, l, x) \<in> set (co_delivered s)"
      then have "(l, l, x) \<in> set (co_delivered s)" using inv unfolding co_inv_def by blast
      then show ?thesis unfolding D by simp
    next
      assume "l = hd ?ws \<and> x = r"
      then show ?thesis using hd_in_set [OF ws] unfolding D by simp
    qed
  qed
  have same: "\<forall>(i, l, x) \<in> set (co_delivered (co_finish n r s)). (l, l, x) \<in> set (co_delivered (co_finish n r s))"
  proof
    fix y
    assume y: "y \<in> set (co_delivered (co_finish n r s))"
    obtain i l x where "y = (i, l, x)" by (cases y)
    with y leader [of i l x] show "case y of (i, l, x) \<Rightarrow> (l, l, x) \<in> set (co_delivered (co_finish n r s))"
      by simp
  qed
  have "\<forall>g \<in> set (map snd (co_pending s)) \<union> set (co_flight (co_finish n r s)). g \<noteq> []"
    using inv True by (auto simp: co_inv_def co_finish_def dest: in_set_takeD in_set_dropD)
  moreover have "co_pending (co_finish n r s) = co_pending s" "co_next (co_finish n r s) = co_next s"
    by (simp_all add: co_finish_def)
  ultimately show ?thesis
    using inv callers execs same unfolding co_inv_def by (simp only:)
qed

interpretation coal: machine co_step co_inv
proof unfold_locales
  fix s :: "'r coalescer" and x
  assume "co_inv s"
  then show "co_inv (co_step s x)"
    by (cases x) (simp_all add: co_inv_call co_inv_drain co_inv_finish)
qed

section \<open>Properties\<close>

text \<open>
  Draining takes the best candidates and nothing else. At most five are taken; every key
  taken is eligible; an eligible key is left only when five were taken and all of them rank before
  it; the taken keys, and only they, leave the tracker; and the invariant is kept. The result does
  not depend on the iteration order of the hash maps.
\<close>

theorem drain_takes_the_best:
  assumes "tracker_inv tr" and "drain_candidates now tr = (cands, tr')"
  shows "length cands \<le> 5
    \<and> (\<forall>cd \<in> set cands. \<exists>e. (sc_key cd, e) \<in> set (st_hits tr) \<and> eligible now e)
    \<and> (\<forall>(k, e) \<in> set (st_hits tr). eligible now e \<and> k \<notin> sc_key ` set cands \<longrightarrow>
         length cands = 5
         \<and> (\<forall>cd \<in> set cands. \<exists>e'. (sc_key cd, e') \<in> set (st_hits tr)
              \<and> score_order (fst e', sc_key cd) \<le> score_order (fst e, k)))
    \<and> st_hits tr' = filter (\<lambda>(k, _). k \<notin> sc_key ` set cands) (st_hits tr)
    \<and> tracker_inv tr'
    \<and> (\<forall>hits. mset hits = mset (st_hits tr) \<longrightarrow> fst (drain_candidates now (tr\<lparr>st_hits := hits\<rparr>)) = cands)"
proof -
  let ?s = "scored now tr" and ?r = "ranking now tr"
  note eq = drain_candidates_eq [OF assms(1), of now]
  have req: "sc_key (the (map_of (st_requests tr) k)) = k" if k: "k \<in> snd ` set ?s" for k
  proof -
    obtain cd where "map_of (st_requests tr) k = Some cd"
      using bspec [OF scored_requests(2) [OF assms(1), of now] k] by blast
    with assms(1) show ?thesis by (fastforce simp: tracker_inv_def dest: map_of_SomeD)
  qed
  have cands: "cands = map (\<lambda>(_, k). the (map_of (st_requests tr) k)) ?s"
    using assms(2) eq by simp
  have keys: "map sc_key cands = map snd ?s"
    using req unfolding cands by (auto simp: case_prod_unfold)
  have keyset: "sc_key ` set cands = snd ` set ?s"
    using arg_cong [OF keys, of set] by simp
  have len: "length cands = length ?s" by (simp add: cands)
  have 1: "length cands \<le> 5" by (simp add: len scored_ranking)
  have mem: "\<exists>n first. (n, sc_key cd) \<in> set ?s \<and> (sc_key cd, n, first) \<in> set (st_hits tr) \<and> eligible now (n, first)"
    if "cd \<in> set cands" for cd
  proof -
    have "sc_key cd \<in> snd ` set ?s" using that keyset by blast
    then obtain n where n: "(n, sc_key cd) \<in> set ?s" by force
    then have "(n, sc_key cd) \<in> set ?r" by (auto simp: scored_ranking dest: in_set_takeD)
    with n show ?thesis by (auto simp: set_ranking)
  qed
  have rest: "length cands = 5 \<and> (\<forall>cd \<in> set cands. \<exists>e'. (sc_key cd, e') \<in> set (st_hits tr)
              \<and> score_order (fst e', sc_key cd) \<le> score_order (fst e, k))"
    if k: "(k, e) \<in> set (st_hits tr)" "eligible now e" "k \<notin> sc_key ` set cands" for k e
  proof -
    have inr: "(fst e, k) \<in> set ?r" using k by (cases e) (auto simp: set_ranking)
    have "(fst e, k) \<notin> set ?s" using k(3) keyset by force
    then have drop: "(fst e, k) \<in> set (drop 5 ?r)"
      using inr append_take_drop_id [of 5 ?r] by (metis Un_iff scored_ranking set_append)
    then have "5 < length ?r" by (metis drop_all empty_iff leI list.set(1))
    then have "length cands = 5" by (simp add: len scored_ranking)
    moreover have "score_order x \<le> score_order (fst e, k)" if "x \<in> set ?s" for x
    proof -
      have "sorted (map score_order (take 5 ?r) @ map score_order (drop 5 ?r))"
        using sorted_ranking [of now tr] by (metis append_take_drop_id map_append)
      with that drop show ?thesis by (auto simp: sorted_append scored_ranking)
    qed
    ultimately show ?thesis using mem by (metis fst_conv)
  qed
  have "st_hits tr' = filter (\<lambda>(k, _). k \<notin> sc_key ` set cands) (st_hits tr)"
    using assms(2) eq keyset by auto
  moreover have "tracker_inv tr'" using tracker_inv_drain [OF assms(1), of now] assms(2) by simp
  moreover have "fst (drain_candidates now (tr\<lparr>st_hits := hits\<rparr>)) = cands" if h: "mset hits = mset (st_hits tr)" for hits
  proof -
    let ?t = "tr\<lparr>st_hits := hits\<rparr>"
    have "set hits = set (st_hits tr)" using h by (metis set_mset_mset)
    moreover have "distinct (map fst hits)"
      using h assms(1) by (metis mset_eq_imp_distinct_iff mset_map tracker_inv_def)
    ultimately have "tracker_inv ?t" using assms(1) by (simp add: tracker_inv_def)
    then show ?thesis
      using drain_candidates_eq [of ?t now] scored_cong [of ?t tr now] h cands by simp
  qed
  ultimately show ?thesis using 1 mem rest by fast
qed

theorem drain_takes_the_best_witness:
  "length (fst (drain_candidates 9 \<lparr>st_hits = [(''k'', 3, 5)],
      st_requests = [(''k'', \<lparr>sc_key = ''k'', sc_argv = [''ls''], sc_cwd = ''/'', sc_env = []\<rparr>)]\<rparr>)) \<le> 5"
proof -
  let ?t = "\<lparr>st_hits = [(''k'', 3, 5)],
      st_requests = [(''k'', \<lparr>sc_key = ''k'', sc_argv = [''ls''], sc_cwd = ''/'', sc_env = []\<rparr>)]\<rparr>"
  have "tracker_inv ?t" by (simp add: tracker_inv_def)
  from drain_takes_the_best [OF this prod.collapse [symmetric]] show ?thesis by blast
qed

text \<open>
  Hits count however far apart they are. A command hit at any three or more instants is taken
  as a candidate when only the last hit is within the window: each hit restarts the window and
  none is ever forgotten.
\<close>

theorem old_hits_still_count:
  assumes "3 \<le> length ts" and "length ts < 2 ^ 32" and "now - last ts \<le> SPECULATION_WINDOW"
  shows "fst (drain_candidates now (foldl (\<lambda>tr t. record_hit t k argv cwd env tr) st_new ts)) =
    [\<lparr>sc_key = k, sc_argv = argv, sc_cwd = cwd, sc_env = env\<rparr>]"
proof -
  have "unat (of_nat (length ts) :: u32) = length ts"
    using assms(2) by (simp add: unat_of_nat)
  then have "(3 :: u32) \<le> of_nat (length ts)"
    using assms(1) by (simp add: word_le_nat_alt)
  then have "eligible now (of_nat (length ts), last ts)"
    using assms(3) by (simp add: eligible_def SPECULATION_THRESHOLD_def)
  moreover have "ts \<noteq> []" using assms(1) by auto
  ultimately show ?thesis
    by (simp add: record_hits drain_candidates_def scored_def SPECULATION_MAX_CANDIDATES_def)
qed

theorem old_hits_still_count_witness:
  "fst (drain_candidates (from_secs 7200) (foldl (\<lambda>tr t. record_hit t ''k'' [''ls''] ''/'' [] tr) st_new
      [0, from_secs 3600, from_secs 7200])) =
    [\<lparr>sc_key = ''k'', sc_argv = [''ls''], sc_cwd = ''/'', sc_env = []\<rparr>]"
  by (rule old_hits_still_count) simp_all

text \<open>
  The background task caches what it ran, failures included. For a candidate with no fresh
  entry whose command runs to a nonzero exit code, every lookup in the following TTL returns that
  failure, although the lock path never stores one.
\<close>

theorem speculation_caches_failures:
  assumes "cc_lookup c (ce_from_slice E) no_faults now d (sc_key cand) = Inr None"
    and "ce_fails E = no_faults" and "ce_from_slice E (ce_to_vec E r) = Some r"
    and "sc_argv cand \<noteq> []" and "exec (sc_argv cand) (sc_cwd cand) (sc_env cand) w = (SpecRan r, w')"
    and "cr_exit_code r \<noteq> 0" and "now \<le> t" and "t - now < cc_ttl c"
  shows "cc_lookup c (ce_from_slice E) no_faults t (fst (speculate_one c E exec now cand (d, w))) (sc_key cand)
    = Inr (Some r)"
proof -
  obtain d' where d': "cc_store c (ce_to_vec E) no_faults now d (sc_key cand) r = (Inr (), d')"
    "evicted c now (d\<lparr>cd_exists := True,
       cd_files := AList.update (entry_path (sc_key cand)) (ce_to_vec E r, now) (cd_files d)\<rparr>) d'"
    using store_no_faults by blast
  have "fst (speculate_one c E exec now cand (d, w)) = d'"
    using assms d'(1) by (cases "sc_argv cand") (simp_all add: speculate_one_def speculate_execute_def)
  then show ?thesis
    using assms by (simp add: lookup_evicted [OF d'(2) assms(7)] lookup_update)
qed

theorem speculation_caches_failures_witness:
  "let E = \<lparr>ce_to_vec = cr_stdout, ce_from_slice = (\<lambda>b. Some \<lparr>cr_exit_code = 2, cr_stdout = b, cr_stderr = []\<rparr>),
            ce_fails = no_faults, ce_answers = (\<lambda>_. Locked), ce_delays = (\<lambda>_. 0), ce_meanwhile = (\<lambda>_ d. d),
            ce_run_time = 0\<rparr>;
       cand = \<lparr>sc_key = ''k'', sc_argv = [''false''], sc_cwd = ''/'', sc_env = []\<rparr>
   in cc_lookup (cc_new ''/c'') (ce_from_slice E) no_faults 5
        (fst (speculate_one (cc_new ''/c'') E
           (\<lambda>_ _ _ w. (SpecRan \<lparr>cr_exit_code = 2, cr_stdout = [], cr_stderr = []\<rparr>, w)) 3 cand
           (\<lparr>cd_exists = False, cd_files = []\<rparr>, ()))) (sc_key cand)
      = Inr (Some \<lparr>cr_exit_code = 2, cr_stdout = [], cr_stderr = []\<rparr>)"
  unfolding Let_def
  by (rule speculation_caches_failures)
    (simp_all add: lookup_no_faults cc_new_def cc_with_options_def DEFAULT_TTL_def time_defs)

text \<open>
  C10: the coalescer loses no caller and answers none twice. Over every sequence of calls, group
  drains and returning executors, each caller so far is in exactly one pending or running group or
  has exactly one result; every result is the one its group's leader got; and the results come
  from no more executions than were run.
\<close>

theorem coalescer_serves_every_caller:
  fixes ops :: "'r co_op list"
  defines "s \<equiv> foldl co_step co_new ops"
  shows "mset (concat (map snd (co_pending s))) + mset (concat (co_flight s)) + mset (map fst (co_delivered s))
      = mset [0..<co_next s]
    \<and> (co_pending s = [] \<and> co_flight s = [] \<longrightarrow> mset (map fst (co_delivered s)) = mset [0..<co_next s])
    \<and> (\<forall>(i, l, r) \<in> set (co_delivered s). (l, l, r) \<in> set (co_delivered s))
    \<and> card {l. \<exists>i r. (i, l, r) \<in> set (co_delivered s)} \<le> co_execs s"
proof -
  have "co_inv s" unfolding s_def by (rule coal.run_inv) (rule co_inv_new)
  then show ?thesis unfolding co_inv_def co_callers_def by auto
qed

theorem coalescer_serves_every_caller_witness:
  "(0, 0, ''r'') \<in> set (co_delivered (foldl co_step co_new
      [Call ''k'', Call ''k'', DrainGroup ''k'', Finish 0 ''r'']))
   \<and> mset (map fst (co_delivered (foldl co_step co_new
      [Call ''k'', Call ''k'', DrainGroup ''k'', Finish 0 ''r'']))) = {#0, 1#}"
  using coalescer_serves_every_caller [of "[Call ''k'', Call ''k'', DrainGroup ''k'', Finish 0 ''r'']"]
  by (simp add: co_call_def co_drain_def co_finish_def co_new_def Let_def)

end
