(* ===== verification/FusePaths.thy ===== *)
theory FusePaths
  imports Paths
begin

text \<open>
  Paths of the file system intercept: the components of a path, the map between inode numbers and
  relative paths (\<open>crates/sharecli-fuse/src/inode_map.rs\<close>) and the translation of mount paths to
  backing paths (\<open>path_remap.rs\<close>). \<open>Path\<close> and \<open>PathBuf\<close> compare by components, so a path is the
  list of its components; the empty path is the empty list.
\<close>

section \<open>Components\<close>

datatype component = RootDir | CurDir | ParentDir | NormalC string

type_synonym path = "component list"

definition piece :: "string \<Rightarrow> component" where
  "piece p = (if p = ''..'' then ParentDir else NormalC p)"

text \<open>\<open>Path::components\<close>: repeated separators and inner dots vanish.\<close>

definition components :: "string \<Rightarrow> path" where
  "components s =
     (let absolute = starts_with s ''/'';
          ps = filter (\<lambda>p. p \<noteq> []) (split_on CHR ''/'' s)
      in (if absolute then [RootDir] else [])
         @ (case ps of
              [] \<Rightarrow> []
            | p # r \<Rightarrow> (if p = ''.'' then (if absolute then [] else [CurDir]) else [piece p])
                      @ map piece (filter (\<lambda>q. q \<noteq> ''.'') r)))"

definition is_absolute :: "path \<Rightarrow> bool" where
  "is_absolute p = (case p of RootDir # _ \<Rightarrow> True | _ \<Rightarrow> False)"

text \<open>\<open>Path::join\<close> and \<open>PathBuf::push\<close>.\<close>

definition comp_join :: "path \<Rightarrow> path \<Rightarrow> path" where
  "comp_join p q =
     (if is_absolute q then q else if p = [] then q else p @ filter (\<lambda>c. c \<noteq> CurDir) q)"

section \<open>Inodes\<close>

definition ROOT_INO :: u64 where
  "ROOT_INO = 1"

record inode_map =
  im_next_ino :: u64
  im_ino_to_rel :: "u64 \<rightharpoonup> path"
  im_rel_to_ino :: "path \<rightharpoonup> u64"

definition im_new :: inode_map where
  "im_new = \<lparr>im_next_ino = ROOT_INO + 1, im_ino_to_rel = [ROOT_INO \<mapsto> []], im_rel_to_ino = [[] \<mapsto> ROOT_INO]\<rparr>"

definition im_resolve :: "inode_map \<Rightarrow> u64 \<Rightarrow> path option" where
  "im_resolve m ino = im_ino_to_rel m ino"

definition alloc_or_get :: "path \<Rightarrow> inode_map \<Rightarrow> u64 \<times> inode_map" where
  "alloc_or_get rel m =
     (case im_rel_to_ino m rel of
        Some ino \<Rightarrow> (ino, m)
      | None \<Rightarrow>
          (let ino = im_next_ino m
           in (ino, m\<lparr>im_next_ino := sat_add (im_next_ino m) 1,
                      im_rel_to_ino := (im_rel_to_ino m)(rel \<mapsto> ino),
                      im_ino_to_rel := (im_ino_to_rel m)(ino \<mapsto> rel)\<rparr>)))"

text \<open>A name is the path it denotes.\<close>

definition join_rel :: "path \<Rightarrow> path \<Rightarrow> path" where
  "join_rel parent_rel name = (if parent_rel = [] then name else comp_join parent_rel name)"

definition abs_under :: "path \<Rightarrow> path \<Rightarrow> path" where
  "abs_under backing rel = (if rel = [] then backing else comp_join backing rel)"

definition child_rel :: "inode_map \<Rightarrow> u64 \<Rightarrow> path \<Rightarrow> path option" where
  "child_rel m parent name =
     (case im_resolve m parent of None \<Rightarrow> None | Some parent_rel \<Rightarrow> Some (join_rel parent_rel name))"

definition lookup_or_alloc :: "u64 \<Rightarrow> path \<Rightarrow> inode_map \<Rightarrow> (u64 \<times> path) option \<times> inode_map" where
  "lookup_or_alloc parent name m =
     (case child_rel m parent name of
        None \<Rightarrow> (None, m)
      | Some rel \<Rightarrow> (let (ino, m') = alloc_or_get rel m in (Some (ino, rel), m')))"

definition remove_rel :: "path \<Rightarrow> inode_map \<Rightarrow> inode_map" where
  "remove_rel rel m =
     (case im_rel_to_ino m rel of
        None \<Rightarrow> m
      | Some ino \<Rightarrow> m\<lparr>im_rel_to_ino := (im_rel_to_ino m)(rel := None),
                     im_ino_to_rel := (im_ino_to_rel m)(ino := None)\<rparr>)"

definition rename_rel :: "path \<Rightarrow> path \<Rightarrow> inode_map \<Rightarrow> inode_map" where
  "rename_rel old new m =
     (case im_rel_to_ino m old of
        None \<Rightarrow> m
      | Some ino \<Rightarrow> m\<lparr>im_rel_to_ino := ((im_rel_to_ino m)(old := None))(new \<mapsto> ino),
                     im_ino_to_rel := (im_ino_to_rel m)(ino \<mapsto> new)\<rparr>)"

definition abs_path :: "inode_map \<Rightarrow> path \<Rightarrow> u64 \<Rightarrow> path option" where
  "abs_path m backing ino =
     (case im_resolve m ino of None \<Rightarrow> None | Some rel \<Rightarrow> Some (abs_under backing rel))"

datatype inode_op = AllocRel path | LookupAlloc u64 path | RemoveRel path | RenameRel path path

fun inode_step :: "inode_map \<Rightarrow> inode_op \<Rightarrow> inode_map" where
  "inode_step m (AllocRel rel) = snd (alloc_or_get rel m)"
| "inode_step m (LookupAlloc parent name) = snd (lookup_or_alloc parent name m)"
| "inode_step m (RemoveRel rel) = remove_rel rel m"
| "inode_step m (RenameRel old new) = rename_rel old new m"

text \<open>
  A path's inode resolves to the path, and inodes from \<open>im_next_ino\<close> on are unused. The number of
  operations so far bounds the inodes given out.
\<close>

definition inode_inv :: "nat \<Rightarrow> inode_map \<Rightarrow> bool" where
  "inode_inv n m \<longleftrightarrow>
     (\<forall>rel ino. im_rel_to_ino m rel = Some ino \<longrightarrow> im_ino_to_rel m ino = Some rel)
     \<and> (\<forall>ino. im_next_ino m \<le> ino \<longrightarrow> im_ino_to_rel m ino = None)
     \<and> unat (im_next_ino m) \<le> 2 + n"

section \<open>From the mount to the backing tree\<close>

definition strip_mount_prefix :: "path \<Rightarrow> path \<Rightarrow> path option" where
  "strip_mount_prefix mountpoint p =
     (if length p < length mountpoint then (if p = mountpoint then Some [] else None)
      else if \<exists>(m, c) \<in> set (zip mountpoint p). m \<noteq> c then None
      else let rel_comps = drop (length mountpoint) p
           in if rel_comps = [] then Some []
              else Some (foldl (\<lambda>rel c. comp_join rel [c]) [] rel_comps))"

definition remap_mount_to_backing :: "path \<Rightarrow> path \<Rightarrow> path \<Rightarrow> path option" where
  "remap_mount_to_backing mountpoint backing p =
     (let abs_p = (if is_absolute p then p else comp_join mountpoint p)
      in case strip_mount_prefix mountpoint abs_p of
           None \<Rightarrow> None
         | Some rel \<Rightarrow> Some (abs_under backing rel))"

text \<open>An absolute path: the root, then names and parent steps.\<close>

definition is_step :: "component \<Rightarrow> bool" where
  "is_step c = (case c of NormalC _ \<Rightarrow> True | ParentDir \<Rightarrow> True | _ \<Rightarrow> False)"

definition wf_absolute :: "path \<Rightarrow> bool" where
  "wf_absolute p = (case p of RootDir # r \<Rightarrow> list_all is_step r | _ \<Rightarrow> False)"

section \<open>Inodes: lemmas\<close>

lemma inode_inv_new: "inode_inv 0 im_new"
proof -
  have "ino \<noteq> ROOT_INO" if "ROOT_INO + 1 \<le> ino" for ino :: u64
    using that by (auto simp: ROOT_INO_def word_le_nat_alt)
  then show ?thesis
    by (auto simp: inode_inv_def im_new_def) (simp add: ROOT_INO_def)
qed

lemma inode_inv_mono: "inode_inv n m \<Longrightarrow> n \<le> k \<Longrightarrow> inode_inv k m"
  by (auto simp: inode_inv_def)

lemma alloc_inv:
  assumes "inode_inv n m" and "n < 2 ^ 64 - 3"
  shows "inode_inv (Suc n) (snd (alloc_or_get rel m))"
proof (cases "im_rel_to_ino m rel")
  case (Some ino)
  with assms show ?thesis by (simp add: alloc_or_get_def inode_inv_mono)
next
  case None
  let ?i = "im_next_ino m"
  have b: "unat ?i \<le> 2 + n" using assms(1) by (simp add: inode_inv_def)
  then have next_ino: "unat (sat_add ?i 1) = unat ?i + 1"
    using assms(2) by (simp add: unat_sat_add)
  then have above: "?i \<le> ino \<and> ino \<noteq> ?i" if "sat_add ?i 1 \<le> ino" for ino
    using that by (auto simp: word_le_nat_alt)
  have unused: "im_ino_to_rel m ?i = None" using assms(1) by (simp add: inode_inv_def)
  have "im_rel_to_ino m r \<noteq> Some ?i" for r
    using assms(1) unused by (auto simp: inode_inv_def)
  with assms(1) None b next_ino above show ?thesis
    by (auto simp: alloc_or_get_def inode_inv_def Let_def)
qed

lemma lookup_or_alloc_inv:
  "inode_inv n m \<Longrightarrow> n < 2 ^ 64 - 3 \<Longrightarrow> inode_inv (Suc n) (snd (lookup_or_alloc parent name m))"
  using alloc_inv [of n m]
  by (auto simp: lookup_or_alloc_def inode_inv_mono split: option.splits prod.splits) (metis snd_conv)

lemma remove_inv: "inode_inv n m \<Longrightarrow> inode_inv n (remove_rel rel m)"
  by (auto simp: remove_rel_def inode_inv_def split: option.splits) (metis option.inject)

lemma rename_inv:
  assumes "inode_inv n m"
  shows "inode_inv n (rename_rel old new m)"
proof (cases "im_rel_to_ino m old")
  case None
  with assms show ?thesis by (simp add: rename_rel_def)
next
  case (Some i)
  then have res: "im_ino_to_rel m i = Some old" using assms by (simp add: inode_inv_def)
  have other: "ino \<noteq> i" if "im_rel_to_ino m r = Some ino" "r \<noteq> old" for r ino
    using assms res that by (auto simp: inode_inv_def)
  have "\<not> im_next_ino m \<le> i" using assms res by (auto simp: inode_inv_def)
  with Some assms other show ?thesis by (auto simp: rename_rel_def inode_inv_def)
qed

lemma inode_step_inv: "inode_inv n m \<Longrightarrow> n < 2 ^ 64 - 3 \<Longrightarrow> inode_inv (Suc n) (inode_step m x)"
  by (cases x) (simp_all add: alloc_inv lookup_or_alloc_inv remove_inv rename_inv inode_inv_mono [of n _ "Suc n"])

lemma inode_run_inv:
  "length ops < 2 ^ 64 - 3 \<Longrightarrow> inode_inv (length ops) (foldl inode_step im_new ops)"
proof (induction ops rule: rev_induct)
  case Nil
  then show ?case by (simp add: inode_inv_new)
next
  case (snoc x ops)
  then show ?case by (simp add: inode_step_inv)
qed

section \<open>Remapping: lemmas\<close>

lemma join_step: "is_step c \<Longrightarrow> comp_join p [c] = p @ [c]"
  by (cases c) (auto simp: comp_join_def is_absolute_def is_step_def)

lemma push_steps: "list_all is_step cs \<Longrightarrow> foldl (\<lambda>rel c. comp_join rel [c]) p cs = p @ cs"
  by (induction cs arbitrary: p) (auto simp: join_step)

lemma zip_differs:
  "length xs \<le> length ys \<Longrightarrow> (\<exists>(x, y) \<in> set (zip xs ys). x \<noteq> y) \<longleftrightarrow> take (length xs) ys \<noteq> xs"
proof (induction xs arbitrary: ys)
  case Nil
  then show ?case by simp
next
  case (Cons x xs)
  then show ?case by (cases ys) auto
qed

lemma join_steps:
  "list_all is_step cs \<Longrightarrow> p \<noteq> [] \<Longrightarrow> comp_join p cs = p @ cs"
proof -
  assume cs: "list_all is_step cs" and p: "p \<noteq> []"
  have "\<not> is_absolute cs" using cs by (cases cs) (auto simp: is_absolute_def is_step_def split: component.splits)
  moreover have "filter (\<lambda>c. c \<noteq> CurDir) cs = cs"
    using cs by (auto simp: list_all_iff is_step_def filter_id_conv split: component.splits)
  ultimately show ?thesis using p by (simp add: comp_join_def)
qed

lemma wf_absolute_tail:
  assumes "wf_absolute p" and "mp \<noteq> []"
  shows "list_all is_step (drop (length mp) p)"
  using assms by (cases p; cases mp) (auto simp: wf_absolute_def list_all_iff split: component.splits dest: in_set_dropD)

lemma wf_absolute_absolute: "wf_absolute p \<Longrightarrow> is_absolute p \<and> p \<noteq> []"
  by (auto simp: wf_absolute_def is_absolute_def split: list.splits component.splits)

lemma remap_eq:
  assumes "wf_absolute mp" and "wf_absolute bk" and "wf_absolute p"
  shows "remap_mount_to_backing mp bk p =
    (if take (length mp) p = mp then Some (bk @ drop (length mp) p) else None)"
proof (cases "length p < length mp")
  case True
  then have "take (length mp) p \<noteq> mp" by auto
  with True wf_absolute_absolute [OF assms(3)] show ?thesis
    by (auto simp: remap_mount_to_backing_def strip_mount_prefix_def)
next
  case False
  have steps: "list_all is_step (drop (length mp) p)"
    using assms(1,3) wf_absolute_absolute by (blast intro: wf_absolute_tail)
  have strip: "strip_mount_prefix mp p = (if take (length mp) p = mp then Some (drop (length mp) p) else None)"
    using False zip_differs [of mp p] push_steps [OF steps, of "[]"]
    by (simp add: strip_mount_prefix_def Let_def)
  show ?thesis
    using wf_absolute_absolute [OF assms(3)] wf_absolute_absolute [OF assms(2)] join_steps [OF steps, of bk]
    by (simp add: remap_mount_to_backing_def strip abs_under_def)
qed

lemma wf_absolute_swap:
  assumes "wf_absolute bk" and "list_all is_step rel"
  shows "wf_absolute (bk @ rel)"
  using assms by (cases bk) (auto simp: wf_absolute_def split: component.splits)

section \<open>Properties\<close>

text \<open>
  C11: over every sequence of inode operations, renames onto existing names included, the inode of
  a path resolves to that path, no two paths share an inode, a path keeps its inode while it is
  mapped, and a new path gets an inode that resolves to nothing else.
\<close>

theorem inode_map_consistent:
  assumes "length ops < 2 ^ 64 - 3"
  defines "m \<equiv> foldl inode_step im_new ops"
  shows "(\<forall>rel ino. im_rel_to_ino m rel = Some ino \<longrightarrow> im_resolve m ino = Some rel)
    \<and> (\<forall>r r' ino. im_rel_to_ino m r = Some ino \<and> im_rel_to_ino m r' = Some ino \<longrightarrow> r = r')
    \<and> (\<forall>rel ino. im_rel_to_ino m rel = Some ino \<longrightarrow> alloc_or_get rel m = (ino, m))
    \<and> (\<forall>rel. im_rel_to_ino m rel = None \<longrightarrow> im_resolve m (fst (alloc_or_get rel m)) = None)"
proof -
  have "inode_inv (length ops) m" unfolding m_def using assms(1) by (rule inode_run_inv)
  then have res: "im_rel_to_ino m rel = Some ino \<Longrightarrow> im_ino_to_rel m ino = Some rel"
    and new: "im_ino_to_rel m (im_next_ino m) = None" for rel ino
    by (simp_all add: inode_inv_def)
  from res have inj: "im_rel_to_ino m r = Some ino \<Longrightarrow> im_rel_to_ino m r' = Some ino \<Longrightarrow> r = r'" for r r' ino
    by (metis option.inject)
  show ?thesis
    using res new inj by (simp add: im_resolve_def alloc_or_get_def Let_def)
qed

theorem inode_map_consistent_witness:
  "im_resolve (foldl inode_step im_new [AllocRel [NormalC ''a''], RenameRel [NormalC ''a''] [NormalC ''b'']]) 2
     = Some [NormalC ''b'']"
proof -
  let ?m = "foldl inode_step im_new [AllocRel [NormalC ''a''], RenameRel [NormalC ''a''] [NormalC ''b'']]"
  have "im_rel_to_ino ?m [NormalC ''b''] = Some 2"
    by (simp add: alloc_or_get_def rename_rel_def im_new_def ROOT_INO_def)
  then show ?thesis
    using inode_map_consistent [of "[AllocRel [NormalC ''a''], RenameRel [NormalC ''a''] [NormalC ''b'']]"]
    by simp
qed

text \<open>
  A rename onto an existing name leaves the replaced file's inode behind: it resolves to the
  name it had, which by then is the name of the other file. And the rename of a directory leaves
  the inodes of the files in it at their old paths.
\<close>

theorem rename_leaves_stale_inodes:
  assumes "inode_inv n m" and "im_rel_to_ino m old = Some i" and "im_rel_to_ino m new = Some j"
    and "old \<noteq> new" and "im_rel_to_ino m (old @ child) = Some k" and "child \<noteq> []" and "new \<noteq> old @ child"
  shows "im_resolve (rename_rel old new m) j = Some new \<and> im_resolve (rename_rel old new m) i = Some new \<and> i \<noteq> j
    \<and> im_resolve (rename_rel old new m) k = Some (old @ child)"
proof -
  have "im_ino_to_rel m i = Some old" "im_ino_to_rel m j = Some new" "im_ino_to_rel m k = Some (old @ child)"
    using assms(1-3,5) by (simp_all add: inode_inv_def)
  moreover from this have "i \<noteq> j" "i \<noteq> k" using assms(4,6) by auto
  ultimately show ?thesis using assms(2) by (auto simp: rename_rel_def im_resolve_def)
qed

theorem rename_leaves_stale_inodes_witness:
  "let m = foldl inode_step im_new [AllocRel [NormalC ''a''], AllocRel [NormalC ''b''], AllocRel [NormalC ''a'', NormalC ''c'']]
   in im_resolve (rename_rel [NormalC ''a''] [NormalC ''b''] m) 3 = Some [NormalC ''b'']
      \<and> im_resolve (rename_rel [NormalC ''a''] [NormalC ''b''] m) 4 = Some [NormalC ''a'', NormalC ''c'']"
proof -
  let ?ops = "[AllocRel [NormalC ''a''], AllocRel [NormalC ''b''], AllocRel [NormalC ''a'', NormalC ''c'']]"
  let ?m = "foldl inode_step im_new ?ops"
  have inv: "inode_inv (length ?ops) ?m" by (rule inode_run_inv) simp
  have "im_rel_to_ino ?m [NormalC ''a''] = Some 2" "im_rel_to_ino ?m [NormalC ''b''] = Some 3"
    "im_rel_to_ino ?m ([NormalC ''a''] @ [NormalC ''c'']) = Some 4"
    by (simp_all add: alloc_or_get_def im_new_def ROOT_INO_def sat_add_def)
  from rename_leaves_stale_inodes [OF inv this(1,2) _ this(3)] show ?thesis by (simp add: Let_def)
qed

text \<open>
  For absolute mount, backing and path, the remapping replaces the mount's components by the
  backing's exactly when the path has all of them as a prefix, and is undefined otherwise; so a
  directory whose name merely starts with the mount's name is not matched. Remapping the result
  back gives the path again.
\<close>

theorem remap_replaces_prefix:
  assumes "wf_absolute mp" and "wf_absolute bk" and "wf_absolute p"
  shows "(\<forall>rel. p = mp @ rel \<longrightarrow>
      remap_mount_to_backing mp bk p = Some (bk @ rel) \<and> remap_mount_to_backing bk mp (bk @ rel) = Some p)
    \<and> ((\<nexists>rel. p = mp @ rel) \<longrightarrow> remap_mount_to_backing mp bk p = None)"
proof -
  have pre: "take (length mp) p = mp \<longleftrightarrow> (\<exists>rel. p = mp @ rel)"
    by (metis append_eq_conv_conj append_take_drop_id)
  have again: "remap_mount_to_backing bk mp (bk @ rel) = Some (mp @ rel)" if "p = mp @ rel" for rel
  proof -
    have "list_all is_step rel"
      using wf_absolute_tail [OF assms(3), of mp] wf_absolute_absolute [OF assms(1)] that by simp
    with assms show ?thesis by (simp add: remap_eq wf_absolute_swap)
  qed
  have "remap_mount_to_backing mp bk p = Some (bk @ rel)" if "p = mp @ rel" for rel
    using remap_eq [OF assms] that by simp
  with again pre remap_eq [OF assms] show ?thesis by auto
qed

theorem remap_replaces_prefix_witness:
  "remap_mount_to_backing (components ''/tmp/mount'') (components ''/home/p'') (components ''/tmp/mountextra/f'') = None
   \<and> remap_mount_to_backing (components ''/tmp/mount'') (components ''/home/p'') (components ''/tmp//mount/./f'')
       = Some (components ''/home/p/f'')"
proof -
  have c: "components ''/tmp/mount'' = [RootDir, NormalC ''tmp'', NormalC ''mount'']"
    "components ''/home/p'' = [RootDir, NormalC ''home'', NormalC ''p'']"
    "components ''/tmp/mountextra/f'' = [RootDir, NormalC ''tmp'', NormalC ''mountextra'', NormalC ''f'']"
    "components ''/tmp//mount/./f'' = [RootDir, NormalC ''tmp'', NormalC ''mount'', NormalC ''f'']"
    "components ''/home/p/f'' = [RootDir, NormalC ''home'', NormalC ''p'', NormalC ''f'']"
    by (simp_all add: components_def starts_with_def piece_def)
  have wf: "wf_absolute (components ''/tmp/mount'')" "wf_absolute (components ''/home/p'')"
    "wf_absolute (components ''/tmp/mountextra/f'')" "wf_absolute (components ''/tmp//mount/./f'')"
    by (simp_all add: c wf_absolute_def is_step_def)
  show ?thesis
    using remap_replaces_prefix [OF wf(1,2,3)] remap_replaces_prefix [OF wf(1,2,4)] by (simp add: c)
qed

text \<open>
  Parent steps are not resolved. A path that leaves the mount through them is remapped all
  the same, and the result leaves the backing tree by the same steps.
\<close>

theorem remap_follows_parent_steps:
  assumes "wf_absolute mp" and "wf_absolute bk" and "list_all is_step rel"
  shows "remap_mount_to_backing mp bk (mp @ ParentDir # rel) = Some (bk @ ParentDir # rel)"
proof -
  have "wf_absolute (mp @ ParentDir # rel)"
    using assms(1,3) by (intro wf_absolute_swap) (simp_all add: is_step_def)
  with assms(1,2) show ?thesis by (simp add: remap_eq)
qed

theorem remap_follows_parent_steps_witness:
  "remap_mount_to_backing [RootDir, NormalC ''m''] [RootDir, NormalC ''b''] ([RootDir, NormalC ''m''] @ ParentDir # [NormalC ''etc''])
     = Some ([RootDir, NormalC ''b''] @ ParentDir # [NormalC ''etc''])"
  by (rule remap_follows_parent_steps) (simp_all add: wf_absolute_def is_step_def)

end
