(* ===== verification/FileSystem.thy ===== *)
theory FileSystem
  imports FusePaths
begin

unbundle bit_operations_syntax

text \<open>
  The part of \<open>std::fs\<close> and of the operating system below it that the file system intercept calls:
  a tree of directories and regular files addressed by absolute path, with contents, permission
  bits, modification times and extended attributes. Symbolic links and the resolution of \<open>..\<close> by
  the kernel are left out: a path with such a component names nothing. A directory keeps the
  modification time of its creation. Every call may also fail with an error number chosen by the
  environment.
\<close>

section \<open>Errors\<close>

datatype error_kind =
    NotFound | PermissionDenied | AlreadyExists | NotADirectory | IsADirectory | DirectoryNotEmpty
  | CrossesDevices | InvalidInput | InvalidData | Uncategorized | OtherKind

record io_error =
  ie_kind :: error_kind
  ie_raw :: "nat option"

definition EPERM :: nat where "EPERM = 1"
definition ENOENT :: nat where "ENOENT = 2"
definition EIO :: nat where "EIO = 5"
definition EBUSY :: nat where "EBUSY = 16"
definition EEXIST :: nat where "EEXIST = 17"
definition EXDEV :: nat where "EXDEV = 18"
definition ENOTDIR :: nat where "ENOTDIR = 20"
definition EISDIR :: nat where "EISDIR = 21"
definition EINVAL :: nat where "EINVAL = 22"
definition ENOTEMPTY :: nat where "ENOTEMPTY = 39"

lemmas errno_defs = EPERM_def ENOENT_def EIO_def EBUSY_def EEXIST_def EXDEV_def ENOTDIR_def EISDIR_def
  EINVAL_def ENOTEMPTY_def

definition decode_error_kind :: "nat \<Rightarrow> error_kind" where
  "decode_error_kind n =
     (if n = ENOENT then NotFound
      else if n = EPERM then PermissionDenied
      else if n = EEXIST then AlreadyExists
      else if n = EXDEV then CrossesDevices
      else if n = ENOTDIR then NotADirectory
      else if n = EISDIR then IsADirectory
      else if n = EINVAL then InvalidInput
      else if n = ENOTEMPTY then DirectoryNotEmpty
      else Uncategorized)"

definition os_error :: "nat \<Rightarrow> io_error" where
  "os_error n = \<lparr>ie_kind = decode_error_kind n, ie_raw = Some n\<rparr>"

text \<open>\<open>io::Error::new\<close>: an error made by the program carries no error number.\<close>

definition io_error_new :: "error_kind \<Rightarrow> io_error" where
  "io_error_new k = \<lparr>ie_kind = k, ie_raw = None\<rparr>"

section \<open>The tree\<close>

type_synonym bytes = "u8 list"

datatype node =
    DirN (nd_mode: u32) (nd_mtime: nat)
  | FileN (nd_data: bytes) (nd_mode: u32) (nd_mtime: nat) (nd_attrs: "(string \<times> bytes) list")

type_synonym fs = "(path \<times> node) list"

fun is_dirn :: "node \<Rightarrow> bool" where
  "is_dirn (DirN _ _) = True"
| "is_dirn (FileN _ _ _ _) = False"

datatype fs_call =
    Stat | ReadFile | OpenWrite | WriteAll | SetLen | Chmod | Mkdir | OpenNew | CreateTrunc | SyncAll
  | Unlink | Rmdir | RenameCall | CopyCall | ReadDir | SetAttr string | GetAttr string

text \<open>What the operating system reports of a file beyond its contents.\<close>

record os_stat =
  os_blocks :: u64
  os_atime :: "nat option"
  os_nlink :: u64
  os_uid :: u32
  os_gid :: u32
  os_rdev :: u64

text \<open>
  The environment of one operation: the faults it meets, the clock, the umask of the process, and
  the translation of an \<open>io::Error\<close> to the error number of the reply.
\<close>

record os_env =
  oe_fault :: "fs_call \<Rightarrow> path \<Rightarrow> nat option"
  oe_now :: nat
  oe_umask :: u32
  oe_stat :: "path \<Rightarrow> os_stat"
  oe_errno :: "io_error \<Rightarrow> nat"

record metadata =
  md_node :: node
  md_stat :: os_stat

definition md_is_dir :: "metadata \<Rightarrow> bool" where
  "md_is_dir m = is_dirn (md_node m)"

definition md_len :: "metadata \<Rightarrow> nat" where
  "md_len m = (case md_node m of DirN _ _ \<Rightarrow> 0 | FileN d _ _ _ \<Rightarrow> length d)"

definition md_modified :: "metadata \<Rightarrow> nat" where
  "md_modified m = nd_mtime (md_node m)"

definition md_mode :: "metadata \<Rightarrow> u32" where
  "md_mode m = (if md_is_dir m then 0x4000 else 0x8000) OR nd_mode (md_node m)"

type_synonym 'a io = "(io_error + 'a) \<times> fs"

definition guarded :: "os_env \<Rightarrow> fs_call \<Rightarrow> path \<Rightarrow> fs \<Rightarrow> 'a io \<Rightarrow> 'a io" where
  "guarded E call p fs r = (case oe_fault E call p of Some n \<Rightarrow> (Inl (os_error n), fs) | None \<Rightarrow> r)"

definition no_fault :: "os_env \<Rightarrow> bool" where
  "no_fault E \<longleftrightarrow> (\<forall>call p. oe_fault E call p = None)"

text \<open>Why a path that names nothing cannot be resolved.\<close>

definition missing_errno :: "fs \<Rightarrow> path \<Rightarrow> nat" where
  "missing_errno fs p =
     (if \<exists>i \<in> {1..<length p}. (case map_of fs (take i p) of Some n \<Rightarrow> \<not> is_dirn n | None \<Rightarrow> False)
      then ENOTDIR else ENOENT)"

definition parent_errno :: "fs \<Rightarrow> path \<Rightarrow> nat option" where
  "parent_errno fs p =
     (case map_of fs (butlast p) of
        None \<Rightarrow> Some (missing_errno fs p)
      | Some n \<Rightarrow> if is_dirn n then None else Some ENOTDIR)"

definition has_children :: "fs \<Rightarrow> path \<Rightarrow> bool" where
  "has_children fs p \<longleftrightarrow> list_ex (\<lambda>(q, _). starts_with q p \<and> q \<noteq> p) fs"

section \<open>Operations\<close>

definition fs_metadata :: "os_env \<Rightarrow> fs \<Rightarrow> path \<Rightarrow> io_error + metadata" where
  "fs_metadata E fs p =
     fst (guarded E Stat p fs
       ((case map_of fs p of
           None \<Rightarrow> Inl (os_error (missing_errno fs p))
         | Some n \<Rightarrow> Inr \<lparr>md_node = n, md_stat = oe_stat E p\<rparr>), fs))"

definition path_exists :: "os_env \<Rightarrow> fs \<Rightarrow> path \<Rightarrow> bool" where
  "path_exists E fs p = (case fs_metadata E fs p of Inr _ \<Rightarrow> True | Inl _ \<Rightarrow> False)"

definition path_is_dir :: "os_env \<Rightarrow> fs \<Rightarrow> path \<Rightarrow> bool" where
  "path_is_dir E fs p = (case fs_metadata E fs p of Inr m \<Rightarrow> md_is_dir m | Inl _ \<Rightarrow> False)"

definition fs_read :: "os_env \<Rightarrow> fs \<Rightarrow> path \<Rightarrow> io_error + bytes" where
  "fs_read E fs p =
     fst (guarded E ReadFile p fs
       ((case map_of fs p of
           None \<Rightarrow> Inl (os_error (missing_errno fs p))
         | Some (DirN _ _) \<Rightarrow> Inl (os_error EISDIR)
         | Some (FileN d _ _ _) \<Rightarrow> Inr d), fs))"

text \<open>A change of an existing regular file.\<close>

definition on_file :: "os_env \<Rightarrow> fs_call \<Rightarrow> (node \<Rightarrow> node) \<Rightarrow> path \<Rightarrow> fs \<Rightarrow> unit io" where
  "on_file E call f p fs =
     guarded E call p fs
       (case map_of fs p of
          None \<Rightarrow> (Inl (os_error (missing_errno fs p)), fs)
        | Some n \<Rightarrow> if is_dirn n then (Inl (os_error EISDIR), fs) else (Inr (), AList.update p (f n) fs))"

definition open_write :: "os_env \<Rightarrow> path \<Rightarrow> fs \<Rightarrow> unit io" where
  "open_write E p fs = on_file E OpenWrite (\<lambda>n. n) p fs"

text \<open>A write at an offset: a gap before it is filled with zeros.\<close>

definition splice :: "nat \<Rightarrow> bytes \<Rightarrow> bytes \<Rightarrow> bytes" where
  "splice offset new old =
     (if new = [] then old
      else take offset old @ replicate (offset - length old) 0 @ new @ drop (offset + length new) old)"

fun write_node :: "nat \<Rightarrow> nat \<Rightarrow> bytes \<Rightarrow> node \<Rightarrow> node" where
  "write_node now offset new (FileN d mode t xs) =
     (if new = [] then FileN d mode t xs else FileN (splice offset new d) mode now xs)"
| "write_node now offset new (DirN mode t) = DirN mode t"

definition seek_start :: "nat \<Rightarrow> io_error + unit" where
  "seek_start offset = (if offset < 2 ^ 63 then Inr () else Inl (os_error EINVAL))"

definition write_all_at :: "os_env \<Rightarrow> nat \<Rightarrow> bytes \<Rightarrow> path \<Rightarrow> fs \<Rightarrow> unit io" where
  "write_all_at E offset new p fs = on_file E WriteAll (write_node (oe_now E) offset new) p fs"

fun set_len_node :: "nat \<Rightarrow> nat \<Rightarrow> node \<Rightarrow> node" where
  "set_len_node now sz (FileN d mode t xs) =
     FileN (take sz d @ replicate (sz - length d) 0) mode now xs"
| "set_len_node now sz (DirN mode t) = DirN mode t"

definition set_len :: "os_env \<Rightarrow> nat \<Rightarrow> path \<Rightarrow> fs \<Rightarrow> unit io" where
  "set_len E sz p fs =
     (if sz < 2 ^ 63 then on_file E SetLen (set_len_node (oe_now E) sz) p fs
      else (Inl (os_error EINVAL), fs))"

fun chmod_node :: "u32 \<Rightarrow> node \<Rightarrow> node" where
  "chmod_node mode (FileN d _ t xs) = FileN d (mode AND 0xFFF) t xs"
| "chmod_node mode (DirN _ t) = DirN (mode AND 0xFFF) t"

definition set_permissions :: "os_env \<Rightarrow> u32 \<Rightarrow> path \<Rightarrow> fs \<Rightarrow> unit io" where
  "set_permissions E mode p fs =
     guarded E Chmod p fs
       (case map_of fs p of
          None \<Rightarrow> (Inl (os_error (missing_errno fs p)), fs)
        | Some n \<Rightarrow> (Inr (), AList.update p (chmod_node mode n) fs))"

definition make_node :: "os_env \<Rightarrow> fs_call \<Rightarrow> node \<Rightarrow> path \<Rightarrow> fs \<Rightarrow> unit io" where
  "make_node E call n p fs =
     guarded E call p fs
       (if map_of fs p \<noteq> None then (Inl (os_error EEXIST), fs)
        else case parent_errno fs p of
          Some e \<Rightarrow> (Inl (os_error e), fs)
        | None \<Rightarrow> (Inr (), AList.update p n fs))"

definition create_dir :: "os_env \<Rightarrow> path \<Rightarrow> fs \<Rightarrow> unit io" where
  "create_dir E p fs = make_node E Mkdir (DirN (0x1FF AND NOT (oe_umask E)) (oe_now E)) p fs"

definition create_new :: "os_env \<Rightarrow> u32 \<Rightarrow> path \<Rightarrow> fs \<Rightarrow> unit io" where
  "create_new E mode p fs =
     make_node E OpenNew (FileN [] (mode AND 0xFFF AND NOT (oe_umask E)) (oe_now E) []) p fs"

text \<open>\<open>fs::create_dir_all\<close>: the directory is tried first, its ancestors when it has none.\<close>

function create_dir_all :: "os_env \<Rightarrow> path \<Rightarrow> fs \<Rightarrow> unit io" where
  "create_dir_all E p fs =
     (if p = [] then (Inr (), fs)
      else case create_dir E p fs of
        (Inr _, fs') \<Rightarrow> (Inr (), fs')
      | (Inl e, _) \<Rightarrow>
          if ie_kind e \<noteq> NotFound then ((if path_is_dir E fs p then Inr () else Inl e), fs)
          else if p = [RootDir] then (Inl (io_error_new Uncategorized), fs)
          else (case create_dir_all E (butlast p) fs of
                  (Inl e', fs') \<Rightarrow> (Inl e', fs')
                | (Inr _, fs') \<Rightarrow>
                    (case create_dir E p fs' of
                       (Inr _, fs'') \<Rightarrow> (Inr (), fs'')
                     | (Inl e', _) \<Rightarrow> ((if path_is_dir E fs' p then Inr () else Inl e'), fs'))))"
  by pat_completeness auto
termination
  by (relation "measure (\<lambda>(E, p, fs). length p)") auto

declare create_dir_all.simps [simp del]

definition parent_path :: "path \<Rightarrow> path option" where
  "parent_path p = (if p = [] \<or> p = [RootDir] then None else Some (butlast p))"

text \<open>The parent's directories of a file to be made.\<close>

definition create_parent_dirs :: "os_env \<Rightarrow> path \<Rightarrow> fs \<Rightarrow> unit io" where
  "create_parent_dirs E p fs =
     (case parent_path p of None \<Rightarrow> (Inr (), fs) | Some q \<Rightarrow> create_dir_all E q fs)"

text \<open>\<open>File::create\<close>: an existing file is emptied.\<close>

fun truncate_node :: "nat \<Rightarrow> node \<Rightarrow> node" where
  "truncate_node now (FileN d mode t xs) = FileN [] mode now xs"
| "truncate_node now (DirN mode t) = DirN mode t"

definition file_create :: "os_env \<Rightarrow> path \<Rightarrow> fs \<Rightarrow> unit io" where
  "file_create E p fs =
     (if map_of fs p = None
      then make_node E CreateTrunc (FileN [] (0x1B6 AND NOT (oe_umask E)) (oe_now E) []) p fs
      else on_file E CreateTrunc (truncate_node (oe_now E)) p fs)"

definition remove_file :: "os_env \<Rightarrow> path \<Rightarrow> fs \<Rightarrow> unit io" where
  "remove_file E p fs =
     guarded E Unlink p fs
       (case map_of fs p of
          None \<Rightarrow> (Inl (os_error (missing_errno fs p)), fs)
        | Some n \<Rightarrow> if is_dirn n then (Inl (os_error EISDIR), fs) else (Inr (), AList.delete p fs))"

definition remove_dir :: "os_env \<Rightarrow> path \<Rightarrow> fs \<Rightarrow> unit io" where
  "remove_dir E p fs =
     guarded E Rmdir p fs
       (case map_of fs p of
          None \<Rightarrow> (Inl (os_error (missing_errno fs p)), fs)
        | Some n \<Rightarrow>
            if \<not> is_dirn n then (Inl (os_error ENOTDIR), fs)
            else if p = [RootDir] then (Inl (os_error EBUSY), fs)
            else if has_children fs p then (Inl (os_error ENOTEMPTY), fs)
            else (Inr (), AList.delete p fs))"

text \<open>A rename moves everything below the old path; what was at the new path is gone.\<close>

definition move_tree :: "path \<Rightarrow> path \<Rightarrow> fs \<Rightarrow> fs" where
  "move_tree old new fs =
     map (\<lambda>(p, n). (if starts_with p old then new @ drop (length old) p else p, n))
       (filter (\<lambda>(p, _). \<not> starts_with p new) fs)"

definition fs_rename :: "os_env \<Rightarrow> path \<Rightarrow> path \<Rightarrow> fs \<Rightarrow> unit io" where
  "fs_rename E old new fs =
     guarded E RenameCall old fs
       (case map_of fs old of
          None \<Rightarrow> (Inl (os_error (missing_errno fs old)), fs)
        | Some n \<Rightarrow>
            if old = new then (Inr (), fs)
            else if starts_with new old then (Inl (os_error EINVAL), fs)
            else if starts_with old new then (Inl (os_error ENOTEMPTY), fs)
            else case parent_errno fs new of
              Some e \<Rightarrow> (Inl (os_error e), fs)
            | None \<Rightarrow>
                (case map_of fs new of
                   None \<Rightarrow> (Inr (), move_tree old new fs)
                 | Some d \<Rightarrow>
                     if is_dirn n \<and> \<not> is_dirn d then (Inl (os_error ENOTDIR), fs)
                     else if \<not> is_dirn n \<and> is_dirn d then (Inl (os_error EISDIR), fs)
                     else if is_dirn d \<and> has_children fs new then (Inl (os_error ENOTEMPTY), fs)
                     else (Inr (), move_tree old new fs)))"

text \<open>\<open>fs::copy\<close> of a regular file: contents and permission bits.\<close>

fun overwrite_node :: "nat \<Rightarrow> bytes \<Rightarrow> u32 \<Rightarrow> node \<Rightarrow> node" where
  "overwrite_node now d mode (FileN _ _ _ xs) = FileN d mode now xs"
| "overwrite_node now d mode (DirN m t) = DirN m t"

definition fs_copy :: "os_env \<Rightarrow> path \<Rightarrow> path \<Rightarrow> fs \<Rightarrow> unit io" where
  "fs_copy E src dst fs =
     (case map_of fs src of
        None \<Rightarrow> (Inl (os_error (missing_errno fs src)), fs)
      | Some (DirN _ _) \<Rightarrow> (Inl (io_error_new InvalidInput), fs)
      | Some (FileN d mode _ _) \<Rightarrow>
          (if map_of fs dst = None then make_node E CopyCall (FileN d mode (oe_now E) []) dst fs
           else on_file E CopyCall (overwrite_node (oe_now E) d mode) dst fs))"

text \<open>\<open>fs::read_dir\<close>: the names directly below a directory, with their metadata.\<close>

definition child_names :: "fs \<Rightarrow> path \<Rightarrow> component list" where
  "child_names fs p =
     remdups (map last (filter (\<lambda>q. q \<noteq> [] \<and> butlast q = p \<and> q \<noteq> p) (map fst fs)))"

definition read_dir :: "os_env \<Rightarrow> fs \<Rightarrow> path \<Rightarrow> io_error + component list" where
  "read_dir E fs p =
     fst (guarded E ReadDir p fs
       ((case map_of fs p of
           None \<Rightarrow> Inl (os_error (missing_errno fs p))
         | Some n \<Rightarrow> if is_dirn n then Inr (child_names fs p) else Inl (os_error ENOTDIR)), fs))"

text \<open>\<open>File::sync_all\<close> on a file that was just written.\<close>

definition sync_all :: "os_env \<Rightarrow> path \<Rightarrow> fs \<Rightarrow> unit io" where
  "sync_all E p fs = guarded E SyncAll p fs (Inr (), fs)"

section \<open>Extended attributes\<close>

text \<open>Only regular files carry attributes here; the intercept sets them on nothing else.\<close>

fun set_attr_node :: "string \<Rightarrow> bytes \<Rightarrow> node \<Rightarrow> node" where
  "set_attr_node k v (FileN d mode t xs) = FileN d mode t (AList.update k v xs)"
| "set_attr_node k v (DirN mode t) = DirN mode t"

definition xattr_set :: "os_env \<Rightarrow> string \<Rightarrow> bytes \<Rightarrow> path \<Rightarrow> fs \<Rightarrow> unit io" where
  "xattr_set E k v p fs = on_file E (SetAttr k) (set_attr_node k v) p fs"

definition xattr_get :: "os_env \<Rightarrow> fs \<Rightarrow> path \<Rightarrow> string \<Rightarrow> io_error + bytes option" where
  "xattr_get E fs p k =
     fst (guarded E (GetAttr k) p fs
       ((case map_of fs p of
           None \<Rightarrow> Inl (os_error (missing_errno fs p))
         | Some (DirN _ _) \<Rightarrow> Inr None
         | Some (FileN _ _ _ xs) \<Rightarrow> Inr (map_of xs k)), fs))"

section \<open>Lemmas\<close>

named_theorems fs_ops \<open>successful file system calls\<close>

lemma map_of_update_fs [simp]: "map_of (AList.update p n fs) q = (if q = p then Some n else map_of fs q)"
  by (simp add: update_conv')

lemma map_of_delete_fs [simp]: "map_of (AList.delete p fs) q = (if q = p then None else map_of fs q)"
  by (simp add: delete_conv')

lemma guarded_Inr: "guarded E c p fs r = (Inr x, fs') \<longleftrightarrow> oe_fault E c p = None \<and> r = (Inr x, fs')"
  by (auto simp: guarded_def split: option.splits)

lemma guarded_no_fault [simp]: "no_fault E \<Longrightarrow> guarded E c p fs r = r"
  by (simp add: guarded_def no_fault_def)

lemma on_file_Inr [fs_ops]:
  "on_file E c f p fs = (Inr x, fs') \<longleftrightarrow>
     oe_fault E c p = None \<and> (\<exists>n. map_of fs p = Some n \<and> \<not> is_dirn n \<and> fs' = AList.update p (f n) fs)"
  by (auto simp: on_file_def guarded_Inr split: option.splits)

lemma make_node_Inr [fs_ops]:
  "make_node E c n p fs = (Inr x, fs') \<longleftrightarrow>
     oe_fault E c p = None \<and> parent_errno fs p = None \<and> map_of fs p = None \<and> fs' = AList.update p n fs"
  by (auto simp: make_node_def guarded_Inr split: option.splits)

lemma remove_file_Inr [fs_ops]:
  "remove_file E p fs = (Inr x, fs') \<longleftrightarrow>
     oe_fault E Unlink p = None \<and> (\<exists>n. map_of fs p = Some n \<and> \<not> is_dirn n \<and> fs' = AList.delete p fs)"
  by (auto simp: remove_file_def guarded_Inr split: option.splits)

lemma remove_dir_Inr [fs_ops]:
  "remove_dir E p fs = (Inr x, fs') \<longleftrightarrow>
     oe_fault E Rmdir p = None \<and> (\<exists>n. map_of fs p = Some n \<and> is_dirn n) \<and> p \<noteq> [RootDir] \<and> \<not> has_children fs p
     \<and> fs' = AList.delete p fs"
  by (auto simp: remove_dir_def guarded_Inr split: option.splits)

lemma set_permissions_Inr [fs_ops]:
  "set_permissions E mode p fs = (Inr x, fs') \<longleftrightarrow>
     oe_fault E Chmod p = None \<and> (\<exists>n. map_of fs p = Some n \<and> fs' = AList.update p (chmod_node mode n) fs)"
  by (auto simp: set_permissions_def guarded_Inr split: option.splits)

text \<open>A call that fails changes nothing.\<close>

lemma guarded_Inl: "guarded E c p fs r = (Inl e, fs') \<Longrightarrow> (r = (Inl e, fs') \<Longrightarrow> fs' = fs) \<Longrightarrow> fs' = fs"
  by (auto simp: guarded_def split: option.splits)

lemma on_file_Inl: "on_file E c f p fs = (Inl e, fs') \<Longrightarrow> fs' = fs"
  unfolding on_file_def by (erule guarded_Inl) (auto split: option.splits if_splits)

lemma make_node_Inl: "make_node E c n p fs = (Inl e, fs') \<Longrightarrow> fs' = fs"
  unfolding make_node_def by (erule guarded_Inl) (auto split: option.splits if_splits)

lemma set_permissions_Inl: "set_permissions E mode p fs = (Inl e, fs') \<Longrightarrow> fs' = fs"
  unfolding set_permissions_def by (erule guarded_Inl) (auto split: option.splits if_splits)

lemma remove_file_Inl: "remove_file E p fs = (Inl e, fs') \<Longrightarrow> fs' = fs"
  unfolding remove_file_def by (erule guarded_Inl) (auto split: option.splits if_splits)

lemma remove_dir_Inl: "remove_dir E p fs = (Inl e, fs') \<Longrightarrow> fs' = fs"
  unfolding remove_dir_def by (erule guarded_Inl) (auto split: option.splits if_splits)

lemma fs_rename_Inl: "fs_rename E old new fs = (Inl e, fs') \<Longrightarrow> fs' = fs"
  unfolding fs_rename_def by (erule guarded_Inl) (auto split: option.splits if_splits)

lemma set_len_Inl: "set_len E sz p fs = (Inl e, fs') \<Longrightarrow> fs' = fs"
  by (auto simp: set_len_def dest: on_file_Inl split: if_splits)

lemma file_create_Inl: "file_create E p fs = (Inl e, fs') \<Longrightarrow> fs' = fs"
  by (auto simp: file_create_def dest: on_file_Inl make_node_Inl split: if_splits)

lemma fs_copy_Inl: "fs_copy E src dst fs = (Inl e, fs') \<Longrightarrow> fs' = fs"
  by (auto simp: fs_copy_def dest: on_file_Inl make_node_Inl split: option.splits node.splits if_splits)

lemmas fs_Inl = on_file_Inl make_node_Inl set_permissions_Inl remove_file_Inl remove_dir_Inl
  fs_rename_Inl set_len_Inl file_create_Inl fs_copy_Inl

lemma starts_with_refl [simp]: "starts_with p p"
  by (simp add: starts_with_def)

lemma starts_with_append [simp]: "starts_with (p @ r) p"
  by (simp add: starts_with_def)

lemma starts_with_split: "starts_with q p \<Longrightarrow> q = p @ drop (length p) q"
  by (metis append_take_drop_id starts_with_def)

lemma map_of_move_tree:
  assumes "\<not> starts_with old new" and "\<not> starts_with new old"
  shows "map_of (move_tree old new fs) q =
    (if starts_with q new then map_of fs (old @ drop (length new) q)
     else if starts_with q old then None
     else map_of fs q)"
proof (induction fs)
  case Nil
  then show ?case by (simp add: move_tree_def)
next
  case (Cons x fs)
  obtain p n where x: "x = (p, n)" by (cases x)
  have both: "\<not> (starts_with p' old \<and> starts_with p' new)" for p'
    using assms by (auto simp: starts_with_iff append_eq_append_conv2)
  have eq: "new @ drop (length old) p = q \<longleftrightarrow> starts_with q new \<and> p = old @ drop (length new) q"
    if "starts_with p old"
    using starts_with_split [OF that] by (auto dest: starts_with_split)
  have other: "\<not> starts_with p old \<Longrightarrow> old @ r \<noteq> p" for r by auto
  show ?case
    using Cons both [of p] both [of q] eq other
    by (auto simp: move_tree_def x)
qed

lemma fs_rename_Inr:
  assumes "fs_rename E old new fs = (Inr x, fs')"
  shows "oe_fault E RenameCall old = None \<and> (\<exists>n. map_of fs old = Some n)
    \<and> (old = new \<and> fs' = fs
       \<or> \<not> starts_with old new \<and> \<not> starts_with new old \<and> parent_errno fs new = None \<and> fs' = move_tree old new fs)"
  using assms by (auto simp: fs_rename_def guarded_Inr split: option.splits if_splits)

text \<open>\<open>create_dir_all\<close> only adds directories, on the way to its path.\<close>

definition grown :: "path \<Rightarrow> fs \<Rightarrow> fs \<Rightarrow> bool" where
  "grown p fs fs' \<longleftrightarrow>
     (\<forall>q n. map_of fs q = Some n \<longrightarrow> map_of fs' q = Some n)
     \<and> (\<forall>q n. map_of fs' q = Some n \<longrightarrow> map_of fs q = Some n \<or> is_dirn n \<and> starts_with p q)"

lemma grown_refl [simp]: "grown p fs fs"
  by (simp add: grown_def)

lemma grown_trans: "grown p fs fs' \<Longrightarrow> grown p fs' fs'' \<Longrightarrow> grown p fs fs''"
  unfolding grown_def by blast

lemma starts_with_trans: "starts_with q p \<Longrightarrow> starts_with p r \<Longrightarrow> starts_with q r"
  by (auto simp: starts_with_iff)

lemma starts_with_butlast: "starts_with p (butlast p)"
  by (cases p rule: rev_cases) (simp_all add: starts_with_def)

lemma grown_deeper: "grown (butlast p) fs fs' \<Longrightarrow> grown p fs fs'"
  using starts_with_trans [OF starts_with_butlast] unfolding grown_def by blast

lemma grown_add: "map_of fs p = None \<Longrightarrow> is_dirn n \<Longrightarrow> grown p fs (AList.update p n fs)"
  by (auto simp: grown_def)

lemma create_dir_grown: "create_dir E p fs = (r, fs') \<Longrightarrow> grown p fs fs'"
  by (cases r) (auto simp: create_dir_def fs_ops dest: make_node_Inl intro: grown_add)

lemma create_dir_all_grown: "create_dir_all E p fs = (r, fs') \<Longrightarrow> grown p fs fs'"
proof (induction E p fs arbitrary: r fs' rule: create_dir_all.induct)
  case (1 E p fs)
  note res = "1.prems" [unfolded create_dir_all.simps [of E p fs]]
  obtain r1 fs1 where first: "create_dir E p fs = (r1, fs1)" by (cases "create_dir E p fs")
  obtain r2 fs2 where second: "create_dir_all E (butlast p) fs = (r2, fs2)"
    by (cases "create_dir_all E (butlast p) fs")
  obtain r3 fs3 where third: "create_dir E p fs2 = (r3, fs3)" by (cases "create_dir E p fs2")
  consider "p = []" | u where "p \<noteq> []" "r1 = Inr u"
    | e where "p \<noteq> []" "r1 = Inl e" "ie_kind e \<noteq> NotFound \<or> p = [RootDir]"
    | e where "p \<noteq> []" "r1 = Inl e" "ie_kind e = NotFound" "p \<noteq> [RootDir]"
    by (cases r1) blast+
  then show ?case
  proof cases
    case 1
    with res show ?thesis by simp
  next
    case (2 u)
    with res first show ?thesis by (simp add: create_dir_grown)
  next
    case (3 e)
    with res first have "fs' = fs" by (simp split: if_splits)
    then show ?thesis by simp
  next
    case (4 e)
    have g: "grown p fs fs2"
      using "1.IH" [OF 4(1) first [symmetric] 4(2) _ 4(4) second] 4(3) by (simp add: grown_deeper)
    have "grown p fs fs3" using g create_dir_grown [OF third] by (rule grown_trans)
    moreover have "fs' = fs2 \<or> fs' = fs3"
      using res first second third 4 by (cases r2; cases r3) (simp_all split: if_splits)
    ultimately show ?thesis using g by blast
  qed
qed

lemma create_parent_dirs_grown:
  "create_parent_dirs E p fs = (r, fs') \<Longrightarrow> grown (butlast p) fs fs'"
  by (auto simp: create_parent_dirs_def parent_path_def split: option.splits if_splits
    dest: create_dir_all_grown)

lemma create_dir_all_present:
  "map_of fs p = Some n \<Longrightarrow> is_dirn n \<Longrightarrow> oe_fault E Stat p = None \<Longrightarrow> oe_fault E Mkdir p = None \<Longrightarrow>
   create_dir_all E p fs = (Inr (), fs)"
  by (subst create_dir_all.simps)
    (simp add: create_dir_def make_node_def guarded_def path_is_dir_def fs_metadata_def md_is_dir_def
      os_error_def decode_error_kind_def errno_defs)

lemma fs_metadata_eq:
  "oe_fault E Stat p = None \<Longrightarrow>
   fs_metadata E fs p = (case map_of fs p of
      None \<Rightarrow> Inl (os_error (missing_errno fs p))
    | Some n \<Rightarrow> Inr \<lparr>md_node = n, md_stat = oe_stat E p\<rparr>)"
  by (simp add: fs_metadata_def guarded_def)

lemma fs_metadata_Inr:
  "fs_metadata E fs p = Inr m \<longleftrightarrow>
     oe_fault E Stat p = None \<and> (\<exists>n. map_of fs p = Some n \<and> m = \<lparr>md_node = n, md_stat = oe_stat E p\<rparr>)"
  by (auto simp: fs_metadata_def guarded_def split: option.splits)

lemma fs_read_Inr:
  "fs_read E fs p = Inr d \<longleftrightarrow>
     oe_fault E ReadFile p = None \<and> (\<exists>mode t xs. map_of fs p = Some (FileN d mode t xs))"
  by (auto simp: fs_read_def guarded_def split: option.splits node.splits)

lemma not_is_dirn: "\<not> is_dirn n \<longleftrightarrow> (\<exists>d mode t xs. n = FileN d mode t xs)"
  by (cases n) auto

section \<open>Well-formed trees\<close>

text \<open>The root is a directory, and whatever exists is in a directory.\<close>

definition fs_wf :: "fs \<Rightarrow> bool" where
  "fs_wf fs \<longleftrightarrow>
     (\<exists>m. map_of fs [RootDir] = Some m \<and> is_dirn m) \<and> map_of fs [] = None
     \<and> (\<forall>q n. map_of fs q = Some n \<longrightarrow> q \<noteq> [RootDir] \<longrightarrow> (\<exists>m. map_of fs (butlast q) = Some m \<and> is_dirn m))"

lemma fs_wf_root: "fs_wf fs \<Longrightarrow> \<exists>m. map_of fs [RootDir] = Some m \<and> is_dirn m"
  by (simp add: fs_wf_def)

lemma fs_wf_not_Nil: "fs_wf fs \<Longrightarrow> map_of fs p = Some n \<Longrightarrow> p \<noteq> []"
  by (auto simp: fs_wf_def)

lemma fs_wf_parent:
  "fs_wf fs \<Longrightarrow> map_of fs q = Some n \<Longrightarrow> q \<noteq> [RootDir] \<Longrightarrow> \<exists>m. map_of fs (butlast q) = Some m \<and> is_dirn m"
  by (simp add: fs_wf_def)

lemma fs_wf_absolute: "fs_wf fs \<Longrightarrow> map_of fs q = Some n \<Longrightarrow> starts_with q [RootDir]"
proof (induction "length q" arbitrary: q n)
  case 0
  then show ?case by (simp add: fs_wf_def)
next
  case (Suc k)
  show ?case
  proof (cases "q = [RootDir]")
    case False
    then obtain m where "map_of fs (butlast q) = Some m" using fs_wf_parent Suc.prems by blast
    moreover have "k = length (butlast q)" using Suc.hyps(2) by simp
    ultimately have "starts_with (butlast q) [RootDir]" using Suc.hyps(1) Suc.prems(1) by blast
    then show ?thesis using starts_with_trans starts_with_butlast by blast
  qed simp
qed

lemma below_file:
  assumes "fs_wf fs" and "map_of fs p = Some n" and "\<not> is_dirn n" and "r \<noteq> []"
  shows "map_of fs (p @ r) = None"
  using assms(4)
proof (induction r rule: rev_induct)
  case (snoc c r)
  have "p @ r @ [c] \<noteq> [RootDir]" using fs_wf_not_Nil [OF assms(1,2)] by (cases p) auto
  moreover have "butlast (p @ r @ [c]) = p @ r" by (simp add: butlast_append)
  ultimately have "\<exists>m. map_of fs (p @ r) = Some m \<and> is_dirn m" if "map_of fs (p @ r @ [c]) = Some k" for k
    using fs_wf_parent [OF assms(1) that] by simp
  then show ?case using snoc assms(2,3) by (cases "map_of fs (p @ r @ [c])"; cases "r = []") auto
qed simp

lemma fs_wf_update:
  assumes "fs_wf fs" and "map_of fs p = Some m" and "is_dirn n \<longleftrightarrow> is_dirn m"
  shows "fs_wf (AList.update p n fs)"
  using assms fs_wf_not_Nil [OF assms(1,2)] by (fastforce simp: fs_wf_def)

lemma fs_wf_insert:
  assumes "fs_wf fs" and "parent_errno fs p = None" and "map_of fs p = None"
  shows "fs_wf (AList.update p n fs)"
proof -
  obtain m where m: "map_of fs (butlast p) = Some m" "is_dirn m"
    using assms(2) by (auto simp: parent_errno_def split: option.splits if_splits)
  then have "p \<noteq> []" using fs_wf_not_Nil [OF assms(1) m(1)] by auto
  then show ?thesis using assms(1,3) m by (auto simp: fs_wf_def)
qed

lemma fs_wf_delete:
  assumes "fs_wf fs" and "p \<noteq> [RootDir]" and "\<And>c. map_of fs (p @ [c]) = None"
  shows "fs_wf (AList.delete p fs)"
proof -
  have "butlast q \<noteq> p" if "map_of fs q = Some n" for q n
    using assms(3) that fs_wf_not_Nil [OF assms(1) that] by (metis append_butlast_last_id option.distinct(1))
  then show ?thesis using assms(1,2) by (auto simp: fs_wf_def)
qed

lemma has_childrenD: "\<not> has_children fs p \<Longrightarrow> r \<noteq> [] \<Longrightarrow> map_of fs (p @ r) = None"
proof (rule ccontr)
  assume nc: "\<not> has_children fs p" and r: "r \<noteq> []" and "map_of fs (p @ r) \<noteq> None"
  then obtain n where "(p @ r, n) \<in> set fs" by (auto dest: map_of_SomeD)
  with nc r show False by (force simp: has_children_def list_ex_iff)
qed

lemma fs_wf_move:
  assumes wf: "fs_wf fs" and "\<not> starts_with old new" "\<not> starts_with new old"
    and "map_of fs old = Some n" and "parent_errno fs new = None"
  shows "fs_wf (move_tree old new fs)"
proof -
  obtain m where m: "map_of fs (butlast new) = Some m" "is_dirn m"
    using assms(5) by (auto simp: parent_errno_def split: option.splits if_splits)
  have new: "new \<noteq> []" using fs_wf_not_Nil [OF wf m(1)] by auto
  have old: "old \<noteq> []" using fs_wf_not_Nil [OF wf assms(4)] .
  have abs_new: "starts_with new [RootDir]"
    using fs_wf_absolute [OF wf m(1)] starts_with_trans starts_with_butlast by blast
  have root: "\<not> starts_with [RootDir] new" "\<not> starts_with [RootDir] old"
    using abs_new fs_wf_absolute [OF wf assms(4)] assms(2,3) new old
    by (auto simp: starts_with_iff Cons_eq_append_conv)
  note mv = map_of_move_tree [OF assms(2,3)]
  have up: "starts_with q p" if "starts_with (butlast q) p" for p q :: path
    using that starts_with_trans starts_with_butlast by blast
  show ?thesis unfolding fs_wf_def
  proof (intro conjI allI impI)
    show "\<exists>m. map_of (move_tree old new fs) [RootDir] = Some m \<and> is_dirn m"
      using root fs_wf_root [OF wf] by (simp add: mv)
    show "map_of (move_tree old new fs) [] = None"
      using new old wf by (auto simp: mv starts_with_iff fs_wf_def)
  next
    fix q k
    assume q: "map_of (move_tree old new fs) q = Some k" "q \<noteq> [RootDir]"
    show "\<exists>m. map_of (move_tree old new fs) (butlast q) = Some m \<and> is_dirn m"
    proof (cases "starts_with q new")
      case False
      with q have "map_of fs q = Some k" "\<not> starts_with q old" by (auto simp: mv split: if_splits)
      with False q(2) fs_wf_parent [OF wf, of q k] up show ?thesis by (auto simp: mv)
    next
      case True
      then obtain r where r: "q = new @ r" by (auto simp: starts_with_iff)
      show ?thesis
      proof (cases "r = []")
        case True
        have "\<not> starts_with (butlast new) new"
          using new by (cases new rule: rev_cases) (auto simp: starts_with_def)
        with True r m assms(3) up show ?thesis by (auto simp: mv)
      next
        case False
        have "old @ r \<noteq> [RootDir]" using old False by (cases old) auto
        then have "\<exists>m. map_of fs (old @ butlast r) = Some m \<and> is_dirn m"
          using q r False fs_wf_parent [OF wf, of "old @ r" k] by (simp add: mv butlast_append)
        with r False show ?thesis by (simp add: mv butlast_append)
      qed
    qed
  qed
qed

text \<open>Every call keeps the tree well formed.\<close>

named_theorems wf_calls \<open>file system calls keep the tree well formed\<close>

lemma fs_wf_guarded: "fs_wf fs \<Longrightarrow> fs_wf (snd r) \<Longrightarrow> fs_wf (snd (guarded E c p fs r))"
  by (simp add: guarded_def split: option.split)

lemma is_dirn_change [simp]:
  "is_dirn (write_node t off new n) = is_dirn n" "is_dirn (set_len_node t sz n) = is_dirn n"
  "is_dirn (chmod_node mode n) = is_dirn n" "is_dirn (truncate_node t n) = is_dirn n"
  "is_dirn (overwrite_node t d mode n) = is_dirn n" "is_dirn (set_attr_node k v n) = is_dirn n"
  by (cases n; simp)+

lemma fs_wf_on_file [wf_calls]:
  "fs_wf fs \<Longrightarrow> (\<And>n. is_dirn (f n) = is_dirn n) \<Longrightarrow> fs_wf (snd (on_file E c f p fs))"
  unfolding on_file_def by (rule fs_wf_guarded) (auto intro: fs_wf_update split: option.split)

lemma fs_wf_make_node [wf_calls]: "fs_wf fs \<Longrightarrow> fs_wf (snd (make_node E c n p fs))"
  unfolding make_node_def by (rule fs_wf_guarded) (auto intro: fs_wf_insert split: option.split)

lemma fs_wf_set_permissions [wf_calls]: "fs_wf fs \<Longrightarrow> fs_wf (snd (set_permissions E mode p fs))"
  unfolding set_permissions_def by (rule fs_wf_guarded) (auto intro: fs_wf_update split: option.split)

lemma fs_wf_set_len [wf_calls]: "fs_wf fs \<Longrightarrow> fs_wf (snd (set_len E sz p fs))"
  by (simp add: set_len_def wf_calls)

lemma fs_wf_write_all_at [wf_calls]: "fs_wf fs \<Longrightarrow> fs_wf (snd (write_all_at E off new p fs))"
  by (simp add: write_all_at_def wf_calls)

lemma fs_wf_open_write [wf_calls]: "fs_wf fs \<Longrightarrow> fs_wf (snd (open_write E p fs))"
  by (simp add: open_write_def wf_calls)

lemma fs_wf_xattr_set [wf_calls]: "fs_wf fs \<Longrightarrow> fs_wf (snd (xattr_set E k v p fs))"
  by (simp add: xattr_set_def wf_calls)

lemma fs_wf_file_create [wf_calls]: "fs_wf fs \<Longrightarrow> fs_wf (snd (file_create E p fs))"
  by (simp add: file_create_def wf_calls)

lemma fs_wf_create_new [wf_calls]: "fs_wf fs \<Longrightarrow> fs_wf (snd (create_new E mode p fs))"
  by (simp add: create_new_def wf_calls)

lemma fs_wf_create_dir [wf_calls]: "fs_wf fs \<Longrightarrow> fs_wf (snd (create_dir E p fs))"
  by (simp add: create_dir_def wf_calls)

lemma fs_wf_copy [wf_calls]: "fs_wf fs \<Longrightarrow> fs_wf (snd (fs_copy E src dst fs))"
  by (simp add: fs_copy_def wf_calls split: option.split node.split)

lemma fs_wf_sync_all [wf_calls]: "fs_wf fs \<Longrightarrow> fs_wf (snd (sync_all E p fs))"
  by (simp add: sync_all_def fs_wf_guarded)

lemma fs_wf_remove_file [wf_calls]:
  assumes "fs_wf fs"
  shows "fs_wf (snd (remove_file E p fs))"
proof -
  have "fs_wf (AList.delete p fs)" if "map_of fs p = Some n" "\<not> is_dirn n" for n
    using assms that fs_wf_root [OF assms] below_file [OF assms that] by (intro fs_wf_delete) auto
  then show ?thesis unfolding remove_file_def
    by (intro fs_wf_guarded assms) (auto simp: assms split: option.split)
qed

lemma fs_wf_remove_dir [wf_calls]:
  assumes "fs_wf fs"
  shows "fs_wf (snd (remove_dir E p fs))"
  unfolding remove_dir_def using assms has_childrenD [of fs p]
  by (intro fs_wf_guarded assms) (auto intro!: fs_wf_delete split: option.split)

lemma fs_wf_rename [wf_calls]:
  assumes "fs_wf fs"
  shows "fs_wf (snd (fs_rename E old new fs))"
proof (cases "fst (fs_rename E old new fs)")
  case (Inl e)
  with assms show ?thesis by (cases "fs_rename E old new fs") (auto dest: fs_rename_Inl)
next
  case (Inr x)
  then have "fs_rename E old new fs = (Inr x, snd (fs_rename E old new fs))" by (simp add: prod_eq_iff)
  from fs_rename_Inr [OF this] assms show ?thesis by (auto intro: fs_wf_move)
qed

lemma fs_wf_create_dir_all [wf_calls]: "fs_wf fs \<Longrightarrow> fs_wf (snd (create_dir_all E p fs))"
proof (induction E p fs rule: create_dir_all.induct)
  case (1 E p fs)
  obtain r1 fs1 where first: "create_dir E p fs = (r1, fs1)" by (cases "create_dir E p fs")
  obtain r2 fs2 where second: "create_dir_all E (butlast p) fs = (r2, fs2)"
    by (cases "create_dir_all E (butlast p) fs")
  obtain r3 fs3 where third: "create_dir E p fs2 = (r3, fs3)" by (cases "create_dir E p fs2")
  have w1: "fs_wf fs1" using fs_wf_create_dir [OF "1.prems", of E p] first by simp
  show ?case
  proof (cases "\<exists>e. p \<noteq> [] \<and> r1 = Inl e \<and> ie_kind e = NotFound \<and> p \<noteq> [RootDir]")
    case True
    then obtain e where e: "p \<noteq> []" "r1 = Inl e" "ie_kind e = NotFound" "p \<noteq> [RootDir]" by blast
    have w2: "fs_wf fs2"
      using "1.IH" [OF e(1) first [symmetric] e(2) _ e(4)] e(3) "1.prems" second by simp
    then have "fs_wf fs3" using fs_wf_create_dir [of fs2 E p] third by simp
    with w2 first second third e show ?thesis
      by (cases r2; cases r3) (simp_all add: create_dir_all.simps [of E p fs])
  next
    case False
    with w1 "1.prems" first show ?thesis
      by (cases r1) (auto simp: create_dir_all.simps [of E p fs])
  qed
qed

lemma fs_wf_create_parent_dirs [wf_calls]: "fs_wf fs \<Longrightarrow> fs_wf (snd (create_parent_dirs E p fs))"
  by (simp add: create_parent_dirs_def wf_calls split: option.split)

text \<open>A directory is there, or is made in its parent.\<close>

lemma create_dir_all_in_parent:
  assumes "oe_fault E Stat p = None" "oe_fault E Mkdir p = None" and "p \<noteq> []"
    and "parent_errno fs p = None" and "\<And>n. map_of fs p = Some n \<Longrightarrow> is_dirn n"
  shows "\<exists>fs'. create_dir_all E p fs = (Inr (), fs') \<and> (\<exists>n. map_of fs' p = Some n \<and> is_dirn n)
    \<and> (\<forall>q. q \<noteq> p \<longrightarrow> map_of fs' q = map_of fs q)"
proof (cases "map_of fs p")
  case (Some n)
  with assms create_dir_all_present [OF Some] show ?thesis by auto
next
  case None
  with assms show ?thesis
    by (subst create_dir_all.simps) (auto simp: create_dir_def make_node_def guarded_def)
qed

end
