(* ===== verification/FuseCaches.thy ===== *)
theory FuseCaches
  imports FileSystem TtlCache
begin

text \<open>
  The two caches of the file system intercept: the negative dentry cache
  (\<open>crates/sharecli-fuse/src/neg_dentry.rs\<close>), which remembers for a while that a path is missing,
  and the read cache (\<open>read_cache.rs\<close>), which keeps whole files by path and modification time. A
  Rust \<open>HashMap\<close> that is only looked up is a partial map; atomic counters wrap.
\<close>

section \<open>Negative dentries\<close>

definition DEFAULT_NEG_TTL :: duration where
  "DEFAULT_NEG_TTL = from_secs 1"

record neg_dentry_meters =
  nm_hits :: u64
  nm_misses :: u64

definition neg_hit_rate_pct :: "neg_dentry_meters \<Rightarrow> u64" where
  "neg_hit_rate_pct m =
     (case checked_div (sat_mul (nm_hits m) 100) (sat_add (nm_hits m) (nm_misses m)) of
        None \<Rightarrow> 0 | Some p \<Rightarrow> p)"

definition neg_format_status_section :: "neg_dentry_meters \<Rightarrow> string" where
  "neg_format_status_section m =
     nl @ ''=== FUSE Negative Dentry ==='' @ nl @ nl
     @ ''Neg hits:     '' @ show_word (nm_hits m) @ nl
     @ ''Neg misses:   '' @ show_word (nm_misses m) @ nl
     @ ''Hit rate:     '' @ show_word (neg_hit_rate_pct m) @ ''%'' @ nl"

text \<open>The process-wide counters.\<close>

definition record_global_neg_hit :: "neg_dentry_meters \<Rightarrow> neg_dentry_meters" where
  "record_global_neg_hit m = m\<lparr>nm_hits := nm_hits m + 1\<rparr>"

definition record_global_neg_miss :: "neg_dentry_meters \<Rightarrow> neg_dentry_meters" where
  "record_global_neg_miss m = m\<lparr>nm_misses := nm_misses m + 1\<rparr>"

record neg_cache =
  nc_entries :: "path \<rightharpoonup> nat"
  nc_ttl :: duration
  nc_hits :: u64
  nc_misses :: u64

definition neg_with_ttl :: "duration \<Rightarrow> neg_cache" where
  "neg_with_ttl ttl = \<lparr>nc_entries = Map.empty, nc_ttl = ttl, nc_hits = 0, nc_misses = 0\<rparr>"

definition neg_new :: neg_cache where
  "neg_new = neg_with_ttl DEFAULT_NEG_TTL"

definition neg_meters :: "neg_cache \<Rightarrow> neg_dentry_meters" where
  "neg_meters c = \<lparr>nm_hits = nc_hits c, nm_misses = nc_misses c\<rparr>"

definition is_negative :: "nat \<Rightarrow> path \<Rightarrow> neg_cache \<Rightarrow> bool \<times> neg_cache" where
  "is_negative now rel c =
     (case nc_entries c rel of
        Some expires_at \<Rightarrow>
          if expires_at > now then (True, c\<lparr>nc_hits := nc_hits c + 1\<rparr>)
          else (False, c\<lparr>nc_entries := (nc_entries c)(rel := None)\<rparr>)
      | None \<Rightarrow> (False, c))"

definition remember_miss :: "nat \<Rightarrow> path \<Rightarrow> neg_cache \<Rightarrow> neg_cache" where
  "remember_miss now rel c =
     c\<lparr>nc_misses := nc_misses c + 1, nc_entries := (nc_entries c)(rel \<mapsto> now + nc_ttl c)\<rparr>"

definition neg_invalidate :: "path \<Rightarrow> neg_cache \<Rightarrow> neg_cache" where
  "neg_invalidate rel c = c\<lparr>nc_entries := (nc_entries c)(rel := None)\<rparr>"

section \<open>Read cache\<close>

record read_cache_meters =
  rm_hits :: u64
  rm_misses :: u64

definition read_hit_rate_pct :: "read_cache_meters \<Rightarrow> u64" where
  "read_hit_rate_pct m =
     (case checked_div (sat_mul (rm_hits m) 100) (sat_add (rm_hits m) (rm_misses m)) of
        None \<Rightarrow> 0 | Some p \<Rightarrow> p)"

definition read_format_status_section :: "read_cache_meters \<Rightarrow> string" where
  "read_format_status_section m =
     nl @ ''=== FUSE Read Coalesce ==='' @ nl @ nl
     @ ''Cache hits:   '' @ show_word (rm_hits m) @ nl
     @ ''Cache misses: '' @ show_word (rm_misses m) @ nl
     @ ''Hit rate:     '' @ show_word (read_hit_rate_pct m) @ ''%'' @ nl"

definition global_read_cache_meters :: read_cache_meters where
  "global_read_cache_meters = \<lparr>rm_hits = 0, rm_misses = 0\<rparr>"

record cache_entry =
  ce_mtime :: nat
  ce_data :: bytes

record read_cache =
  rc_entries :: "path \<rightharpoonup> cache_entry"
  rc_hits :: u64
  rc_misses :: u64

definition rc_new :: read_cache where
  "rc_new = \<lparr>rc_entries = Map.empty, rc_hits = 0, rc_misses = 0\<rparr>"

definition rc_meters :: "read_cache \<Rightarrow> read_cache_meters" where
  "rc_meters c = \<lparr>rm_hits = rc_hits c, rm_misses = rc_misses c\<rparr>"

definition rc_get :: "path \<Rightarrow> nat \<Rightarrow> read_cache \<Rightarrow> bytes option \<times> read_cache" where
  "rc_get p mtime c =
     (case rc_entries c p of
        Some entry \<Rightarrow>
          if ce_mtime entry = mtime then (Some (ce_data entry), c\<lparr>rc_hits := rc_hits c + 1\<rparr>)
          else (None, c\<lparr>rc_entries := (rc_entries c)(p := None)\<rparr>)
      | None \<Rightarrow> (None, c))"

definition put_miss :: "path \<Rightarrow> nat \<Rightarrow> bytes \<Rightarrow> read_cache \<Rightarrow> read_cache" where
  "put_miss p mtime d c =
     c\<lparr>rc_misses := rc_misses c + 1, rc_entries := (rc_entries c)(p \<mapsto> \<lparr>ce_mtime = mtime, ce_data = d\<rparr>)\<rparr>"

definition rc_invalidate :: "path \<Rightarrow> read_cache \<Rightarrow> read_cache" where
  "rc_invalidate p c = c\<lparr>rc_entries := (rc_entries c)(p := None)\<rparr>"

definition read_coalesced :: "os_env \<Rightarrow> fs \<Rightarrow> path \<Rightarrow> read_cache \<Rightarrow> (io_error + bytes) \<times> read_cache" where
  "read_coalesced E fs p c =
     (case fs_metadata E fs p of
        Inl e \<Rightarrow> (Inl e, c)
      | Inr meta \<Rightarrow>
          (let mtime = md_modified meta
           in case rc_get p mtime c of
                (Some d, c') \<Rightarrow> (Inr d, c')
              | (None, c') \<Rightarrow>
                  (case fs_read E fs p of
                     Inl e \<Rightarrow> (Inl e, c')
                   | Inr d \<Rightarrow> (Inr d, put_miss p mtime d c'))))"

definition read_slice ::
  "os_env \<Rightarrow> fs \<Rightarrow> path \<Rightarrow> u64 \<Rightarrow> u32 \<Rightarrow> read_cache \<Rightarrow> (io_error + bytes) \<times> read_cache" where
  "read_slice E fs p offset sz c =
     (case read_coalesced E fs p c of
        (Inl e, c') \<Rightarrow> (Inl e, c')
      | (Inr d, c') \<Rightarrow>
          (let start = unat offset
           in if start \<ge> length d then (Inr [], c')
              else let stop = min (start + unat sz) (length d)
                   in (Inr (drop start (take stop d)), c')))"

text \<open>
  A cache is coherent with the files when an entry whose modification time is the file's holds the
  file's contents.
\<close>

definition coherent :: "read_cache \<Rightarrow> fs \<Rightarrow> bool" where
  "coherent c fs \<longleftrightarrow>
     (\<forall>p entry n. rc_entries c p = Some entry \<longrightarrow> map_of fs p = Some n \<longrightarrow> ce_mtime entry = nd_mtime n \<longrightarrow>
        \<not> is_dirn n \<and> ce_data entry = nd_data n)"

text \<open>The cache's lookup and store as the contract sees them.\<close>

definition neg_lookup :: "neg_cache \<Rightarrow> nat \<Rightarrow> path \<Rightarrow> unit option" where
  "neg_lookup c now rel = (if fst (is_negative now rel c) then Some () else None)"

section \<open>Lemmas\<close>

text \<open>The negative dentry cache is a cache whose entries expire.\<close>

interpretation neg: ttl_cache neg_lookup "\<lambda>c t rel _. remember_miss t rel c" "\<lambda>c. nc_ttl c = ttl" "\<lambda>_. True" ttl
  for ttl
  by unfold_locales (auto simp: neg_lookup_def is_negative_def remember_miss_def split: option.splits)

text \<open>The entries that a lookup at a time would still honour.\<close>

definition live :: "nat \<Rightarrow> neg_cache \<Rightarrow> path \<Rightarrow> bool" where
  "live now c rel \<longleftrightarrow> fst (is_negative now rel c)"

lemma live_iff: "live now c rel \<longleftrightarrow> (\<exists>e. nc_entries c rel = Some e \<and> e > now)"
  by (auto simp: live_def is_negative_def split: option.splits)

lemma live_is_negative [simp]: "live now (snd (is_negative now' rel c)) q \<longleftrightarrow>
    live now c q \<and> (q = rel \<longrightarrow> now' < the (nc_entries c rel) \<or> nc_entries c rel = None)"
  by (auto simp: live_iff is_negative_def split: option.splits)

lemma live_remember_miss [simp]:
  "live now (remember_miss t rel c) q \<longleftrightarrow> (if q = rel then now < t + nc_ttl c else live now c q)"
  by (auto simp: live_iff remember_miss_def)

lemma live_invalidate [simp]: "live now (neg_invalidate rel c) q \<longleftrightarrow> q \<noteq> rel \<and> live now c q"
  by (auto simp: live_iff neg_invalidate_def)

lemma live_later: "live now' c rel \<Longrightarrow> now \<le> now' \<Longrightarrow> live now c rel"
  by (auto simp: live_iff)

lemma rc_invalidate_entries [simp]:
  "rc_entries (rc_invalidate p c) q = (if q = p then None else rc_entries c q)"
  by (simp add: rc_invalidate_def)

lemma coherent_new [simp]: "coherent rc_new fs"
  by (simp add: coherent_def rc_new_def)

lemma coherent_fewer:
  "coherent c fs \<Longrightarrow> (\<And>p e. rc_entries c' p = Some e \<Longrightarrow> rc_entries c p = Some e) \<Longrightarrow> coherent c' fs"
  by (auto simp: coherent_def)

lemma coherent_hits [simp]: "coherent (c\<lparr>rc_hits := h\<rparr>) fs \<longleftrightarrow> coherent c fs"
  by (simp add: coherent_def)

lemma rc_get_coherent: "coherent c fs \<Longrightarrow> coherent (snd (rc_get p t c)) fs"
  by (erule coherent_fewer) (auto simp: rc_get_def split: option.splits if_splits)

text \<open>Files that changed are harmless once their entries are dropped.\<close>

lemma coherent_changed:
  assumes "coherent c fs"
    and "\<And>q n. q \<notin> P \<Longrightarrow> map_of fs' q = Some n \<Longrightarrow> map_of fs q = Some n"
    and "\<And>q. q \<in> P \<Longrightarrow> rc_entries c q = None"
  shows "coherent c fs'"
  using assms unfolding coherent_def by (metis option.distinct(1))

lemma coherent_cases:
  assumes "coherent c fs" and "map_of fs p = Some n"
  shows "fst (rc_get p (nd_mtime n) c) = Some d \<Longrightarrow> \<not> is_dirn n \<and> d = nd_data n"
  using assms by (auto simp: rc_get_def coherent_def split: option.splits if_splits)

lemma read_coalesced_coherent:
  assumes "coherent c fs"
  shows "coherent (snd (read_coalesced E fs p c)) fs"
proof (cases "fs_metadata E fs p")
  case (Inl e)
  with assms show ?thesis by (simp add: read_coalesced_def)
next
  case (Inr meta)
  obtain r c' where get: "rc_get p (md_modified meta) c = (r, c')" by (cases "rc_get p (md_modified meta) c")
  have c': "coherent c' fs" using rc_get_coherent [OF assms, of p "md_modified meta"] get by simp
  from Inr obtain n where n: "map_of fs p = Some n" "md_modified meta = nd_mtime n"
    by (auto simp: fs_metadata_Inr md_modified_def)
  have "coherent (put_miss p (nd_mtime n) d c') fs" if "fs_read E fs p = Inr d" for d
    using c' n that by (auto simp: coherent_def put_miss_def fs_read_Inr)
  with Inr get c' n show ?thesis
    by (auto simp: read_coalesced_def Let_def split: option.splits sum.splits)
qed

lemma read_coalesced_value:
  assumes "coherent c fs" and "oe_fault E Stat p = None" and "oe_fault E ReadFile p = None"
  shows "fst (read_coalesced E fs p c) =
    (case map_of fs p of
       None \<Rightarrow> Inl (os_error (missing_errno fs p))
     | Some n \<Rightarrow> if is_dirn n then Inl (os_error EISDIR) else Inr (nd_data n))"
proof (cases "map_of fs p")
  case None
  with assms show ?thesis by (simp add: read_coalesced_def fs_metadata_eq)
next
  case (Some n)
  obtain r c' where get: "rc_get p (nd_mtime n) c = (r, c')" by (cases "rc_get p (nd_mtime n) c")
  have hit: "\<not> is_dirn n \<and> d = nd_data n" if "r = Some d" for d
    using coherent_cases [OF assms(1) Some, of d] get that by simp
  show ?thesis
  proof (cases r)
    case None
    with Some get assms show ?thesis
      by (cases n) (simp_all add: read_coalesced_def fs_metadata_eq md_modified_def fs_read_def guarded_def)
  next
    case (Some d)
    with hit [of d] \<open>map_of fs p = Some n\<close> get assms show ?thesis
      by (simp add: read_coalesced_def fs_metadata_eq md_modified_def)
  qed
qed

lemma slice_eq: "drop a (take (min (a + k) (length d)) d) = take k (drop a d)"
  by (cases "a + k \<le> length d") (simp_all add: drop_take min_def)

lemma read_slice_eq:
  assumes "read_coalesced E fs p c = (r, c')"
  shows "read_slice E fs p offset sz c =
    ((case r of Inl e \<Rightarrow> Inl e | Inr d \<Rightarrow> Inr (take (unat sz) (drop (unat offset) d))), c')"
  by (auto simp: read_slice_def assms slice_eq Let_def split: sum.splits)

lemma read_slice_value:
  assumes "coherent c fs" and "oe_fault E Stat p = None" and "oe_fault E ReadFile p = None"
  shows "fst (read_slice E fs p offset sz c) =
      (case map_of fs p of
         None \<Rightarrow> Inl (os_error (missing_errno fs p))
       | Some n \<Rightarrow> if is_dirn n then Inl (os_error EISDIR)
                  else Inr (take (unat sz) (drop (unat offset) (nd_data n))))"
  using read_coalesced_value [OF assms] read_slice_eq [of E fs p c]
  by (cases "read_coalesced E fs p c") (auto split: option.splits)

section \<open>Properties\<close>

text \<open>
  While the cache is coherent with the files, a read through it is a read of the file: it
  returns the requested window of the current contents, cut at the end of the file and empty
  beyond it, or the error of the missing file or of the directory; and the cache stays coherent.
\<close>

theorem read_slice_correct:
  assumes "coherent c fs" and "oe_fault E Stat p = None" and "oe_fault E ReadFile p = None"
  shows "fst (read_slice E fs p offset sz c) =
      (case map_of fs p of
         None \<Rightarrow> Inl (os_error (missing_errno fs p))
       | Some n \<Rightarrow> if is_dirn n then Inl (os_error EISDIR)
                  else Inr (take (unat sz) (drop (unat offset) (nd_data n))))
    \<and> coherent (snd (read_slice E fs p offset sz c)) fs"
  using read_slice_value [OF assms] read_coalesced_coherent [OF assms(1), of E p] read_slice_eq [of E fs p c]
  by (cases "read_coalesced E fs p c") simp

theorem read_slice_correct_witness:
  "fst (read_slice \<lparr>oe_fault = \<lambda>_ _. None, oe_now = 5, oe_umask = 18,
        oe_stat = \<lambda>_. \<lparr>os_blocks = 1, os_atime = None, os_nlink = 1, os_uid = 0, os_gid = 0, os_rdev = 0\<rparr>,
        oe_errno = \<lambda>_. 5\<rparr>
      [([RootDir, NormalC ''f''], FileN [1, 2, 3, 4] 420 7 [])] [RootDir, NormalC ''f''] 1 2 rc_new) = Inr [2, 3]"
proof -
  let ?E = "\<lparr>oe_fault = \<lambda>_ _. None, oe_now = 5, oe_umask = 18,
        oe_stat = \<lambda>_. \<lparr>os_blocks = 1, os_atime = None, os_nlink = 1, os_uid = 0, os_gid = 0, os_rdev = 0\<rparr>,
        oe_errno = \<lambda>_. 5\<rparr>"
  let ?fs = "[([RootDir, NormalC ''f''], FileN [1, 2, 3, 4] 420 7 [])]"
  from read_slice_correct [OF coherent_new, of ?E "[RootDir, NormalC ''f'']" ?fs 1 2] show ?thesis
    by simp
qed

end
