(* ===== verification/FuseCow.thy ===== *)
theory FuseCow
  imports FileSystem CommandKey
begin

text \<open>
  Copy-on-write staging of the file system intercept: agent names
  (\<open>crates/sharecli-fuse/src/agents_conf.rs\<close>), write provenance in extended attributes
  (\<open>provenance.rs\<close>, Unix), staging, commit and discard per path (\<open>write_serialize.rs\<close>) with their
  meters (\<open>write_serialize_meters.rs\<close>), the overlays of the agents (\<open>agent_cow.rs\<close>) and the handle
  of a mount (\<open>cow_session.rs\<close>). The operations of one process run one after the other, as its
  locks order them; a lock poisoned by a panic is not modelled. The hash of a path
  (\<open>DefaultHasher\<close>) is a parameter.
\<close>

section \<open>Agent names\<close>

record agents_conf =
  cf_patterns :: "string list"

definition conf_empty :: agents_conf where
  "conf_empty = \<lparr>cf_patterns = []\<rparr>"

definition conf_parse :: "string \<Rightarrow> agents_conf" where
  "conf_parse t =
     \<lparr>cf_patterns =
        filter (\<lambda>line. line \<noteq> [] \<and> \<not> starts_with line ''#'') (map str_trim (str_lines t))\<rparr>"

definition matches_name :: "agents_conf \<Rightarrow> string \<Rightarrow> bool" where
  "matches_name c name = list_ex (\<lambda>p. str_contains name p) (cf_patterns c)"

definition agent_char :: "char \<Rightarrow> bool" where
  "agent_char c \<longleftrightarrow> is_ascii_alphanumeric c \<or> c = CHR ''_'' \<or> c = CHR ''-''"

definition is_valid_agent_id :: "string \<Rightarrow> bool" where
  "is_valid_agent_id agent \<longleftrightarrow> agent \<noteq> [] \<and> list_all agent_char agent"

definition sanitize_agent_id :: "string \<Rightarrow> string" where
  "sanitize_agent_id agent =
     (let trimmed = str_trim agent
      in if trimmed = [] then ''default''
         else let out = map (\<lambda>c. if agent_char c then c else CHR ''_'') trimmed
              in if out = [] then ''default'' else out)"

section \<open>Write provenance\<close>

definition ATTR_SESSION :: string where
  "ATTR_SESSION = ''user.sharecli.session''"

definition ATTR_WRITTEN_AT :: string where
  "ATTR_WRITTEN_AT = ''user.sharecli.written_at''"

record write_provenance =
  wp_session_id :: string
  wp_written_at_unix :: u64

definition default_session_id :: "nat \<Rightarrow> string" where
  "default_session_id pid = ''sharecli-'' @ show_nat pid"

definition now_unix_secs :: "nat \<Rightarrow> u64" where
  "now_unix_secs now = of_nat (as_secs now)"

definition as_bytes :: "string \<Rightarrow> bytes" where
  "as_bytes s = map (\<lambda>c. of_nat (of_char c)) s"

definition utf8_cont :: "u8 \<Rightarrow> bool" where
  "utf8_cont b \<longleftrightarrow> 0x80 \<le> b \<and> b \<le> 0xBF"

text \<open>Well-formed UTF-8, by the first byte of a sequence.\<close>

fun utf8_ok :: "bytes \<Rightarrow> bool" where
  "utf8_ok [] = True"
| "utf8_ok (b # r) =
     (if b < 0x80 then utf8_ok r
      else if 0xC2 \<le> b \<and> b \<le> 0xDF then
        (case r of c # s \<Rightarrow> utf8_cont c \<and> utf8_ok s | _ \<Rightarrow> False)
      else if 0xE0 \<le> b \<and> b \<le> 0xEF then
        (case r of
           c # d # s \<Rightarrow> utf8_cont c \<and> (b = 0xE0 \<longrightarrow> 0xA0 \<le> c) \<and> (b = 0xED \<longrightarrow> c \<le> 0x9F) \<and> utf8_cont d \<and> utf8_ok s
         | _ \<Rightarrow> False)
      else if 0xF0 \<le> b \<and> b \<le> 0xF4 then
        (case r of
           c # d # e # s \<Rightarrow>
             utf8_cont c \<and> (b = 0xF0 \<longrightarrow> 0x90 \<le> c) \<and> (b = 0xF4 \<longrightarrow> c \<le> 0x8F) \<and> utf8_cont d \<and> utf8_cont e \<and> utf8_ok s
         | _ \<Rightarrow> False)
      else False)"

definition from_utf8 :: "bytes \<Rightarrow> string option" where
  "from_utf8 bs = (if utf8_ok bs then Some (map (\<lambda>b. char_of (unat b)) bs) else None)"

definition map_attr_err :: "io_error \<Rightarrow> io_error" where
  "map_attr_err e = io_error_new (ie_kind e)"

definition set_attr :: "os_env \<Rightarrow> path \<Rightarrow> string \<Rightarrow> bytes \<Rightarrow> fs \<Rightarrow> unit io" where
  "set_attr E p k v fs =
     (case xattr_set E k v p fs of (Inl e, fs') \<Rightarrow> (Inl (map_attr_err e), fs') | (Inr _, fs') \<Rightarrow> (Inr (), fs'))"

definition get_attr :: "os_env \<Rightarrow> fs \<Rightarrow> path \<Rightarrow> string \<Rightarrow> io_error + bytes option" where
  "get_attr E fs p k =
     (case xattr_get E fs p k of Inl e \<Rightarrow> Inl (map_attr_err e) | Inr v \<Rightarrow> Inr v)"

definition annotate_write_at :: "os_env \<Rightarrow> path \<Rightarrow> string \<Rightarrow> u64 \<Rightarrow> fs \<Rightarrow> unit io" where
  "annotate_write_at E p session_id written_at_unix fs =
     (if session_id = [] then (Inl (io_error_new InvalidInput), fs)
      else case set_attr E p ATTR_SESSION (as_bytes session_id) fs of
        (Inl e, fs') \<Rightarrow> (Inl e, fs')
      | (Inr _, fs') \<Rightarrow> set_attr E p ATTR_WRITTEN_AT (as_bytes (show_word written_at_unix)) fs')"

definition annotate_write :: "os_env \<Rightarrow> path \<Rightarrow> string \<Rightarrow> fs \<Rightarrow> unit io" where
  "annotate_write E p session_id fs = annotate_write_at E p session_id (now_unix_secs (oe_now E)) fs"

definition read_provenance :: "os_env \<Rightarrow> fs \<Rightarrow> path \<Rightarrow> io_error + write_provenance option" where
  "read_provenance E fs p =
     (case get_attr E fs p ATTR_SESSION of
        Inl e \<Rightarrow> Inl e
      | Inr None \<Rightarrow> Inr None
      | Inr (Some bs) \<Rightarrow>
          (case from_utf8 bs of
             None \<Rightarrow> Inl (io_error_new InvalidData)
           | Some session \<Rightarrow>
               (case get_attr E fs p ATTR_WRITTEN_AT of
                  Inl e \<Rightarrow> Inl e
                | Inr None \<Rightarrow> Inr None
                | Inr (Some raw) \<Rightarrow>
                    (case from_utf8 raw of
                       None \<Rightarrow> Inl (io_error_new InvalidData)
                     | Some written_raw \<Rightarrow>
                         (case parse_uint (2 ^ 64) written_raw of
                            None \<Rightarrow> Inl (io_error_new InvalidData)
                          | Some n \<Rightarrow> Inr (Some \<lparr>wp_session_id = session, wp_written_at_unix = of_nat n\<rparr>))))))"

section \<open>Meters\<close>

record write_serialize_meters =
  wm_passthrough_writes :: u64
  wm_stages :: u64
  wm_commits :: u64
  wm_discards :: u64

definition write_format_status_section :: "write_serialize_meters \<Rightarrow> string" where
  "write_format_status_section m =
     nl @ ''=== FUSE Write Serialize ==='' @ nl @ nl
     @ ''Passthrough:  '' @ show_word (wm_passthrough_writes m) @ nl
     @ ''Stages:       '' @ show_word (wm_stages m) @ nl
     @ ''Commits:      '' @ show_word (wm_commits m) @ nl
     @ ''Discards:     '' @ show_word (wm_discards m) @ nl"

definition record_passthrough_write :: "write_serialize_meters \<Rightarrow> write_serialize_meters" where
  "record_passthrough_write m = m\<lparr>wm_passthrough_writes := wm_passthrough_writes m + 1\<rparr>"

definition record_stage :: "write_serialize_meters \<Rightarrow> write_serialize_meters" where
  "record_stage m = m\<lparr>wm_stages := wm_stages m + 1\<rparr>"

definition record_commit :: "write_serialize_meters \<Rightarrow> write_serialize_meters" where
  "record_commit m = m\<lparr>wm_commits := wm_commits m + 1\<rparr>"

definition record_discard :: "write_serialize_meters \<Rightarrow> write_serialize_meters" where
  "record_discard m = m\<lparr>wm_discards := wm_discards m + 1\<rparr>"

section \<open>Staging per path\<close>

datatype ws_error = WsIo io_error | NoPending path

text \<open>
  A lock exists for every path that was ever locked; the pending paths are listed in the order the
  hash map iterates them.
\<close>

record write_serialize =
  ws_staging_root :: path
  ws_locks :: "path set"
  ws_pending :: "(path \<times> path) list"

record cow_world =
  cw_fs :: fs
  cw_meters :: write_serialize_meters

definition ws_with_staging_root :: "os_env \<Rightarrow> path \<Rightarrow> cow_world \<Rightarrow> write_serialize \<times> cow_world" where
  "ws_with_staging_root E root w =
     (\<lparr>ws_staging_root = root, ws_locks = {}, ws_pending = []\<rparr>,
      w\<lparr>cw_fs := snd (create_dir_all E root (cw_fs w))\<rparr>)"

definition ws_new :: "os_env \<Rightarrow> path \<Rightarrow> nat \<Rightarrow> cow_world \<Rightarrow> write_serialize \<times> cow_world" where
  "ws_new E temp_dir pid w =
     ws_with_staging_root E
       (comp_join temp_dir [NormalC (''sharecli-cow-'' @ show_nat pid @ ''-'' @ show_nat (oe_now E))]) w"

definition lock_arc :: "path \<Rightarrow> write_serialize \<Rightarrow> write_serialize" where
  "lock_arc p ws = ws\<lparr>ws_locks := insert p (ws_locks ws)\<rparr>"

definition ws_with_locked_path :: "path \<Rightarrow> (cow_world \<Rightarrow> 'a \<times> cow_world) \<Rightarrow>
    write_serialize \<Rightarrow> cow_world \<Rightarrow> 'a \<times> write_serialize \<times> cow_world" where
  "ws_with_locked_path p f ws w = (let (r, w') = f w in (r, lock_arc p ws, w'))"

text \<open>\<open>format!("{:016x}")\<close>.\<close>

fun hex_pad :: "nat \<Rightarrow> nat \<Rightarrow> string" where
  "hex_pad 0 n = []"
| "hex_pad (Suc k) n = hex_pad k (n div 16) @ [hex_digit (n mod 16)]"

definition staging_path_for :: "(path \<Rightarrow> u64) \<Rightarrow> path \<Rightarrow> path \<Rightarrow> path" where
  "staging_path_for hash root backing =
     comp_join root [NormalC (hex_pad 16 (unat (hash backing)) @ ''.staging'')]"

type_synonym 'a ws_result = "(ws_error + 'a) \<times> write_serialize \<times> cow_world"

definition ws_stage_bytes :: "os_env \<Rightarrow> (path \<Rightarrow> u64) \<Rightarrow> path \<Rightarrow> bytes \<Rightarrow>
    write_serialize \<Rightarrow> cow_world \<Rightarrow> unit ws_result" where
  "ws_stage_bytes E hash backing contents ws w =
     (let staging = staging_path_for hash (ws_staging_root ws) backing;
          ws = lock_arc backing ws
      in case create_parent_dirs E staging (cw_fs w) of
        (Inl e, fs) \<Rightarrow> (Inl (WsIo e), ws, w\<lparr>cw_fs := fs\<rparr>)
      | (Inr _, fs) \<Rightarrow>
      (case file_create E staging fs of
        (Inl e, fs) \<Rightarrow> (Inl (WsIo e), ws, w\<lparr>cw_fs := fs\<rparr>)
      | (Inr _, fs) \<Rightarrow>
      (case write_all_at E 0 contents staging fs of
        (Inl e, fs) \<Rightarrow> (Inl (WsIo e), ws, w\<lparr>cw_fs := fs\<rparr>)
      | (Inr _, fs) \<Rightarrow>
      (case sync_all E staging fs of
        (Inl e, fs) \<Rightarrow> (Inl (WsIo e), ws, w\<lparr>cw_fs := fs\<rparr>)
      | (Inr _, fs) \<Rightarrow>
          (Inr (), ws\<lparr>ws_pending := AList.update backing staging (ws_pending ws)\<rparr>,
           w\<lparr>cw_fs := fs, cw_meters := record_stage (cw_meters w)\<rparr>)))))"

definition libc_exdev :: nat where
  "libc_exdev = 18"

text \<open>Rename the staging copy over the file, or copy it when the two are on different devices.\<close>

definition promote :: "os_env \<Rightarrow> path \<Rightarrow> path \<Rightarrow> fs \<Rightarrow> unit io" where
  "promote E staging backing fs =
     (case fs_rename E staging backing fs of
        (Inr _, fs') \<Rightarrow> (Inr (), fs')
      | (Inl e, fs') \<Rightarrow>
          if ie_raw e = Some libc_exdev then
            (case fs_copy E staging backing fs' of
               (Inl e', fs'') \<Rightarrow> (Inl e', fs'')
             | (Inr _, fs'') \<Rightarrow> (Inr (), snd (remove_file E staging fs'')))
          else (Inl e, fs'))"

definition ws_commit_pending :: "os_env \<Rightarrow> path \<Rightarrow> write_serialize \<Rightarrow> cow_world \<Rightarrow> unit ws_result" where
  "ws_commit_pending E backing ws w =
     (let ws = lock_arc backing ws
      in case map_of (ws_pending ws) backing of
        None \<Rightarrow> (Inl (NoPending backing), ws, w)
      | Some staging \<Rightarrow>
          if \<not> path_exists E (cw_fs w) staging then
            (Inl (NoPending backing), ws\<lparr>ws_pending := AList.delete backing (ws_pending ws)\<rparr>, w)
          else case create_parent_dirs E backing (cw_fs w) of
            (Inl e, fs) \<Rightarrow> (Inl (WsIo e), ws, w\<lparr>cw_fs := fs\<rparr>)
          | (Inr _, fs) \<Rightarrow>
              (case promote E staging backing fs of
                 (Inl e, fs) \<Rightarrow> (Inl (WsIo e), ws, w\<lparr>cw_fs := fs\<rparr>)
               | (Inr _, fs) \<Rightarrow>
                   (Inr (), ws\<lparr>ws_pending := AList.delete backing (ws_pending ws)\<rparr>,
                    w\<lparr>cw_fs := fs, cw_meters := record_commit (cw_meters w)\<rparr>)))"

definition ws_discard_pending :: "os_env \<Rightarrow> path \<Rightarrow> write_serialize \<Rightarrow> cow_world \<Rightarrow> unit ws_result" where
  "ws_discard_pending E backing ws w =
     (let ws = lock_arc backing ws
      in case map_of (ws_pending ws) backing of
        None \<Rightarrow> (Inl (NoPending backing), ws, w)
      | Some staging \<Rightarrow>
          (let ws = ws\<lparr>ws_pending := AList.delete backing (ws_pending ws)\<rparr>
           in if path_exists E (cw_fs w) staging then
                (case remove_file E staging (cw_fs w) of
                   (Inl e, fs) \<Rightarrow> (Inl (WsIo e), ws, w\<lparr>cw_fs := fs\<rparr>)
                 | (Inr _, fs) \<Rightarrow> (Inr (), ws, w\<lparr>cw_fs := fs, cw_meters := record_discard (cw_meters w)\<rparr>))
              else (Inr (), ws, w\<lparr>cw_meters := record_discard (cw_meters w)\<rparr>)))"

definition ws_has_pending :: "path \<Rightarrow> write_serialize \<Rightarrow> bool" where
  "ws_has_pending backing ws \<longleftrightarrow> map_of (ws_pending ws) backing \<noteq> None"

definition ws_pending_backing_paths :: "write_serialize \<Rightarrow> path list" where
  "ws_pending_backing_paths ws = map fst (ws_pending ws)"

section \<open>Overlays of the agents\<close>

record agent_cow =
  ac_root :: path
  ac_default :: string
  ac_serialize :: bool
  ac_agents :: "(string \<times> write_serialize) list"

record agent_pending =
  ap_agent :: string
  ap_backing_paths :: "path list"

definition ac_new :: "os_env \<Rightarrow> path \<Rightarrow> string \<Rightarrow> bool \<Rightarrow> cow_world \<Rightarrow> agent_cow \<times> cow_world" where
  "ac_new E root default_agent serialize w =
     (\<lparr>ac_root = root, ac_default = sanitize_agent_id default_agent, ac_serialize = serialize, ac_agents = []\<rparr>,
      w\<lparr>cw_fs := snd (create_dir_all E root (cw_fs w))\<rparr>)"

definition agent_key :: "agent_cow \<Rightarrow> string option \<Rightarrow> string" where
  "agent_key ac agent = sanitize_agent_id (case agent of None \<Rightarrow> ac_default ac | Some a \<Rightarrow> a)"

text \<open>The store of an agent, made when it is first used.\<close>

definition store_for :: "os_env \<Rightarrow> string \<Rightarrow> agent_cow \<Rightarrow> cow_world \<Rightarrow> write_serialize \<times> agent_cow \<times> cow_world" where
  "store_for E key ac w =
     (case map_of (ac_agents ac) key of
        Some ws \<Rightarrow> (ws, ac, w)
      | None \<Rightarrow>
          (let (ws, w') = ws_with_staging_root E (comp_join (ac_root ac) (components key)) w
           in (ws, ac\<lparr>ac_agents := AList.update key ws (ac_agents ac)\<rparr>, w')))"

type_synonym 'a ac_result = "(ws_error + 'a) \<times> agent_cow \<times> cow_world"

text \<open>An operation on the store of one agent.\<close>

definition on_store :: "os_env \<Rightarrow> (write_serialize \<Rightarrow> cow_world \<Rightarrow> 'a ws_result) \<Rightarrow> string option \<Rightarrow>
    agent_cow \<Rightarrow> cow_world \<Rightarrow> 'a ac_result" where
  "on_store E f agent ac w =
     (let key = agent_key ac agent;
          (ws, ac, w) = store_for E key ac w;
          (r, ws, w) = f ws w
      in (r, ac\<lparr>ac_agents := AList.update key ws (ac_agents ac)\<rparr>, w))"

definition ac_stage_bytes :: "os_env \<Rightarrow> (path \<Rightarrow> u64) \<Rightarrow> string option \<Rightarrow> path \<Rightarrow> bytes \<Rightarrow>
    agent_cow \<Rightarrow> cow_world \<Rightarrow> unit ac_result" where
  "ac_stage_bytes E hash agent backing contents = on_store E (ws_stage_bytes E hash backing contents) agent"

definition ac_commit_pending :: "os_env \<Rightarrow> string option \<Rightarrow> path \<Rightarrow> agent_cow \<Rightarrow> cow_world \<Rightarrow> unit ac_result" where
  "ac_commit_pending E agent backing = on_store E (ws_commit_pending E backing) agent"

definition ac_discard_pending :: "os_env \<Rightarrow> string option \<Rightarrow> path \<Rightarrow> agent_cow \<Rightarrow> cow_world \<Rightarrow> unit ac_result" where
  "ac_discard_pending E agent backing = on_store E (ws_discard_pending E backing) agent"

definition ac_pending_for_agent :: "os_env \<Rightarrow> string option \<Rightarrow> agent_cow \<Rightarrow> cow_world \<Rightarrow> path list ac_result" where
  "ac_pending_for_agent E agent = on_store E (\<lambda>ws w. (Inr (ws_pending_backing_paths ws), ws, w)) agent"

fun commit_loop :: "os_env \<Rightarrow> string \<Rightarrow> path list \<Rightarrow> path list \<Rightarrow> agent_cow \<Rightarrow> cow_world \<Rightarrow> path list ac_result" where
  "commit_loop E key acc [] ac w = (Inr acc, ac, w)"
| "commit_loop E key acc (p # ps) ac w =
     (case ac_commit_pending E (Some key) p ac w of
        (Inl e, ac', w') \<Rightarrow> (Inl e, ac', w')
      | (Inr _, ac', w') \<Rightarrow> commit_loop E key (acc @ [p]) ps ac' w')"

definition ac_commit_all_for_agent :: "os_env \<Rightarrow> string option \<Rightarrow> agent_cow \<Rightarrow> cow_world \<Rightarrow> path list ac_result" where
  "ac_commit_all_for_agent E agent ac w =
     (case ac_pending_for_agent E agent ac w of
        (Inl e, ac', w') \<Rightarrow> (Inl e, ac', w')
      | (Inr paths, ac', w') \<Rightarrow> commit_loop E (agent_key ac agent) [] paths ac' w')"

fun discard_loop :: "os_env \<Rightarrow> string \<Rightarrow> path list \<Rightarrow> path list \<Rightarrow> agent_cow \<Rightarrow> cow_world \<Rightarrow> path list ac_result" where
  "discard_loop E key acc [] ac w = (Inr acc, ac, w)"
| "discard_loop E key acc (p # ps) ac w =
     (case ac_discard_pending E (Some key) p ac w of
        (Inl e, ac', w') \<Rightarrow> (Inl e, ac', w')
      | (Inr _, ac', w') \<Rightarrow> discard_loop E key (acc @ [p]) ps ac' w')"

definition ac_discard_all_for_agent :: "os_env \<Rightarrow> string option \<Rightarrow> agent_cow \<Rightarrow> cow_world \<Rightarrow> path list ac_result" where
  "ac_discard_all_for_agent E agent ac w =
     (case ac_pending_for_agent E agent ac w of
        (Inl e, ac', w') \<Rightarrow> (Inl e, ac', w')
      | (Inr paths, ac', w') \<Rightarrow> discard_loop E (agent_key ac agent) [] paths ac' w')"

definition ac_with_locked_path :: "os_env \<Rightarrow> string option \<Rightarrow> path \<Rightarrow> (cow_world \<Rightarrow> 'a \<times> cow_world) \<Rightarrow>
    agent_cow \<Rightarrow> cow_world \<Rightarrow> 'a ac_result" where
  "ac_with_locked_path E agent p f ac w =
     (if \<not> ac_serialize ac then (let (r, w') = f w in (Inr r, ac, w'))
      else on_store E (\<lambda>ws w. let (r, ws, w) = ws_with_locked_path p f ws w in (Inr r, ws, w)) agent ac w)"

definition ac_list_agent_pending :: "agent_cow \<Rightarrow> agent_pending list" where
  "ac_list_agent_pending ac =
     sort_key ap_agent
       (map (\<lambda>(agent, ws). \<lparr>ap_agent = agent, ap_backing_paths = ws_pending_backing_paths ws\<rparr>) (ac_agents ac))"

section \<open>The handle of a mount\<close>

record intercept_options =
  op_session_id :: string
  op_cow :: bool
  op_cow_dir :: "path option"
  op_agent :: "string option"
  op_serialize :: bool
  op_agents_conf :: "path option"

definition options_default :: intercept_options where
  "options_default =
     \<lparr>op_session_id = ''default'', op_cow = False, op_cow_dir = None, op_agent = None, op_serialize = True,
      op_agents_conf = None\<rparr>"

record cow_mount_handle =
  mh_backing :: path
  mh_session_id :: string
  mh_cow_enabled :: bool
  mh_cow :: agent_cow

definition strip_prefix :: "path \<Rightarrow> path \<Rightarrow> path option" where
  "strip_prefix base p = (if starts_with p base then Some (drop (length base) p) else None)"

definition mh_from_options :: "os_env \<Rightarrow> nat \<Rightarrow> path \<Rightarrow> intercept_options \<Rightarrow> cow_world \<Rightarrow> cow_mount_handle \<times> cow_world" where
  "mh_from_options E pid backing opts w =
     (let session_id = (if op_session_id opts = [] then default_session_id pid else op_session_id opts);
          default_agent = (case op_agent opts of None \<Rightarrow> session_id | Some a \<Rightarrow> a);
          cow_root = (case op_cow_dir opts of
                        Some d \<Rightarrow> d
                      | None \<Rightarrow> if op_cow opts then comp_join backing (components ''.sharecli-cow'')
                                else comp_join backing (components ''.sharecli-cow-staging''));
          (cow, w) = ac_new E cow_root default_agent (op_serialize opts) w
      in (\<lparr>mh_backing = backing, mh_session_id = session_id, mh_cow_enabled = op_cow opts, mh_cow = cow\<rparr>, w))"

type_synonym 'a mh_result = "(ws_error + 'a) \<times> cow_mount_handle \<times> cow_world"

definition on_cow :: "(agent_cow \<Rightarrow> cow_world \<Rightarrow> 'a ac_result) \<Rightarrow> cow_mount_handle \<Rightarrow> cow_world \<Rightarrow> 'a mh_result" where
  "on_cow f h w = (let (r, cow, w) = f (mh_cow h) w in (r, h\<lparr>mh_cow := cow\<rparr>, w))"

definition rels_under :: "path \<Rightarrow> path list \<Rightarrow> path list" where
  "rels_under backing ps = List.map_filter (strip_prefix backing) ps"

definition mh_pending_rel_paths_for_agent :: "os_env \<Rightarrow> string option \<Rightarrow> cow_mount_handle \<Rightarrow> cow_world \<Rightarrow> path list mh_result" where
  "mh_pending_rel_paths_for_agent E agent h w =
     (case on_cow (ac_pending_for_agent E agent) h w of
        (Inl e, h', w') \<Rightarrow> (Inl e, h', w')
      | (Inr ps, h', w') \<Rightarrow> (Inr (rels_under (mh_backing h) ps), h', w'))"

definition mh_pending_by_agent :: "cow_mount_handle \<Rightarrow> (string \<times> path list) list" where
  "mh_pending_by_agent h =
     map (\<lambda>ap. (ap_agent ap, rels_under (mh_backing h) (ap_backing_paths ap))) (ac_list_agent_pending (mh_cow h))"

definition mh_stage_rel_for_agent :: "os_env \<Rightarrow> (path \<Rightarrow> u64) \<Rightarrow> string option \<Rightarrow> path \<Rightarrow> bytes \<Rightarrow>
    cow_mount_handle \<Rightarrow> cow_world \<Rightarrow> unit mh_result" where
  "mh_stage_rel_for_agent E hash agent rel contents h w =
     (if \<not> mh_cow_enabled h then (Inl (WsIo (io_error_new OtherKind)), h, w)
      else on_cow (ac_stage_bytes E hash agent (abs_under (mh_backing h) rel) contents) h w)"

text \<open>Stamp a promoted file with the session and the time.\<close>

definition stamp :: "os_env \<Rightarrow> string \<Rightarrow> path \<Rightarrow> cow_world \<Rightarrow> (ws_error + unit) \<times> cow_world" where
  "stamp E session abs_p w =
     (case annotate_write E abs_p session (cw_fs w) of
        (Inl e, fs) \<Rightarrow> (Inl (WsIo e), w\<lparr>cw_fs := fs\<rparr>)
      | (Inr _, fs) \<Rightarrow> (Inr (), w\<lparr>cw_fs := fs\<rparr>))"

definition mh_commit_rel_for_agent :: "os_env \<Rightarrow> string option \<Rightarrow> path \<Rightarrow> cow_mount_handle \<Rightarrow> cow_world \<Rightarrow> unit mh_result" where
  "mh_commit_rel_for_agent E agent rel h w =
     (let abs_p = abs_under (mh_backing h) rel
      in case on_cow (ac_commit_pending E agent abs_p) h w of
        (Inl e, h', w') \<Rightarrow> (Inl e, h', w')
      | (Inr _, h', w') \<Rightarrow> (let (r, w'') = stamp E (mh_session_id h) abs_p w' in (r, h', w'')))"

definition mh_discard_rel_for_agent :: "os_env \<Rightarrow> string option \<Rightarrow> path \<Rightarrow> cow_mount_handle \<Rightarrow> cow_world \<Rightarrow> unit mh_result" where
  "mh_discard_rel_for_agent E agent rel h w =
     on_cow (ac_discard_pending E agent (abs_under (mh_backing h) rel)) h w"

fun stamp_loop :: "os_env \<Rightarrow> string \<Rightarrow> path \<Rightarrow> path list \<Rightarrow> path list \<Rightarrow> cow_world \<Rightarrow> (ws_error + path list) \<times> cow_world" where
  "stamp_loop E session backing acc [] w = (Inr acc, w)"
| "stamp_loop E session backing acc (abs_p # ps) w =
     (case stamp E session abs_p w of
        (Inl e, w') \<Rightarrow> (Inl e, w')
      | (Inr _, w') \<Rightarrow>
          stamp_loop E session backing
            (acc @ (case strip_prefix backing abs_p of None \<Rightarrow> [] | Some rel \<Rightarrow> [rel])) ps w')"

definition mh_commit_all_for_agent :: "os_env \<Rightarrow> string option \<Rightarrow> cow_mount_handle \<Rightarrow> cow_world \<Rightarrow> path list mh_result" where
  "mh_commit_all_for_agent E agent h w =
     (case on_cow (ac_commit_all_for_agent E agent) h w of
        (Inl e, h', w') \<Rightarrow> (Inl e, h', w')
      | (Inr ps, h', w') \<Rightarrow>
          (let (r, w'') = stamp_loop E (mh_session_id h) (mh_backing h) [] ps w' in (r, h', w'')))"

definition mh_discard_all_for_agent :: "os_env \<Rightarrow> string option \<Rightarrow> cow_mount_handle \<Rightarrow> cow_world \<Rightarrow> path list mh_result" where
  "mh_discard_all_for_agent E agent h w =
     (case on_cow (ac_discard_all_for_agent E agent) h w of
        (Inl e, h', w') \<Rightarrow> (Inl e, h', w')
      | (Inr ps, h', w') \<Rightarrow> (Inr (rels_under (mh_backing h) ps), h', w'))"

definition mh_with_locked_path :: "os_env \<Rightarrow> string option \<Rightarrow> path \<Rightarrow> (cow_world \<Rightarrow> 'a \<times> cow_world) \<Rightarrow>
    cow_mount_handle \<Rightarrow> cow_world \<Rightarrow> 'a mh_result" where
  "mh_with_locked_path E agent p f = on_cow (ac_with_locked_path E agent p f)"

section \<open>Specification of the overlays\<close>

text \<open>
  What the overlays promise: every agent sees its own staged contents of a path, the files are
  what was committed last, and the agents do not see each other.
\<close>

record overlays =
  ov_base :: "path \<rightharpoonup> bytes"
  ov_staged :: "string \<Rightarrow> path \<rightharpoonup> bytes"

datatype cow_op = StageOp "string option" path bytes | CommitOp "string option" path | DiscardOp "string option" path

fun op_path :: "cow_op \<Rightarrow> path" where
  "op_path (StageOp a p d) = p"
| "op_path (CommitOp a p) = p"
| "op_path (DiscardOp a p) = p"

fun spec_step :: "(string option \<Rightarrow> string) \<Rightarrow> cow_op \<Rightarrow> overlays \<Rightarrow> overlays" where
  "spec_step key (StageOp a p d) v =
     v\<lparr>ov_staged := (ov_staged v)(key a := (ov_staged v (key a))(p \<mapsto> d))\<rparr>"
| "spec_step key (CommitOp a p) v =
     (case ov_staged v (key a) p of
        None \<Rightarrow> v
      | Some d \<Rightarrow> v\<lparr>ov_base := (ov_base v)(p \<mapsto> d),
                  ov_staged := (ov_staged v)(key a := (ov_staged v (key a))(p := None))\<rparr>)"
| "spec_step key (DiscardOp a p) v =
     v\<lparr>ov_staged := (ov_staged v)(key a := (ov_staged v (key a))(p := None))\<rparr>"

fun cow_step :: "os_env \<Rightarrow> (path \<Rightarrow> u64) \<Rightarrow> cow_op \<Rightarrow> agent_cow \<Rightarrow> cow_world \<Rightarrow> unit ac_result" where
  "cow_step E hash (StageOp a p d) ac w = ac_stage_bytes E hash a p d ac w"
| "cow_step E hash (CommitOp a p) ac w = ac_commit_pending E a p ac w"
| "cow_step E hash (DiscardOp a p) ac w = ac_discard_pending E a p ac w"

text \<open>A history of operations, each in its environment, with their results.\<close>

fun cow_run :: "(path \<Rightarrow> u64) \<Rightarrow> (os_env \<times> cow_op) list \<Rightarrow> agent_cow \<Rightarrow> cow_world \<Rightarrow>
    (ws_error + unit) list \<times> agent_cow \<times> cow_world" where
  "cow_run hash [] ac w = ([], ac, w)"
| "cow_run hash ((E, x) # xs) ac w =
     (let (r, ac', w') = cow_step E hash x ac w; (rs, ac'', w'') = cow_run hash xs ac' w' in (r # rs, ac'', w''))"

definition file_bytes :: "fs \<Rightarrow> path \<Rightarrow> bytes option" where
  "file_bytes fs p = (case map_of fs p of Some (FileN d _ _ _) \<Rightarrow> Some d | _ \<Rightarrow> None)"

definition staged_bytes :: "agent_cow \<Rightarrow> fs \<Rightarrow> string \<Rightarrow> path \<Rightarrow> bytes option" where
  "staged_bytes ac fs key p =
     (case map_of (ac_agents ac) key of
        None \<Rightarrow> None
      | Some ws \<Rightarrow> (case map_of (ws_pending ws) p of None \<Rightarrow> None | Some s \<Rightarrow> file_bytes fs s))"

definition abs_overlays :: "agent_cow \<Rightarrow> cow_world \<Rightarrow> overlays" where
  "abs_overlays ac w =
     \<lparr>ov_base = (\<lambda>p. if starts_with p (ac_root ac) then None else file_bytes (cw_fs w) p),
      ov_staged = staged_bytes ac (cw_fs w)\<rparr>"

text \<open>A path apart from the overlays: neither below their root nor one of its ancestors.\<close>

definition apart :: "path \<Rightarrow> path \<Rightarrow> bool" where
  "apart root p \<longleftrightarrow> \<not> starts_with p root \<and> \<not> starts_with root p"

definition slot :: "(path \<Rightarrow> u64) \<Rightarrow> path \<Rightarrow> string \<Rightarrow> path \<Rightarrow> path" where
  "slot hash root key p = root @ [NormalC key, NormalC (hex_pad 16 (unat (hash p)) @ ''.staging'')]"

text \<open>
  The paths \<open>P\<close> that are staged are apart from the overlays and do not collide; a store keeps its
  files in its own directory; a staging path is not a directory.
\<close>

definition cow_inv :: "(path \<Rightarrow> u64) \<Rightarrow> path set \<Rightarrow> agent_cow \<Rightarrow> cow_world \<Rightarrow> bool" where
  "cow_inv hash P ac w \<longleftrightarrow>
     fs_wf (cw_fs w) \<and> ac_root ac \<noteq> [] \<and> inj_on hash P \<and> (\<forall>p \<in> P. apart (ac_root ac) p)
     \<and> (\<forall>key ws. map_of (ac_agents ac) key = Some ws \<longrightarrow>
          is_valid_agent_id key \<and> ws_staging_root ws = ac_root ac @ [NormalC key]
          \<and> (\<forall>p s. map_of (ws_pending ws) p = Some s \<longrightarrow> p \<in> P \<and> s = slot hash (ac_root ac) key p
               \<and> (\<forall>n. map_of (cw_fs w) s = Some n \<longrightarrow> \<not> is_dirn n)))"

text \<open>No call fails, except that files may not be renamed from one device to another.\<close>

definition cow_env_ok :: "os_env \<Rightarrow> bool" where
  "cow_env_ok E \<longleftrightarrow>
     (\<forall>c p. oe_fault E c p = None \<or> c = RenameCall \<and> oe_fault E c p = Some EXDEV)"

text \<open>A small system for the concrete instances below.\<close>

definition demo_fs :: fs where
  "demo_fs = [([RootDir], DirN 511 0), ([RootDir, NormalC ''cow''], DirN 511 0), ([RootDir, NormalC ''w''], DirN 511 0)]"

definition demo_cow :: agent_cow where
  "demo_cow = \<lparr>ac_root = [RootDir, NormalC ''cow''], ac_default = ''d'', ac_serialize = True, ac_agents = []\<rparr>"

definition demo_world :: cow_world where
  "demo_world = \<lparr>cw_fs = demo_fs,
     cw_meters = \<lparr>wm_passthrough_writes = 0, wm_stages = 0, wm_commits = 0, wm_discards = 0\<rparr>\<rparr>"

definition demo_env :: os_env where
  "demo_env = \<lparr>oe_fault = \<lambda>_ _. None, oe_now = from_secs 9, oe_umask = 18,
     oe_stat = \<lambda>_. \<lparr>os_blocks = 0, os_atime = None, os_nlink = 1, os_uid = 0, os_gid = 0, os_rdev = 0\<rparr>,
     oe_errno = \<lambda>e. case ie_raw e of None \<Rightarrow> EIO | Some n \<Rightarrow> n\<rparr>"

definition demo_path :: path where
  "demo_path = [RootDir, NormalC ''w'', NormalC ''f'']"

section \<open>Agent names: lemmas\<close>

lemma agent_char_no_space: "agent_char c \<Longrightarrow> \<not> is_whitespace c"
  by (auto simp: agent_char_def is_ascii_alphanumeric_def is_whitespace_def Let_def)

lemma agent_char_no_slash: "\<not> agent_char CHR ''/''" "\<not> agent_char CHR ''.''"
  by (simp_all add: agent_char_def is_ascii_alphanumeric_def)

lemma agent_char_underscore [simp]: "agent_char CHR ''_''"
  by (simp add: agent_char_def)

lemma sanitize_valid: "is_valid_agent_id (sanitize_agent_id a)"
proof -
  have "is_valid_agent_id ''default''"
    by (simp add: is_valid_agent_id_def agent_char_def is_ascii_alphanumeric_def)
  then show ?thesis by (auto simp: sanitize_agent_id_def is_valid_agent_id_def list_all_iff Let_def)
qed

lemma sanitize_id: "is_valid_agent_id a \<Longrightarrow> sanitize_agent_id a = a"
proof -
  assume a: "is_valid_agent_id a"
  then have "str_trim ([] @ a @ []) = a"
    by (intro str_trim_pad) (auto simp: is_valid_agent_id_def list_all_iff agent_char_no_space)
  with a show ?thesis
    by (auto simp: sanitize_agent_id_def is_valid_agent_id_def list_all_iff intro!: map_idI)
qed

lemma components_valid: "is_valid_agent_id a \<Longrightarrow> components a = [NormalC a]"
proof -
  assume a: "is_valid_agent_id a"
  then have ne: "a \<noteq> []" and no: "CHR ''/'' \<notin> set a" "CHR ''.'' \<notin> set a"
    using agent_char_no_slash by (auto simp: is_valid_agent_id_def list_all_iff)
  then have "\<not> starts_with a ''/''" "a \<noteq> ''.''" "a \<noteq> ''..''"
    by (auto simp: starts_with_iff)
  with ne no show ?thesis by (simp add: components_def split_on_notin piece_def)
qed

lemma agent_key_valid [simp]: "is_valid_agent_id (agent_key ac a)"
  by (simp add: agent_key_def sanitize_valid)

section \<open>Staging paths: lemmas\<close>

lemma hex_pad_inj: "m < 16 ^ k \<Longrightarrow> n < 16 ^ k \<Longrightarrow> hex_pad k m = hex_pad k n \<Longrightarrow> m = n"
proof (induction k arbitrary: m n)
  case (Suc k)
  then have "hex_pad k (m div 16) = hex_pad k (n div 16)" "hex_digit (m mod 16) = hex_digit (n mod 16)"
    by simp_all
  moreover have "m div 16 < 16 ^ k" "n div 16 < 16 ^ k" using Suc.prems by (simp_all add: less_mult_imp_div_less)
  ultimately have "m div 16 = n div 16" "m mod 16 = n mod 16"
    using Suc.IH hex_digit_inj [of "m mod 16" "n mod 16"] by simp_all
  then show ?case by (metis div_mult_mod_eq)
qed simp

lemma slot_inj:
  assumes "inj_on hash P" "p \<in> P" "q \<in> P"
  shows "slot hash root a p = slot hash root b q \<longleftrightarrow> a = b \<and> p = q"
proof
  assume eq: "slot hash root a p = slot hash root b q"
  have bound: "unat x < 16 ^ 16" for x :: u64 using unat_bound [of x] by simp
  from eq have "hex_pad 16 (unat (hash p)) = hex_pad 16 (unat (hash q))" "a = b"
    by (auto simp: slot_def)
  with hex_pad_inj [OF bound bound] have "unat (hash p) = unat (hash q)" by blast
  then have "hash p = hash q" by (simp add: word_unat_eq_iff)
  with assms \<open>a = b\<close> show "a = b \<and> p = q" by (auto simp: inj_on_def)
qed simp

lemma apart_slot:
  assumes "apart root p"
  shows "\<not> starts_with p (slot hash root key q)" "\<not> starts_with (slot hash root key q) p"
    "slot hash root key q \<noteq> p"
  using assms by (auto simp: apart_def starts_with_iff slot_def append_eq_append_conv2)

lemma staging_slot:
  "root \<noteq> [] \<Longrightarrow> staging_path_for hash (root @ [NormalC key]) p = slot hash root key p"
  by (simp add: staging_path_for_def slot_def comp_join_def is_absolute_def)

section \<open>Contents of files: lemmas\<close>

lemma file_bytes_Some: "file_bytes fs p = Some d \<longleftrightarrow> (\<exists>mode t xs. map_of fs p = Some (FileN d mode t xs))"
  by (auto simp: file_bytes_def split: option.splits node.splits)

lemma file_bytes_update:
  "file_bytes (AList.update p n fs) q = (if q = p then (if is_dirn n then None else Some (nd_data n)) else file_bytes fs q)"
  by (cases n) (auto simp: file_bytes_def)

lemma file_bytes_delete: "file_bytes (AList.delete p fs) q = (if q = p then None else file_bytes fs q)"
  by (auto simp: file_bytes_def)

lemma file_bytes_grown: "grown p fs fs' \<Longrightarrow> file_bytes fs' = file_bytes fs"
proof
  fix q
  assume g: "grown p fs fs'"
  show "file_bytes fs' q = file_bytes fs q"
  proof (cases "map_of fs q")
    case (Some n)
    with g have "map_of fs' q = Some n" by (simp add: grown_def)
    with Some show ?thesis by (simp add: file_bytes_def)
  next
    case None
    then have "map_of fs' q = None \<or> (\<exists>n. map_of fs' q = Some n \<and> is_dirn n)"
      using g unfolding grown_def by (metis not_None_eq option.distinct(1))
    with None show ?thesis by (auto simp: file_bytes_def split: node.splits)
  qed
qed

text \<open>A directory that appeared lies on the way to the path it was made for.\<close>

lemma grown_not_dir:
  assumes "grown q fs fs'" and "\<not> starts_with q s" and "\<And>n. map_of fs s = Some n \<Longrightarrow> \<not> is_dirn n"
  shows "map_of fs' s = Some n \<Longrightarrow> \<not> is_dirn n"
  using assms unfolding grown_def by blast

lemma splice_all: "splice 0 new [] = new"
  by (simp add: splice_def)

lemma below_missing:
  assumes "fs_wf fs" and "map_of fs p = None" and "p \<noteq> []"
  shows "map_of fs (p @ r) = None"
proof (induction r rule: rev_induct)
  case Nil
  with assms show ?case by simp
next
  case (snoc c r)
  have "p @ r @ [c] \<noteq> [RootDir]" using assms(3) by (cases p) auto
  then show ?case
    using fs_wf_parent [OF assms(1), of "p @ r @ [c]"] snoc
    by (cases "map_of fs (p @ r @ [c])") (auto simp: butlast_append)
qed

lemma moved_file_bytes:
  assumes wf: "fs_wf fs" and src: "map_of fs s = Some n" "\<not> is_dirn n"
    and sep: "\<not> starts_with s p" "\<not> starts_with p s"
    and dst: "\<And>m. map_of fs p = Some m \<Longrightarrow> \<not> is_dirn m" and "p \<noteq> []"
  shows "file_bytes (move_tree s p fs) q =
    (if q = p then Some (nd_data n) else if q = s then None else file_bytes fs q)"
proof -
  have below: "map_of fs (s @ r) = None" if "r \<noteq> []" for r
    using below_file [OF wf src that] .
  have below': "map_of fs (p @ r) = None" if "r \<noteq> []" for r
    using below_file [OF wf _ _ that, of p] below_missing [OF wf _ \<open>p \<noteq> []\<close>, of r] dst
    by (cases "map_of fs p") auto
  note mv = map_of_move_tree [OF sep, of fs q]
  show ?thesis
  proof (cases "starts_with q p")
    case True
    then obtain r where r: "q = p @ r" by (auto simp: starts_with_iff)
    have "q \<noteq> s" using True sep by auto
    with r src mv below below' show ?thesis
      by (cases "r = []"; cases n) (auto simp: file_bytes_def)
  next
    case False
    then have "q \<noteq> p" by auto
    show ?thesis
    proof (cases "starts_with q s")
      case True
      then obtain r where r: "q = s @ r" by (auto simp: starts_with_iff)
      with False True mv below \<open>q \<noteq> p\<close> show ?thesis
        by (cases "r = []") (auto simp: file_bytes_def)
    next
      case False
      then have "q \<noteq> s" by auto
      with False \<open>\<not> starts_with q p\<close> mv \<open>q \<noteq> p\<close> show ?thesis by (simp add: file_bytes_def)
    qed
  qed
qed

section \<open>Stores: lemmas\<close>

text \<open>The directories that a call may have made lie on the way to a path.\<close>

definition dirs_from :: "path \<Rightarrow> fs \<Rightarrow> fs \<Rightarrow> bool" where
  "dirs_from q fs fs' \<longleftrightarrow>
     (\<forall>s n. map_of fs' s = Some n \<longrightarrow> is_dirn n \<longrightarrow>
        starts_with q s \<or> (\<exists>m. map_of fs s = Some m \<and> is_dirn m))"

lemma dirs_from_refl [simp]: "dirs_from q fs fs"
  by (auto simp: dirs_from_def)

lemma dirs_from_grown: "grown q fs fs' \<Longrightarrow> dirs_from q fs fs'"
  unfolding grown_def dirs_from_def by blast

lemma dirs_from_file: "dirs_from q fs fs' \<Longrightarrow> \<not> is_dirn n \<Longrightarrow> dirs_from q fs (AList.update p n fs')"
  by (auto simp: dirs_from_def)

lemma dirs_from_delete: "dirs_from q fs fs' \<Longrightarrow> dirs_from q fs (AList.delete p fs')"
  by (auto simp: dirs_from_def)

lemma cow_env_faults:
  "cow_env_ok E \<Longrightarrow> c \<noteq> RenameCall \<Longrightarrow> oe_fault E c p = None"
  by (auto simp: cow_env_ok_def)

lemma path_exists_ok: "cow_env_ok E \<Longrightarrow> path_exists E fs p \<longleftrightarrow> map_of fs p \<noteq> None"
  by (auto simp: path_exists_def fs_metadata_eq cow_env_faults split: option.splits)

lemma staging_written:
  assumes env: "cow_env_ok E" and "fs_wf fs" and "file_create E s fs = (Inr u, fs1)"
  shows "\<exists>fs2. write_all_at E 0 d s fs1 = (Inr (), fs2) \<and> sync_all E s fs2 = (Inr (), fs2) \<and> fs_wf fs2
    \<and> file_bytes fs2 = (file_bytes fs)(s \<mapsto> d) \<and> dirs_from s fs fs2 \<and> (\<exists>n. map_of fs2 s = Some n \<and> \<not> is_dirn n)
    \<and> (\<forall>q n. map_of fs2 q = Some n \<longrightarrow> is_dirn n \<longrightarrow> map_of fs q = Some n)"
proof -
  obtain mode t xs where fs1: "fs1 = AList.update s (FileN [] mode t xs) fs"
    and old: "\<And>n. map_of fs s = Some n \<Longrightarrow> \<not> is_dirn n"
    using assms(3) by (auto simp: file_create_def fs_ops not_is_dirn split: if_splits)
  have "fs_wf fs1" using fs_wf_file_create [OF assms(2), of E s] assms(3) by simp
  moreover define fs2 where "fs2 = AList.update s (write_node (oe_now E) 0 d (FileN [] mode t xs)) fs1"
  moreover have w: "write_all_at E 0 d s fs1 = (Inr (), fs2)"
    using cow_env_faults [OF env] by (simp add: write_all_at_def on_file_def guarded_def fs1 fs2_def)
  moreover have "sync_all E s fs2 = (Inr (), fs2)"
    using cow_env_faults [OF env] by (simp add: sync_all_def guarded_def)
  moreover have "file_bytes fs2 = (file_bytes fs)(s \<mapsto> d)"
    by (rule ext) (simp add: fs2_def fs1 file_bytes_update splice_all)
  ultimately show ?thesis
    using fs_wf_write_all_at [of fs1 E 0 d s]
    by (auto simp: fs1 dirs_from_def)
qed

lemma ws_stage_effect:
  assumes env: "cow_env_ok E" and wf: "fs_wf (cw_fs w)"
    and st: "ws_stage_bytes E hash p d ws w = (r, ws', w')"
    and s: "s = staging_path_for hash (ws_staging_root ws) p"
  shows "fs_wf (cw_fs w') \<and> dirs_from (butlast s) (cw_fs w) (cw_fs w')
    \<and> (case r of
         Inr _ \<Rightarrow> ws' = (lock_arc p ws)\<lparr>ws_pending := AList.update p s (ws_pending ws)\<rparr>
            \<and> file_bytes (cw_fs w') = (file_bytes (cw_fs w))(s \<mapsto> d)
            \<and> (\<exists>n. map_of (cw_fs w') s = Some n \<and> \<not> is_dirn n)
       | Inl _ \<Rightarrow> ws' = lock_arc p ws \<and> file_bytes (cw_fs w') = file_bytes (cw_fs w))"
proof -
  obtain r1 fs1 where c1: "create_parent_dirs E s (cw_fs w) = (r1, fs1)"
    by (cases "create_parent_dirs E s (cw_fs w)")
  have g: "grown (butlast s) (cw_fs w) fs1" using c1 by (rule create_parent_dirs_grown)
  have wf1: "fs_wf fs1" using fs_wf_create_parent_dirs [OF wf, of E s] c1 by simp
  note same = file_bytes_grown [OF g] dirs_from_grown [OF g]
  show ?thesis
  proof (cases r1)
    case (Inl e)
    with st c1 s same wf1 show ?thesis by (auto simp: ws_stage_bytes_def Let_def)
  next
    case (Inr u)
    obtain r2 fs2 where c2: "file_create E s fs1 = (r2, fs2)" by (cases "file_create E s fs1")
    show ?thesis
    proof (cases r2)
      case (Inl e)
      with c2 have "fs2 = fs1" by (auto dest: file_create_Inl)
      with st c1 c2 Inl \<open>r1 = Inr u\<close> s same wf1 show ?thesis by (auto simp: ws_stage_bytes_def Let_def)
    next
      case (Inr v)
      from staging_written [OF env wf1, of s v fs2 d] c2 Inr obtain fs3 where
        fs3: "write_all_at E 0 d s fs2 = (Inr (), fs3)" "sync_all E s fs3 = (Inr (), fs3)" "fs_wf fs3"
          "file_bytes fs3 = (file_bytes fs1)(s \<mapsto> d)" "\<exists>n. map_of fs3 s = Some n \<and> \<not> is_dirn n"
          "\<forall>q n. map_of fs3 q = Some n \<longrightarrow> is_dirn n \<longrightarrow> map_of fs1 q = Some n" by blast
      have res: "r = Inr ()" "ws' = (lock_arc p ws)\<lparr>ws_pending := AList.update p s (ws_pending ws)\<rparr>" "cw_fs w' = fs3"
        using st c1 c2 Inr \<open>r1 = Inr u\<close> s fs3(1,2) by (auto simp: ws_stage_bytes_def lock_arc_def Let_def)
      have "dirs_from (butlast s) (cw_fs w) fs3"
        using same(2) fs3(6) unfolding dirs_from_def by blast
      with res fs3 same(1) show ?thesis by simp
    qed
  qed
qed

lemma rename_file_target:
  assumes "fs_rename E s p fs = (Inr x, fs')" "map_of fs s = Some n" "\<not> is_dirn n" "s \<noteq> p"
  shows "map_of fs p = Some m \<Longrightarrow> \<not> is_dirn m"
  using assms by (auto simp: fs_rename_def guarded_Inr split: option.splits if_splits)

lemma rename_error:
  assumes "fs_rename E s p fs = (Inl e, fs')" "oe_fault E RenameCall s = None"
  shows "ie_raw e \<noteq> Some libc_exdev"
proof -
  have "\<exists>k. k \<in> {ENOENT, ENOTDIR, EISDIR, EINVAL, ENOTEMPTY} \<and> e = os_error k"
    using assms
    by (auto simp: fs_rename_def guarded_def missing_errno_def parent_errno_def split: option.splits if_splits)
  then show ?thesis by (auto simp: os_error_def errno_defs libc_exdev_def)
qed

lemma copy_effect:
  assumes env: "cow_env_ok E" and wf: "fs_wf fs" and src: "map_of fs s = Some n" "\<not> is_dirn n" and "s \<noteq> p"
    and cp: "fs_copy E s p fs = (Inr x, fs')"
  shows "remove_file E s fs' = (Inr (), AList.delete s fs') \<and> fs_wf (AList.delete s fs')
    \<and> file_bytes (AList.delete s fs') = (file_bytes fs)(p \<mapsto> nd_data n, s := None)
    \<and> dirs_from [] fs (AList.delete s fs')"
proof -
  obtain d mode t xs where n: "n = FileN d mode t xs" using src(2) by (auto simp: not_is_dirn)
  obtain mode' t' xs' where fs': "fs' = AList.update p (FileN d mode' t' xs') fs"
    using cp src(1) by (auto simp: fs_copy_def n fs_ops not_is_dirn split: if_splits)
  have s: "map_of fs' s = Some n" using fs' src(1) \<open>s \<noteq> p\<close> by simp
  then have rm: "remove_file E s fs' = (Inr (), AList.delete s fs')"
    using src(2) cow_env_faults [OF env] by (simp add: remove_file_def guarded_def)
  have "fs_wf fs'" using fs_wf_copy [OF wf, of E s p] cp by simp
  then have "fs_wf (AList.delete s fs')" using fs_wf_remove_file [of fs' E s] rm by simp
  moreover have "file_bytes (AList.delete s fs') = (file_bytes fs)(p \<mapsto> nd_data n, s := None)"
    using \<open>s \<noteq> p\<close> by (auto simp: fs' n file_bytes_delete file_bytes_update)
  moreover have "dirs_from [] fs (AList.delete s fs')"
    unfolding fs' by (intro dirs_from_delete dirs_from_file dirs_from_refl) simp
  ultimately show ?thesis using rm by blast
qed

lemma promote_effect:
  assumes env: "cow_env_ok E" and wf: "fs_wf fs" and src: "map_of fs s = Some n" "\<not> is_dirn n"
    and sep: "\<not> starts_with s p" "\<not> starts_with p s" and "p \<noteq> []"
    and pr: "promote E s p fs = (r, fs')"
  shows "fs_wf fs' \<and> dirs_from [] fs fs'
    \<and> (case r of
         Inr _ \<Rightarrow> file_bytes fs' = (file_bytes fs)(p \<mapsto> nd_data n, s := None)
       | Inl _ \<Rightarrow> fs' = fs)"
proof -
  have "s \<noteq> p" using sep by auto
  obtain r1 fs1 where rn: "fs_rename E s p fs = (r1, fs1)" by (cases "fs_rename E s p fs")
  show ?thesis
  proof (cases r1)
    case (Inr x)
    with rn have fs1: "fs1 = move_tree s p fs" using fs_rename_Inr [of E s p fs x fs1] \<open>s \<noteq> p\<close> by auto
    have "file_bytes fs1 q = ((file_bytes fs)(p \<mapsto> nd_data n, s := None)) q" for q
      using moved_file_bytes [OF wf src sep _ \<open>p \<noteq> []\<close>, of q] rename_file_target [of E s p fs x fs1 n] rn Inr src
        \<open>s \<noteq> p\<close> by (auto simp: fs1)
    then have "file_bytes fs1 = (file_bytes fs)(p \<mapsto> nd_data n, s := None)" ..
    moreover have "dirs_from [] fs fs1"
    proof -
      have "\<not> is_dirn k" if "map_of fs (s @ q) = Some k" for q k
        using below_file [OF wf src, of q] src that by (cases "q = []") auto
      then show ?thesis
        by (auto simp: fs1 dirs_from_def map_of_move_tree [OF sep] split: if_splits)
    qed
    moreover have "fs_wf fs1" using fs_wf_rename [OF wf, of E s p] rn by simp
    ultimately show ?thesis using pr rn Inr by (auto simp: promote_def)
  next
    case (Inl e)
    with rn have fs1: "fs1 = fs" by (auto dest: fs_rename_Inl)
    show ?thesis
    proof (cases "ie_raw e = Some libc_exdev")
      case False
      with pr rn Inl fs1 wf show ?thesis by (auto simp: promote_def)
    next
      case True
      obtain r2 fs2 where cp: "fs_copy E s p fs = (r2, fs2)" by (cases "fs_copy E s p fs")
      show ?thesis
      proof (cases r2)
        case (Inl e')
        with cp have "fs2 = fs" by (auto dest: fs_copy_Inl)
        with pr rn \<open>r1 = Inl e\<close> True fs1 cp Inl wf show ?thesis by (auto simp: promote_def)
      next
        case (Inr y)
        from copy_effect [OF env wf src \<open>s \<noteq> p\<close>, of y fs2] cp Inr
        have "remove_file E s fs2 = (Inr (), AList.delete s fs2)" "fs_wf (AList.delete s fs2)"
          "file_bytes (AList.delete s fs2) = (file_bytes fs)(p \<mapsto> nd_data n, s := None)"
          "dirs_from [] fs (AList.delete s fs2)" by auto
        with pr rn \<open>r1 = Inl e\<close> True fs1 cp Inr show ?thesis by (auto simp: promote_def)
      qed
    qed
  qed
qed

lemma ws_commit_effect:
  assumes env: "cow_env_ok E" and wf: "fs_wf (cw_fs w)" and "p \<noteq> []"
    and pend: "\<And>s. map_of (ws_pending ws) p = Some s \<Longrightarrow>
      \<not> starts_with s p \<and> \<not> starts_with p s \<and> (\<forall>n. map_of (cw_fs w) s = Some n \<longrightarrow> \<not> is_dirn n)"
    and com: "ws_commit_pending E p ws w = (r, ws', w')"
  shows "fs_wf (cw_fs w') \<and> dirs_from (butlast p) (cw_fs w) (cw_fs w')
    \<and> (case r of
         Inr _ \<Rightarrow> (\<exists>s d. map_of (ws_pending ws) p = Some s \<and> file_bytes (cw_fs w) s = Some d
            \<and> ws' = (lock_arc p ws)\<lparr>ws_pending := AList.delete p (ws_pending ws)\<rparr>
            \<and> file_bytes (cw_fs w') = (file_bytes (cw_fs w))(p \<mapsto> d, s := None))
       | Inl _ \<Rightarrow> file_bytes (cw_fs w') = file_bytes (cw_fs w)
            \<and> (ws' = lock_arc p ws
               \<or> ws' = (lock_arc p ws)\<lparr>ws_pending := AList.delete p (ws_pending ws)\<rparr>
                 \<and> (\<forall>s. map_of (ws_pending ws) p = Some s \<longrightarrow> file_bytes (cw_fs w) s = None)))"
proof (cases "map_of (ws_pending ws) p")
  case None
  with com wf show ?thesis by (auto simp: ws_commit_pending_def lock_arc_def)
next
  case (Some s)
  note sep = pend [OF Some]
  show ?thesis
  proof (cases "map_of (cw_fs w) s")
    case None
    with Some com wf show ?thesis
      by (auto simp: ws_commit_pending_def lock_arc_def path_exists_ok [OF env] file_bytes_def)
  next
    case (Some n)
    note n = this
    obtain r1 fs1 where c1: "create_parent_dirs E p (cw_fs w) = (r1, fs1)"
      by (cases "create_parent_dirs E p (cw_fs w)")
    have g: "grown (butlast p) (cw_fs w) fs1" using c1 by (rule create_parent_dirs_grown)
    have wf1: "fs_wf fs1" using fs_wf_create_parent_dirs [OF wf, of E p] c1 by simp
    note same = file_bytes_grown [OF g] dirs_from_grown [OF g]
    have n1: "map_of fs1 s = Some n" "\<not> is_dirn n" using g n sep by (auto simp: grown_def)
    then have d: "file_bytes (cw_fs w) s = Some (nd_data n)" using n by (cases n) (auto simp: file_bytes_def)
    obtain r2 fs2 where c2: "promote E s p fs1 = (r2, fs2)" by (cases "promote E s p fs1")
    from promote_effect [OF env wf1 n1 _ _ \<open>p \<noteq> []\<close> c2] sep
    have fs2: "fs_wf fs2" "dirs_from [] fs1 fs2"
      "case r2 of Inr _ \<Rightarrow> file_bytes fs2 = (file_bytes fs1)(p \<mapsto> nd_data n, s := None) | Inl _ \<Rightarrow> fs2 = fs1"
      by auto
    have dirs: "dirs_from (butlast p) (cw_fs w) fs2"
      using same(2) fs2(1,2) unfolding dirs_from_def
      by (metis fs_wf_not_Nil starts_with_def take_Nil)
    have res: "(case r1 of Inl e \<Rightarrow> r = Inl (WsIo e) \<and> ws' = lock_arc p ws \<and> cw_fs w' = fs1
      | Inr _ \<Rightarrow> (case r2 of Inl e \<Rightarrow> r = Inl (WsIo e) \<and> ws' = lock_arc p ws \<and> cw_fs w' = fs2
          | Inr _ \<Rightarrow> r = Inr () \<and> ws' = (lock_arc p ws)\<lparr>ws_pending := AList.delete p (ws_pending ws)\<rparr> \<and> cw_fs w' = fs2))"
      using com c1 c2 n \<open>map_of (ws_pending ws) p = Some s\<close>
      by (auto simp: ws_commit_pending_def lock_arc_def path_exists_ok [OF env] split: sum.splits)
    show ?thesis
      using res same fs2 dirs wf1 d \<open>map_of (ws_pending ws) p = Some s\<close>
      by (cases r1; cases r2) auto
  qed
qed

lemma ws_commit_nothing:
  assumes "cow_env_ok E" and "\<And>s. map_of (ws_pending ws) p = Some s \<Longrightarrow> map_of (cw_fs w) s = None"
  shows "fst (ws_commit_pending E p ws w) = Inl (NoPending p)"
  using assms by (auto simp: ws_commit_pending_def lock_arc_def path_exists_ok Let_def split: option.splits)

lemma ws_discard_effect:
  assumes env: "cow_env_ok E" and wf: "fs_wf (cw_fs w)"
    and pend: "\<And>s. map_of (ws_pending ws) p = Some s \<Longrightarrow> \<forall>n. map_of (cw_fs w) s = Some n \<longrightarrow> \<not> is_dirn n"
    and dis: "ws_discard_pending E p ws w = (r, ws', w')"
  shows "fs_wf (cw_fs w') \<and> dirs_from [] (cw_fs w) (cw_fs w')
    \<and> (case map_of (ws_pending ws) p of
         None \<Rightarrow> r = Inl (NoPending p) \<and> ws' = lock_arc p ws \<and> w' = w
       | Some s \<Rightarrow> r = Inr () \<and> ws' = (lock_arc p ws)\<lparr>ws_pending := AList.delete p (ws_pending ws)\<rparr>
           \<and> file_bytes (cw_fs w') = (file_bytes (cw_fs w))(s := None))"
proof (cases "map_of (ws_pending ws) p")
  case None
  with dis wf show ?thesis by (auto simp: ws_discard_pending_def lock_arc_def)
next
  case (Some s)
  show ?thesis
  proof (cases "map_of (cw_fs w) s")
    case None
    then have "file_bytes (cw_fs w) = (file_bytes (cw_fs w))(s := None)" by (auto simp: file_bytes_def)
    with None Some dis wf show ?thesis
      by (auto simp: ws_discard_pending_def lock_arc_def path_exists_ok [OF env])
  next
    case (Some n)
    have n: "\<not> is_dirn n" using pend Some \<open>map_of (ws_pending ws) p = Some s\<close> by blast
    then have rm: "remove_file E s (cw_fs w) = (Inr (), AList.delete s (cw_fs w))"
      using Some cow_env_faults [OF env] by (simp add: remove_file_def guarded_def)
    have "fs_wf (AList.delete s (cw_fs w))" using fs_wf_remove_file [OF wf, of E s] rm by simp
    moreover have "file_bytes (AList.delete s (cw_fs w)) = (file_bytes (cw_fs w))(s := None)"
      by (auto simp: file_bytes_delete)
    moreover have "dirs_from [] (cw_fs w) (AList.delete s (cw_fs w))"
      by (intro dirs_from_delete dirs_from_refl)
    ultimately show ?thesis
      using rm Some dis \<open>map_of (ws_pending ws) p = Some s\<close>
      by (auto simp: ws_discard_pending_def lock_arc_def path_exists_ok [OF env])
  qed
qed

section \<open>Overlays: lemmas\<close>

lemma cow_invD:
  assumes "cow_inv hash P ac w"
  shows "fs_wf (cw_fs w)" "ac_root ac \<noteq> []" "inj_on hash P" "p \<in> P \<Longrightarrow> apart (ac_root ac) p"
    "map_of (ac_agents ac) key = Some ws \<Longrightarrow> is_valid_agent_id key \<and> ws_staging_root ws = ac_root ac @ [NormalC key]"
    "map_of (ac_agents ac) key = Some ws \<Longrightarrow> map_of (ws_pending ws) q = Some s \<Longrightarrow>
       q \<in> P \<and> s = slot hash (ac_root ac) key q \<and> (\<forall>n. map_of (cw_fs w) s = Some n \<longrightarrow> \<not> is_dirn n)"
  using assms by (auto simp: cow_inv_def)

lemma apart_not_Nil: "apart root p \<Longrightarrow> p \<noteq> []"
  by (auto simp: apart_def starts_with_def)

text \<open>A change of one store and of the files keeps the invariant.\<close>

lemma cow_inv_frame:
  assumes inv: "cow_inv hash P ac w" and "is_valid_agent_id key" and "fs_wf (cw_fs w')"
    and dirs: "dirs_from X (cw_fs w) (cw_fs w')"
    and X: "\<And>k p. \<not> starts_with X (slot hash (ac_root ac) k p)"
    and root: "ws_staging_root ws' = ac_root ac @ [NormalC key]"
    and pend: "\<And>q s. map_of (ws_pending ws') q = Some s \<Longrightarrow>
      q \<in> P \<and> s = slot hash (ac_root ac) key q \<and> (\<forall>n. map_of (cw_fs w') s = Some n \<longrightarrow> \<not> is_dirn n)"
  shows "cow_inv hash P (ac\<lparr>ac_agents := AList.update key ws' (ac_agents ac)\<rparr>) w'"
proof -
  note D = cow_invD [OF inv]
  have "\<not> is_dirn n" if "map_of (ac_agents ac) k = Some ws" "map_of (ws_pending ws) q = Some s"
    "map_of (cw_fs w') s = Some n" for k ws q s n
    using D(6) [OF that(1,2)] that(3) dirs X unfolding dirs_from_def by blast
  then show ?thesis
    using inv assms(2,3) root pend by (auto simp: cow_inv_def update_conv')
qed

lemma staged_update:
  "staged_bytes (ac\<lparr>ac_agents := AList.update key ws (ac_agents ac)\<rparr>) fs k p =
     (if k = key then (case map_of (ws_pending ws) p of None \<Rightarrow> None | Some s \<Rightarrow> file_bytes fs s)
      else staged_bytes ac fs k p)"
  by (simp add: staged_bytes_def update_conv')

lemma store_for_effect:
  assumes inv: "cow_inv hash P ac w" and key: "is_valid_agent_id key"
    and sf: "store_for E key ac w = (ws, ac', w')"
  shows "cow_inv hash P ac' w' \<and> abs_overlays ac' w' = abs_overlays ac w
    \<and> map_of (ac_agents ac') key = Some ws \<and> ac_root ac' = ac_root ac \<and> ac_default ac' = ac_default ac"
proof (cases "map_of (ac_agents ac) key")
  case (Some ws0)
  with sf inv show ?thesis by (simp add: store_for_def)
next
  case None
  note D = cow_invD [OF inv]
  let ?root = "ac_root ac @ [NormalC key]"
  have root: "comp_join (ac_root ac) (components key) = ?root"
    using D(2) key by (simp add: components_valid comp_join_def is_absolute_def)
  define fs' where "fs' = snd (create_dir_all E ?root (cw_fs w))"
  have res: "ws = \<lparr>ws_staging_root = ?root, ws_locks = {}, ws_pending = []\<rparr>" "w' = w\<lparr>cw_fs := fs'\<rparr>"
    "ac' = ac\<lparr>ac_agents := AList.update key ws (ac_agents ac)\<rparr>"
    using sf None by (auto simp: store_for_def ws_with_staging_root_def root fs'_def Let_def)
  obtain rr where "create_dir_all E ?root (cw_fs w) = (rr, fs')" by (simp add: fs'_def prod_eq_iff)
  then have g: "grown ?root (cw_fs w) fs'" by (rule create_dir_all_grown)
  have wf: "fs_wf fs'" using fs_wf_create_dir_all [OF D(1)] by (simp add: fs'_def)
  have "cow_inv hash P (ac\<lparr>ac_agents := AList.update key ws (ac_agents ac)\<rparr>) w'"
    by (rule cow_inv_frame [where X = ?root, OF inv key])
      (use wf dirs_from_grown [OF g] in \<open>simp_all add: res slot_def starts_with_def\<close>)
  moreover have "staged_bytes ac' fs' = staged_bytes ac (cw_fs w)"
    using None by (intro ext) (simp add: res(1,3) staged_update file_bytes_grown [OF g] staged_bytes_def split: option.split)
  ultimately show ?thesis
    by (simp add: res abs_overlays_def file_bytes_grown [OF g] update_conv' cong: if_cong)
qed

lemma on_store_cases:
  assumes "on_store E f agent ac w = (r, ac', w')"
  obtains ws ac1 w1 ws' where "store_for E (agent_key ac agent) ac w = (ws, ac1, w1)" "f ws w1 = (r, ws', w')"
    "ac' = ac1\<lparr>ac_agents := AList.update (agent_key ac agent) ws' (ac_agents ac1)\<rparr>"
  using assms by (auto simp: on_store_def Let_def split: prod.splits)

lemma store_for_root: "store_for E key ac w = (ws, ac', w') \<Longrightarrow> ac_root ac' = ac_root ac"
  by (auto simp: store_for_def Let_def split: option.splits prod.splits)

text \<open>A staging file that did not change is staged as before.\<close>

lemma staged_same:
  assumes inv: "cow_inv hash P ac w"
    and same: "\<And>q. q \<in> P \<Longrightarrow> file_bytes fs' (slot hash (ac_root ac) k q) = file_bytes (cw_fs w) (slot hash (ac_root ac) k q)"
  shows "staged_bytes ac fs' k q = staged_bytes ac (cw_fs w) k q"
proof (cases "map_of (ac_agents ac) k")
  case (Some ws)
  show ?thesis
  proof (cases "map_of (ws_pending ws) q")
    case (Some s)
    with cow_invD(6) [OF inv \<open>map_of (ac_agents ac) k = Some ws\<close> Some] same \<open>map_of (ac_agents ac) k = Some ws\<close>
    show ?thesis by (simp add: staged_bytes_def)
  qed (simp add: staged_bytes_def Some)
qed (simp add: staged_bytes_def)

lemma slot_in_root: "starts_with (slot hash root k p) root"
  by (simp add: slot_def)

lemma stage_refines:
  assumes env: "cow_env_ok E" and inv: "cow_inv hash P ac w" and ws: "map_of (ac_agents ac) key = Some ws" and "p \<in> P"
    and st: "ws_stage_bytes E hash p d ws w = (r, ws', w')"
  defines "ac' \<equiv> ac\<lparr>ac_agents := AList.update key ws' (ac_agents ac)\<rparr>"
  shows "cow_inv hash P ac' w' \<and> abs_overlays ac' w' =
    (case r of
       Inr _ \<Rightarrow> (abs_overlays ac w)\<lparr>ov_staged := (ov_staged (abs_overlays ac w))
          (key := (ov_staged (abs_overlays ac w) key)(p \<mapsto> d))\<rparr>
     | Inl _ \<Rightarrow> abs_overlays ac w)"
proof -
  note D = cow_invD [OF inv]
  let ?s = "slot hash (ac_root ac) key p"
  have s: "?s = staging_path_for hash (ws_staging_root ws) p"
    using D(2,5) ws staging_slot by simp
  note eff = ws_stage_effect [OF env D(1) st s]
  have short: "\<not> starts_with (butlast ?s) (slot hash (ac_root ac) k q)" for k q
    by (auto simp: slot_def starts_with_def butlast_append dest: arg_cong [of _ _ length])
  have pend: "q \<in> P \<and> t = slot hash (ac_root ac) key q \<and> (\<forall>n. map_of (cw_fs w') t = Some n \<longrightarrow> \<not> is_dirn n)"
    if "map_of (ws_pending ws') q = Some t" for q t
  proof (cases "t = ?s \<and> q = p")
    case True
    have "\<not> is_dirn n" if "map_of (cw_fs w') ?s = Some n" for n
    proof (cases r)
      case (Inl e)
      with eff True \<open>map_of (ws_pending ws') q = Some t\<close> have "map_of (ws_pending ws) p = Some ?s"
        by (auto simp: lock_arc_def)
      with D(6) [OF ws this] eff short that show ?thesis unfolding dirs_from_def by blast
    qed (use eff that in auto)
    with True \<open>p \<in> P\<close> show ?thesis by blast
  next
    case False
    with that eff have old: "map_of (ws_pending ws) q = Some t"
      by (auto simp: lock_arc_def split: sum.splits if_splits)
    from D(6) [OF ws old] have "q \<in> P" "t = slot hash (ac_root ac) key q"
      "\<forall>n. map_of (cw_fs w) t = Some n \<longrightarrow> \<not> is_dirn n" by auto
    with eff short show ?thesis unfolding dirs_from_def by blast
  qed
  have root: "ws_staging_root ws' = ac_root ac @ [NormalC key]"
    using eff D(5) ws by (auto simp: lock_arc_def split: sum.splits)
  have "cow_inv hash P ac' w'"
    unfolding ac'_def
    by (rule cow_inv_frame [where X = "butlast ?s", OF inv]) (use eff short root pend D(5) [OF ws] in auto)
  moreover have "file_bytes (cw_fs w') t = file_bytes (cw_fs w) t" if "t \<noteq> ?s" for t
    using eff that by (auto split: sum.splits)
  note other = this
  have staged: "staged_bytes ac' (cw_fs w') k q =
      (if (\<exists>u. r = Inr u) \<and> k = key \<and> q = p then Some d else staged_bytes ac (cw_fs w) k q)" for k q
  proof (cases "k = key")
    case False
    then have "staged_bytes ac' (cw_fs w') k q = staged_bytes ac (cw_fs w') k q" by (simp add: ac'_def staged_update)
    also have "\<dots> = staged_bytes ac (cw_fs w) k q"
      by (rule staged_same [OF inv]) (use other slot_inj [OF D(3) _ \<open>p \<in> P\<close>] False in blast)
    finally show ?thesis using False by simp
  next
    case True
    have "file_bytes (cw_fs w') t = file_bytes (cw_fs w) t" if "map_of (ws_pending ws) q = Some t" "q \<noteq> p" for t
      using D(6) [OF ws that(1)] slot_inj [OF D(3) _ \<open>p \<in> P\<close>, of q] that(2) other by blast
    then show ?thesis
      using True eff ws
      by (cases "q = p"; cases r)
        (auto simp: ac'_def staged_update staged_bytes_def lock_arc_def split: option.splits)
  qed
  have base: "file_bytes (cw_fs w') t = file_bytes (cw_fs w) t" if "\<not> starts_with t (ac_root ac)" for t
    using other that slot_in_root by metis
  have "abs_overlays ac' w' =
    (case r of
       Inr _ \<Rightarrow> (abs_overlays ac w)\<lparr>ov_staged := (ov_staged (abs_overlays ac w))
          (key := (ov_staged (abs_overlays ac w) key)(p \<mapsto> d))\<rparr>
     | Inl _ \<Rightarrow> abs_overlays ac w)"
    using staged base by (cases r) (auto simp: abs_overlays_def ac'_def fun_eq_iff)
  ultimately show ?thesis by blast
qed

lemma map_of_pending_delete [simp]:
  "map_of (ws_pending (ws\<lparr>ws_pending := AList.delete p (ws_pending ws)\<rparr>)) q = (if q = p then None else map_of (ws_pending ws) q)"
  by (simp add: delete_conv')

text \<open>After a commit or a discard nothing is pending for the path, and other stores are as before.\<close>

lemma clear_refines:
  assumes inv: "cow_inv hash P ac w" and ws: "map_of (ac_agents ac) key = Some ws" and "p \<in> P"
    and ws': "ws' = (lock_arc p ws)\<lparr>ws_pending := AList.delete p (ws_pending ws)\<rparr>"
    and other: "\<And>t. starts_with t (ac_root ac) \<Longrightarrow> t \<noteq> slot hash (ac_root ac) key p \<Longrightarrow> file_bytes fs' t = file_bytes (cw_fs w) t"
  shows "staged_bytes (ac\<lparr>ac_agents := AList.update key ws' (ac_agents ac)\<rparr>) fs' =
    (staged_bytes ac (cw_fs w))(key := (staged_bytes ac (cw_fs w) key)(p := None))"
proof (intro ext)
  fix k q
  note D = cow_invD [OF inv]
  show "staged_bytes (ac\<lparr>ac_agents := AList.update key ws' (ac_agents ac)\<rparr>) fs' k q =
    ((staged_bytes ac (cw_fs w))(key := (staged_bytes ac (cw_fs w) key)(p := None))) k q"
  proof (cases "k = key")
    case False
    have "staged_bytes ac fs' k q = staged_bytes ac (cw_fs w) k q"
      by (rule staged_same [OF inv]) (use other slot_in_root slot_inj [OF D(3) _ \<open>p \<in> P\<close>] False in blast)
    with False show ?thesis by (simp add: staged_update)
  next
    case True
    have "file_bytes fs' t = file_bytes (cw_fs w) t" if "map_of (ws_pending ws) q = Some t" "q \<noteq> p" for t
      using D(6) [OF ws that(1)] slot_inj [OF D(3) _ \<open>p \<in> P\<close>, of q] that(2) other slot_in_root by metis
    with True ws show ?thesis
      by (simp add: staged_update staged_bytes_def ws' lock_arc_def delete_conv' split: option.split)
  qed
qed

lemma lock_refines:
  assumes inv: "cow_inv hash P ac w" and ws: "map_of (ac_agents ac) key = Some ws"
    and "file_bytes (cw_fs w') = file_bytes (cw_fs w)"
  shows "abs_overlays (ac\<lparr>ac_agents := AList.update key (lock_arc p ws) (ac_agents ac)\<rparr>) w' = abs_overlays ac w"
  using assms
  by (auto simp: abs_overlays_def staged_update staged_bytes_def lock_arc_def fun_eq_iff split: option.split)

lemma pending_inv:
  assumes inv: "cow_inv hash P ac w" and ws: "map_of (ac_agents ac) key = Some ws"
    and wf: "fs_wf (cw_fs w')" and dirs: "dirs_from X (cw_fs w) (cw_fs w')"
    and X: "\<And>k q. \<not> starts_with X (slot hash (ac_root ac) k q)"
    and ws': "ws_staging_root ws' = ws_staging_root ws"
      "\<And>q t. map_of (ws_pending ws') q = Some t \<Longrightarrow> map_of (ws_pending ws) q = Some t"
  shows "cow_inv hash P (ac\<lparr>ac_agents := AList.update key ws' (ac_agents ac)\<rparr>) w'"
proof (rule cow_inv_frame [OF inv _ wf dirs X])
  note D = cow_invD [OF inv]
  show "is_valid_agent_id key" "ws_staging_root ws' = ac_root ac @ [NormalC key]"
    using D(5) [OF ws] ws'(1) by simp_all
  fix q t
  assume "map_of (ws_pending ws') q = Some t"
  from D(6) [OF ws ws'(2) [OF this]] dirs X
  show "q \<in> P \<and> t = slot hash (ac_root ac) key q \<and> (\<forall>n. map_of (cw_fs w') t = Some n \<longrightarrow> \<not> is_dirn n)"
    unfolding dirs_from_def by blast
qed

lemma commit_refines:
  assumes env: "cow_env_ok E" and inv: "cow_inv hash P ac w" and ws: "map_of (ac_agents ac) key = Some ws" and "p \<in> P"
    and com: "ws_commit_pending E p ws w = (r, ws', w')"
  defines "ac' \<equiv> ac\<lparr>ac_agents := AList.update key ws' (ac_agents ac)\<rparr>"
  shows "cow_inv hash P ac' w' \<and> (case r of
      Inr _ \<Rightarrow> (\<exists>d. ov_staged (abs_overlays ac w) key p = Some d \<and> abs_overlays ac' w' =
         \<lparr>ov_base = (ov_base (abs_overlays ac w))(p \<mapsto> d),
          ov_staged = (ov_staged (abs_overlays ac w))(key := (ov_staged (abs_overlays ac w) key)(p := None))\<rparr>)
    | Inl _ \<Rightarrow> abs_overlays ac' w' = abs_overlays ac w)
    \<and> (ov_staged (abs_overlays ac w) key p = None \<longrightarrow> r = Inl (NoPending p))"
proof -
  note D = cow_invD [OF inv]
  have ap: "apart (ac_root ac) p" using D(4) \<open>p \<in> P\<close> by blast
  have pend: "\<not> starts_with s p \<and> \<not> starts_with p s \<and> (\<forall>n. map_of (cw_fs w) s = Some n \<longrightarrow> \<not> is_dirn n)"
    if "map_of (ws_pending ws) p = Some s" for s
    using D(6) [OF ws that] apart_slot [OF ap] by simp
  note eff = ws_commit_effect [OF env D(1) apart_not_Nil [OF ap] pend com, simplified]
  have X: "\<not> starts_with (butlast p) (slot hash (ac_root ac) k q)" for k q
    using apart_slot(1) [OF ap] starts_with_trans starts_with_butlast by blast
  have shape: "ws' = lock_arc p ws \<or> ws' = (lock_arc p ws)\<lparr>ws_pending := AList.delete p (ws_pending ws)\<rparr>"
    using eff by (auto split: sum.splits)
  have cinv: "cow_inv hash P ac' w'"
    unfolding ac'_def using eff shape
    by (intro pending_inv [OF inv ws _ _ X]) (auto simp: lock_arc_def delete_conv' split: if_splits)
  have none: "r = Inl (NoPending p)" if "staged_bytes ac (cw_fs w) key p = None"
  proof -
    have "map_of (cw_fs w) s = None" if s: "map_of (ws_pending ws) p = Some s" for s
      using \<open>staged_bytes ac (cw_fs w) key p = None\<close> pend [OF s] ws s
      by (cases "map_of (cw_fs w) s"; cases "the (map_of (cw_fs w) s)") (auto simp: staged_bytes_def file_bytes_def)
    then show ?thesis using ws_commit_nothing [OF env] com by (metis fst_conv)
  qed
  show ?thesis
  proof (cases r)
    case (Inr u)
    with eff obtain s d where sd: "map_of (ws_pending ws) p = Some s" "file_bytes (cw_fs w) s = Some d"
      "ws' = (lock_arc p ws)\<lparr>ws_pending := AList.delete p (ws_pending ws)\<rparr>"
      "file_bytes (cw_fs w') = (file_bytes (cw_fs w))(p \<mapsto> d, s := None)" by auto
    have s: "s = slot hash (ac_root ac) key p" using D(6) [OF ws sd(1)] by simp
    have "staged_bytes ac' (cw_fs w') = (staged_bytes ac (cw_fs w))(key := (staged_bytes ac (cw_fs w) key)(p := None))"
      unfolding ac'_def using ap sd(4) s by (intro clear_refines [OF inv ws \<open>p \<in> P\<close> sd(3)]) (auto simp: apart_def)
    moreover have "staged_bytes ac (cw_fs w) key p = Some d" using ws sd by (simp add: staged_bytes_def)
    ultimately show ?thesis
      using cinv Inr sd(4) s ap slot_in_root [of hash "ac_root ac" key p]
      by (auto simp: abs_overlays_def ac'_def apart_def fun_eq_iff)
  next
    case (Inl e)
    have fb: "file_bytes (cw_fs w') = file_bytes (cw_fs w)" using eff Inl by auto
    have "abs_overlays ac' w' = abs_overlays ac w"
    proof (cases "ws' = lock_arc p ws")
      case True
      then show ?thesis using lock_refines [OF inv ws fb] by (simp add: ac'_def)
    next
      case False
      with eff Inl have ws': "ws' = (lock_arc p ws)\<lparr>ws_pending := AList.delete p (ws_pending ws)\<rparr>"
        and gone: "\<forall>s. map_of (ws_pending ws) p = Some s \<longrightarrow> file_bytes (cw_fs w) s = None" by auto
      have "staged_bytes ac (cw_fs w) key p = None"
        using gone ws by (auto simp: staged_bytes_def split: option.splits)
      with clear_refines [OF inv ws \<open>p \<in> P\<close> ws', of "cw_fs w'"] fb show ?thesis
        by (auto simp: abs_overlays_def ac'_def fun_eq_iff)
    qed
    with cinv Inl none show ?thesis by (simp add: abs_overlays_def)
  qed
qed

lemma discard_refines:
  assumes env: "cow_env_ok E" and inv: "cow_inv hash P ac w" and ws: "map_of (ac_agents ac) key = Some ws" and "p \<in> P"
    and dis: "ws_discard_pending E p ws w = (r, ws', w')"
  defines "ac' \<equiv> ac\<lparr>ac_agents := AList.update key ws' (ac_agents ac)\<rparr>"
  shows "cow_inv hash P ac' w' \<and> abs_overlays ac' w' = (abs_overlays ac w)\<lparr>ov_staged :=
      (ov_staged (abs_overlays ac w))(key := (ov_staged (abs_overlays ac w) key)(p := None))\<rparr>
    \<and> (ov_staged (abs_overlays ac w) key p \<noteq> None \<longrightarrow> r = Inr ())"
proof -
  note D = cow_invD [OF inv]
  have pend: "\<forall>n. map_of (cw_fs w) s = Some n \<longrightarrow> \<not> is_dirn n" if "map_of (ws_pending ws) p = Some s" for s
    using D(6) [OF ws that] by blast
  note eff = ws_discard_effect [OF env D(1) pend dis, simplified]
  have X: "\<not> starts_with [] (slot hash (ac_root ac) k q)" for k q by (simp add: slot_def starts_with_def)
  have cinv: "cow_inv hash P ac' w'"
    unfolding ac'_def using eff
    by (intro pending_inv [OF inv ws _ _ X]) (auto simp: lock_arc_def delete_conv' split: if_splits option.splits)
  show ?thesis
  proof (cases "map_of (ws_pending ws) p")
    case None
    then have "staged_bytes ac (cw_fs w) key p = None" using ws by (simp add: staged_bytes_def)
    then have "abs_overlays ac w = (abs_overlays ac w)\<lparr>ov_staged :=
        (ov_staged (abs_overlays ac w))(key := (ov_staged (abs_overlays ac w) key)(p := None))\<rparr>"
      by (auto simp: abs_overlays_def fun_eq_iff)
    with None eff cinv lock_refines [OF inv ws, of w p] \<open>staged_bytes ac (cw_fs w) key p = None\<close> show ?thesis
      by (auto simp: ac'_def abs_overlays_def)
  next
    case (Some s)
    then have s: "s = slot hash (ac_root ac) key p" using D(6) [OF ws] by blast
    have "staged_bytes ac' (cw_fs w') = (staged_bytes ac (cw_fs w))(key := (staged_bytes ac (cw_fs w) key)(p := None))"
      unfolding ac'_def using eff Some s by (intro clear_refines [OF inv ws \<open>p \<in> P\<close>]) auto
    with eff Some cinv s slot_in_root [of hash "ac_root ac" key p] show ?thesis
      by (auto simp: abs_overlays_def ac'_def fun_eq_iff)
  qed
qed

lemma cow_step_refines:
  assumes env: "cow_env_ok E" and inv: "cow_inv hash P ac w" and "op_path x \<in> P"
    and step: "cow_step E hash x ac w = (r, ac', w')"
  shows "cow_inv hash P ac' w' \<and> agent_key ac' = agent_key ac
    \<and> abs_overlays ac' w' = (if r = Inr () then spec_step (agent_key ac) x (abs_overlays ac w) else abs_overlays ac w)
    \<and> (\<forall>a p. x = CommitOp a p \<longrightarrow> ov_staged (abs_overlays ac w) (agent_key ac a) p = None \<longrightarrow> r = Inl (NoPending p))"
proof -
  define f where "f = (case x of StageOp a p d \<Rightarrow> ws_stage_bytes E hash p d | CommitOp a p \<Rightarrow> ws_commit_pending E p
       | DiscardOp a p \<Rightarrow> ws_discard_pending E p)"
  define a where "a = (case x of StageOp a p d \<Rightarrow> a | CommitOp a p \<Rightarrow> a | DiscardOp a p \<Rightarrow> a)"
  have f: "cow_step E hash x ac w = on_store E f a ac w"
    by (cases x) (simp_all add: f_def a_def ac_stage_bytes_def ac_commit_pending_def ac_discard_pending_def)
  note f = f f_def a_def
  let ?key = "agent_key ac a"
  from step have "on_store E f a ac w = (r, ac', w')" by (simp add: f(1))
  then obtain ws ac1 w1 ws' where st: "store_for E ?key ac w = (ws, ac1, w1)" "f ws w1 = (r, ws', w')"
    "ac' = ac1\<lparr>ac_agents := AList.update ?key ws' (ac_agents ac1)\<rparr>" by (rule on_store_cases)
  from store_for_effect [OF inv _ st(1)] have s: "cow_inv hash P ac1 w1" "abs_overlays ac1 w1 = abs_overlays ac w"
    "map_of (ac_agents ac1) ?key = Some ws" "ac_default ac1 = ac_default ac" by simp_all
  have key: "agent_key ac' = agent_key ac" using s(4) by (simp add: st(3) agent_key_def fun_eq_iff split: option.split)
  show ?thesis
  proof (cases x)
    case (StageOp b p d)
    with stage_refines [OF env s(1,3), of p d r ws' w'] st assms(3) f s(2) key show ?thesis
      by (cases r) simp_all
  next
    case (CommitOp b p)
    with commit_refines [OF env s(1,3), of p r ws' w'] st assms(3) f s(2) key show ?thesis
      by (cases r) auto
  next
    case (DiscardOp b p)
    with discard_refines [OF env s(1,3), of p r ws' w'] st assms(3) f s(2) key show ?thesis
      by (cases "r = Inr ()") (auto simp: fun_eq_iff)
  qed
qed

lemma cow_run_refines:
  assumes "cow_inv hash P ac w" and "\<forall>(E, x) \<in> set xs. cow_env_ok E \<and> op_path x \<in> P"
  shows "let (rs, ac', w') = cow_run hash xs ac w
    in length rs = length xs \<and> cow_inv hash P ac' w' \<and>
       abs_overlays ac' w' = foldl (\<lambda>v (r, x). if r = Inr () then spec_step (agent_key ac) x v else v)
         (abs_overlays ac w) (zip rs (map snd xs))"
  using assms
proof (induction xs arbitrary: ac w)
  case (Cons y xs)
  obtain E x where y: "y = (E, x)" by (cases y)
  obtain r ac1 w1 where st: "cow_step E hash x ac w = (r, ac1, w1)" by (cases "cow_step E hash x ac w")
  from Cons.prems y have ok: "cow_env_ok E" "op_path x \<in> P" by auto
  note one = cow_step_refines [OF ok(1) Cons.prems(1) ok(2) st]
  from Cons.IH [of ac1 w1] Cons.prems(2) one show ?case
    by (auto simp: y st split: prod.splits cong: if_cong)
qed simp

text \<open>With the directories in place and no faults, staging and committing succeed.\<close>

definition ready :: "(path \<Rightarrow> u64) \<Rightarrow> path \<Rightarrow> string \<Rightarrow> path \<Rightarrow> fs \<Rightarrow> bool" where
  "ready hash root key p fs \<longleftrightarrow>
     (\<exists>n. map_of fs root = Some n \<and> is_dirn n)
     \<and> (\<forall>n. map_of fs (root @ [NormalC key]) = Some n \<longrightarrow> is_dirn n)
     \<and> (\<forall>n. map_of fs (slot hash root key p) = Some n \<longrightarrow> \<not> is_dirn n)
     \<and> (\<exists>n. map_of fs (butlast p) = Some n \<and> is_dirn n) \<and> (\<forall>n. map_of fs p = Some n \<longrightarrow> \<not> is_dirn n)"

lemma ws_stage_ok:
  assumes E: "no_fault E" and "root \<noteq> []" and rt: "ws_staging_root ws = root @ [NormalC key]"
    and rd: "ready hash root key p (cw_fs w)"
  shows "\<exists>fs'. ws_stage_bytes E hash p d ws w =
      (Inr (), (lock_arc p ws)\<lparr>ws_pending := AList.update p (slot hash root key p) (ws_pending ws)\<rparr>,
       w\<lparr>cw_fs := fs', cw_meters := record_stage (cw_meters w)\<rparr>)
    \<and> (\<exists>n. map_of fs' (slot hash root key p) = Some n \<and> \<not> is_dirn n)
    \<and> (\<forall>q. q \<noteq> slot hash root key p \<and> q \<noteq> root @ [NormalC key] \<longrightarrow> map_of fs' q = map_of (cw_fs w) q)"
proof -
  let ?s = "slot hash root key p" and ?d = "root @ [NormalC key]"
  have bl: "butlast ?s = ?d" "butlast ?d = root" "?s \<noteq> []" "?s \<noteq> [RootDir]" "?s \<noteq> ?d"
    by (simp_all add: slot_def butlast_append)
  have "parent_errno (cw_fs w) ?d = None"
    using rd bl by (auto simp: parent_errno_def ready_def)
  then obtain fs1 where c1: "create_dir_all E ?d (cw_fs w) = (Inr (), fs1)" "\<exists>n. map_of fs1 ?d = Some n \<and> is_dirn n"
    "\<forall>q. q \<noteq> ?d \<longrightarrow> map_of fs1 q = map_of (cw_fs w) q"
    using create_dir_all_in_parent [of E ?d "cw_fs w"] E rd by (auto simp: no_fault_def ready_def)
  have cp: "create_parent_dirs E ?s (cw_fs w) = (Inr (), fs1)"
    using c1(1) bl by (simp add: create_parent_dirs_def parent_path_def)
  have "map_of fs1 ?s = map_of (cw_fs w) ?s" using c1(3) bl(5) by blast
  note old = this
  define f where "f = (case map_of fs1 ?s of
      None \<Rightarrow> FileN [] (0x1B6 AND NOT (oe_umask E)) (oe_now E) [] | Some n \<Rightarrow> truncate_node (oe_now E) n)"
  have par: "parent_errno fs1 ?s = None" using c1(2) bl(1) by (auto simp: parent_errno_def)
  have f: "\<not> is_dirn f \<and> file_create E ?s fs1 = (Inr (), AList.update ?s f fs1)"
  proof (cases "map_of fs1 ?s")
    case None
    with E par show ?thesis by (simp add: f_def file_create_def make_node_def)
  next
    case (Some n)
    then have "\<not> is_dirn n" using rd old by (simp add: ready_def)
    with E Some show ?thesis by (simp add: f_def file_create_def on_file_def)
  qed
  let ?fs2 = "AList.update ?s f fs1" and ?g = "write_node (oe_now E) 0 d f"
  have w2: "write_all_at E 0 d ?s ?fs2 = (Inr (), AList.update ?s ?g ?fs2)"
    using E f by (simp add: write_all_at_def on_file_def)
  have y: "sync_all E ?s fs0 = (Inr (), fs0)" for fs0 using E by (simp add: sync_all_def)
  have "ws_stage_bytes E hash p d ws w =
      (Inr (), (lock_arc p ws)\<lparr>ws_pending := AList.update p ?s (ws_pending ws)\<rparr>,
       w\<lparr>cw_fs := AList.update ?s ?g ?fs2, cw_meters := record_stage (cw_meters w)\<rparr>)"
    using cp f w2 y by (simp add: ws_stage_bytes_def rt Let_def staging_slot [OF assms(2)] lock_arc_def)
  moreover have "\<forall>q. q \<noteq> ?s \<and> q \<noteq> ?d \<longrightarrow> map_of (AList.update ?s ?g ?fs2) q = map_of (cw_fs w) q"
    using c1(3) by simp
  moreover have "map_of (AList.update ?s ?g ?fs2) ?s = Some ?g" "\<not> is_dirn ?g" using f by simp_all
  ultimately show ?thesis by blast
qed

lemma ws_commit_ok:
  assumes E: "no_fault E" and ap: "apart root p" and pend: "map_of (ws_pending ws) p = Some s"
    and s: "s = slot hash root key p" "map_of (cw_fs w) s = Some n" "\<not> is_dirn n"
    and par: "\<exists>m. map_of (cw_fs w) (butlast p) = Some m \<and> is_dirn m" and p: "\<And>m. map_of (cw_fs w) p = Some m \<Longrightarrow> \<not> is_dirn m"
    and wf: "fs_wf (cw_fs w)"
  shows "fst (ws_commit_pending E p ws w) = Inr ()"
proof -
  have "p \<noteq> [RootDir]" using p fs_wf_root [OF wf] by auto
  then have "parent_path p = Some (butlast p)" using apart_not_Nil [OF ap] by (simp add: parent_path_def)
  then have cp: "create_parent_dirs E p (cw_fs w) = (Inr (), cw_fs w)"
    using par E by (auto simp: create_parent_dirs_def no_fault_def intro: create_dir_all_present)
  have "parent_errno (cw_fs w) p = None" using par by (auto simp: parent_errno_def)
  then have "promote E s p (cw_fs w) = (Inr (), move_tree s p (cw_fs w))"
    using E s p apart_slot [OF ap, of hash key p]
    by (auto simp: promote_def fs_rename_def split: option.split)
  moreover have "path_exists E (cw_fs w) s" using E s by (simp add: path_exists_def fs_metadata_eq no_fault_def)
  ultimately show ?thesis using cp pend by (simp add: ws_commit_pending_def lock_arc_def)
qed

lemma stage_commit_ok:
  assumes E: "no_fault E" and inv: "cow_inv hash P ac w" and "p \<in> P"
    and rd: "ready hash (ac_root ac) (agent_key ac a) p (cw_fs w)"
    and st: "ac_stage_bytes E hash a p d ac w = (r1, ac1, w1)" and co: "ac_commit_pending E a p ac1 w1 = (r2, ac2, w2)"
  shows "r1 = Inr () \<and> r2 = Inr ()"
proof -
  let ?root = "ac_root ac" and ?key = "agent_key ac a"
  let ?s = "slot hash ?root ?key p"
  note D = cow_invD [OF inv]
  have env: "cow_env_ok E" using E by (simp add: cow_env_ok_def no_fault_def)
  have ap: "apart ?root p" using D(4) \<open>p \<in> P\<close> by blast
  have nb: "\<not> starts_with (butlast p) ?root" "\<not> starts_with p ?root"
    using ap starts_with_trans [OF starts_with_butlast] by (auto simp: apart_def)
  have bp: "butlast p \<noteq> ?root @ [NormalC ?key]" "p \<noteq> ?root @ [NormalC ?key]" "butlast p \<noteq> ?s" "p \<noteq> ?s"
    using nb slot_in_root starts_with_append by metis+
  from st obtain ws acs ws' wst where sf: "store_for E ?key ac w = (ws, acs, wst)"
    "ws_stage_bytes E hash p d ws wst = (r1, ws', w1)" "ac1 = acs\<lparr>ac_agents := AList.update ?key ws' (ac_agents acs)\<rparr>"
    unfolding ac_stage_bytes_def by (rule on_store_cases)
  note se = store_for_effect [OF inv agent_key_valid sf(1)]
  have rd1: "ready hash ?root ?key p (cw_fs wst)"
  proof (cases "map_of (ac_agents ac) ?key")
    case (Some x)
    with sf(1) rd show ?thesis by (simp add: store_for_def)
  next
    case None
    have root: "comp_join ?root (components ?key) = ?root @ [NormalC ?key]"
      using D(2) by (simp add: components_valid comp_join_def is_absolute_def)
    have "parent_errno (cw_fs w) (?root @ [NormalC ?key]) = None"
      using rd by (auto simp: parent_errno_def ready_def)
    then obtain fs1 where "create_dir_all E (?root @ [NormalC ?key]) (cw_fs w) = (Inr (), fs1)"
      "\<exists>n. map_of fs1 (?root @ [NormalC ?key]) = Some n \<and> is_dirn n"
      "\<forall>q. q \<noteq> ?root @ [NormalC ?key] \<longrightarrow> map_of fs1 q = map_of (cw_fs w) q"
      using create_dir_all_in_parent [of E "?root @ [NormalC ?key]" "cw_fs w"] E rd by (auto simp: no_fault_def ready_def)
    moreover have "cw_fs wst = snd (create_dir_all E (?root @ [NormalC ?key]) (cw_fs w))"
      using sf(1) None by (auto simp: store_for_def ws_with_staging_root_def root Let_def)
    moreover have "?s \<noteq> ?root @ [NormalC ?key]" by (simp add: slot_def)
    ultimately show ?thesis using rd bp by (auto simp: ready_def)
  qed
  have rts: "ws_staging_root ws = ?root @ [NormalC ?key]"
    using cow_invD(5) [of hash P acs wst ?key ws] se by simp
  from ws_stage_ok [OF E D(2) rts rd1, of d] sf(2) obtain fs' where
    r1: "r1 = Inr ()" and ws': "ws' = (lock_arc p ws)\<lparr>ws_pending := AList.update p ?s (ws_pending ws)\<rparr>"
    and w1: "cw_fs w1 = fs'" "\<exists>n. map_of fs' ?s = Some n \<and> \<not> is_dirn n"
      "\<forall>q. q \<noteq> ?s \<and> q \<noteq> ?root @ [NormalC ?key] \<longrightarrow> map_of fs' q = map_of (cw_fs wst) q"
    by auto
  have inv1: "cow_inv hash P ac1 w1"
    using cow_step_refines [OF env inv, of "StageOp a p d" r1 ac1 w1] st \<open>p \<in> P\<close> by simp
  have key1: "agent_key ac1 a = ?key" using se by (simp add: sf(3) agent_key_def split: option.split)
  have "store_for E ?key ac1 w1 = (ws', ac1, w1)" by (simp add: store_for_def sf(3) update_conv')
  then have r2: "r2 = fst (ws_commit_pending E p ws' w1)"
    using co by (simp add: ac_commit_pending_def on_store_def key1 split: prod.splits)
  obtain n where n: "map_of fs' ?s = Some n" "\<not> is_dirn n" using w1(2) by blast
  have "fst (ws_commit_pending E p ws' w1) = Inr ()"
  proof (rule ws_commit_ok [OF E ap])
    show "map_of (ws_pending ws') p = Some ?s" by (simp add: ws' update_conv')
    show "?s = slot hash ?root ?key p" ..
    show "map_of (cw_fs w1) ?s = Some n" "\<not> is_dirn n" using n w1(1) by simp_all
    show "\<exists>m. map_of (cw_fs w1) (butlast p) = Some m \<and> is_dirn m"
      using rd1 bp w1 by (simp add: ready_def)
    show "\<not> is_dirn m" if "map_of (cw_fs w1) p = Some m" for m
      using rd1 bp w1 that by (simp add: ready_def)
    show "fs_wf (cw_fs w1)" using cow_invD(1) [OF inv1] .
  qed
  with r1 r2 show ?thesis by simp
qed

section \<open>Provenance: lemmas\<close>

lemma of_char_bound: "(of_char c :: nat) < 256"
  by (metis of_char_of mod_less_divisor zero_less_numeral char_of_char)

lemma unat_of_char [simp]: "unat (of_nat (of_char c) :: u8) = of_char c"
  using of_char_bound [of c] by (simp add: unat_of_nat)

lemma from_utf8_as_bytes: "utf8_ok (as_bytes s) \<Longrightarrow> from_utf8 (as_bytes s) = Some s"
  by (simp add: from_utf8_def as_bytes_def comp_def)

lemma ascii_utf8: "\<forall>b \<in> set bs. b < 0x80 \<Longrightarrow> utf8_ok bs"
  by (induction bs) auto

lemma utf8_digits: "utf8_ok (as_bytes (show_nat n))"
proof (rule ascii_utf8, rule ballI)
  fix b
  assume "b \<in> set (as_bytes (show_nat n))"
  then obtain c where c: "c \<in> set (show_nat n)" "b = of_nat (of_char c)" by (auto simp: as_bytes_def)
  then have "(of_char c :: nat) \<le> 57" using show_nat_digits by (auto simp: is_digit_char_def Let_def)
  then show "b < 0x80" using c(2) by (simp add: word_less_nat_alt)
qed

lemma set_attr_ok:
  assumes "no_fault E" and "map_of fs p = Some n" "\<not> is_dirn n"
  shows "set_attr E p k v fs = (Inr (), AList.update p (set_attr_node k v n) fs)"
  using assms by (simp add: set_attr_def xattr_set_def on_file_def)

section \<open>Properties\<close>

text \<open>
  C12: the overlays implement their specification. Over every history of stage, commit and discard
  calls by any agents, with staging on another device than the files or not, the files and every
  agent's staged contents are what the successful calls make them, and a call that fails changes
  nothing of them; so no agent sees or disturbs what another one has staged. The staged paths are
  to be outside the overlay directories and their hashes distinct.
\<close>

theorem overlays_implement_spec:
  assumes "cow_inv hash P ac w" and "\<forall>(E, x) \<in> set xs. cow_env_ok E \<and> op_path x \<in> P"
  shows "let (rs, ac', w') = cow_run hash xs ac w
    in length rs = length xs \<and> cow_inv hash P ac' w' \<and>
       abs_overlays ac' w' = foldl (\<lambda>v (r, x). if r = Inr () then spec_step (agent_key ac) x v else v)
         (abs_overlays ac w) (zip rs (map snd xs))"
  using assms by (rule cow_run_refines)

lemma demo_ok:
  "cow_inv (\<lambda>_. 7) {demo_path} demo_cow demo_world" "no_fault demo_env" "cow_env_ok demo_env"
  "agent_key demo_cow (Some ''a'') = ''a''" "agent_key demo_cow (Some ''b'') = ''b''"
proof -
  have "fs_wf demo_fs" by (auto simp: fs_wf_def demo_fs_def)
  then show "cow_inv (\<lambda>_. 7) {demo_path} demo_cow demo_world"
    by (simp add: cow_inv_def demo_cow_def demo_world_def demo_path_def apart_def starts_with_def)
  show "no_fault demo_env" "cow_env_ok demo_env" by (simp_all add: no_fault_def cow_env_ok_def demo_env_def)
  have "is_valid_agent_id ''a''" "is_valid_agent_id ''b''"
    by (simp_all add: is_valid_agent_id_def agent_char_def is_ascii_alphanumeric_def)
  then show "agent_key demo_cow (Some ''a'') = ''a''" "agent_key demo_cow (Some ''b'') = ''b''"
    by (simp_all add: agent_key_def sanitize_id)
qed

theorem overlays_implement_spec_witness:
  "let (rs, ac, w) = cow_run (\<lambda>_. 7) [(demo_env, StageOp (Some ''a'') demo_path [1]),
        (demo_env, StageOp (Some ''b'') demo_path [2])] demo_cow demo_world
   in length rs = 2 \<and> (rs ! 0 = Inr () \<and> rs ! 1 = Inr () \<longrightarrow>
        ov_staged (abs_overlays ac w) ''a'' demo_path = Some [1] \<and> ov_staged (abs_overlays ac w) ''b'' demo_path = Some [2])"
proof -
  let ?xs = "[(demo_env, StageOp (Some ''a'') demo_path [1]), (demo_env, StageOp (Some ''b'') demo_path [2])]"
  obtain rs ac w where run: "cow_run (\<lambda>_. 7) ?xs demo_cow demo_world = (rs, ac, w)"
    by (cases "cow_run (\<lambda>_. 7) ?xs demo_cow demo_world")
  from overlays_implement_spec [OF demo_ok(1), of ?xs] demo_ok run have
    spec: "abs_overlays ac w = foldl (\<lambda>v (r, x). if r = Inr () then spec_step (agent_key demo_cow) x v else v)
      (abs_overlays demo_cow demo_world) (zip rs (map snd ?xs))" and len: "length rs = 2" by auto
  from len obtain r1 r2 where "rs = [r1, r2]" by (auto simp: length_Suc_conv numeral_2_eq_2)
  with spec demo_ok show ?thesis by (simp only: run) auto
qed

text \<open>
  With no faults and the directories in place, staging and then committing succeed, the file
  has exactly the staged contents, and no other file outside the overlays is touched.
\<close>

theorem commit_installs_staged:
  assumes "no_fault E" and "cow_inv hash P ac w" and "p \<in> P"
    and "ready hash (ac_root ac) (agent_key ac a) p (cw_fs w)"
  shows "let (r1, ac1, w1) = ac_stage_bytes E hash a p d ac w; (r2, ac2, w2) = ac_commit_pending E a p ac1 w1
    in r1 = Inr () \<and> r2 = Inr () \<and> file_bytes (cw_fs w1) p = file_bytes (cw_fs w) p
       \<and> file_bytes (cw_fs w2) p = Some d
       \<and> (\<forall>q. q \<noteq> p \<and> \<not> starts_with q (ac_root ac) \<longrightarrow> file_bytes (cw_fs w2) q = file_bytes (cw_fs w) q)"
proof -
  obtain r1 ac1 w1 where st: "ac_stage_bytes E hash a p d ac w = (r1, ac1, w1)"
    by (cases "ac_stage_bytes E hash a p d ac w")
  obtain r2 ac2 w2 where co: "ac_commit_pending E a p ac1 w1 = (r2, ac2, w2)"
    by (cases "ac_commit_pending E a p ac1 w1")
  have env: "cow_env_ok E" using assms(1) by (simp add: cow_env_ok_def no_fault_def)
  have ok: "r1 = Inr ()" "r2 = Inr ()" using stage_commit_ok [OF assms(1-4) st co] by simp_all
  from cow_step_refines [OF env assms(2), of "StageOp a p d" r1 ac1 w1] st assms(3) ok
  have s1: "cow_inv hash P ac1 w1" "agent_key ac1 = agent_key ac"
    "abs_overlays ac1 w1 = spec_step (agent_key ac) (StageOp a p d) (abs_overlays ac w)" by simp_all
  from cow_step_refines [OF env s1(1), of "CommitOp a p" r2 ac2 w2] co assms(3) ok s1
  have s2: "abs_overlays ac2 w2 = spec_step (agent_key ac) (CommitOp a p)
      (spec_step (agent_key ac) (StageOp a p d) (abs_overlays ac w))" by simp
  have roots: "ac_root ac1 = ac_root ac" "ac_root ac2 = ac_root ac"
    using store_for_root st co by (auto simp: ac_stage_bytes_def ac_commit_pending_def elim!: on_store_cases)
  have "apart (ac_root ac) p" using cow_invD(4) [OF assms(2,3)] .
  then have p: "\<not> starts_with p (ac_root ac)" by (simp add: apart_def)
  have "ov_base (abs_overlays ac1 w1) = ov_base (abs_overlays ac w)"
    "ov_base (abs_overlays ac2 w2) = (ov_base (abs_overlays ac w))(p \<mapsto> d)"
    by (simp_all add: s1(3) s2)
  then have "(if starts_with q (ac_root ac) then None else file_bytes (cw_fs w1) q) =
      (if starts_with q (ac_root ac) then None else file_bytes (cw_fs w) q)"
    "(if starts_with q (ac_root ac) then None else file_bytes (cw_fs w2) q) =
      (if q = p then Some d else if starts_with q (ac_root ac) then None else file_bytes (cw_fs w) q)" for q
    by (simp_all add: abs_overlays_def roots fun_eq_iff)
  note at = this
  have "file_bytes (cw_fs w1) p = file_bytes (cw_fs w) p" using at(1) [of p] p by simp
  moreover have "file_bytes (cw_fs w2) p = Some d" using at(2) [of p] p by simp
  moreover have "file_bytes (cw_fs w2) q = file_bytes (cw_fs w) q" if "q \<noteq> p \<and> \<not> starts_with q (ac_root ac)" for q
    using at(2) [of q] that by simp
  ultimately show ?thesis by (simp add: st co ok)
qed

theorem commit_installs_staged_witness:
  "let (r1, ac1, w1) = ac_stage_bytes demo_env (\<lambda>_. 7) (Some ''a'') demo_path [1, 2] demo_cow demo_world;
       (r2, ac2, w2) = ac_commit_pending demo_env (Some ''a'') demo_path ac1 w1
   in r1 = Inr () \<and> r2 = Inr () \<and> file_bytes (cw_fs w1) demo_path = None \<and> file_bytes (cw_fs w2) demo_path = Some [1, 2]"
proof -
  have "ready (\<lambda>_. 7) (ac_root demo_cow) (agent_key demo_cow (Some ''a'')) demo_path (cw_fs demo_world)"
    by (simp add: ready_def demo_ok(4) slot_def demo_cow_def demo_world_def demo_fs_def demo_path_def)
  from commit_installs_staged [OF demo_ok(2,1) _ this, of "[1, 2]"]
  have "let (r1, ac1, w1) = ac_stage_bytes demo_env (\<lambda>_. 7) (Some ''a'') demo_path [1, 2] demo_cow demo_world;
       (r2, ac2, w2) = ac_commit_pending demo_env (Some ''a'') demo_path ac1 w1
   in r1 = Inr () \<and> r2 = Inr () \<and> file_bytes (cw_fs w1) demo_path = file_bytes (cw_fs demo_world) demo_path
      \<and> file_bytes (cw_fs w2) demo_path = Some [1, 2]"
    by (simp add: Let_def split: prod.splits)
  moreover have "file_bytes (cw_fs demo_world) demo_path = None"
    by (simp add: file_bytes_def demo_world_def demo_fs_def demo_path_def)
  ultimately show ?thesis by (simp add: Let_def split: prod.splits)
qed

text \<open>
  Annotating a file and reading the annotation back gives the session and the time, for every
  session name that is text, and changes neither the contents nor anything but the two attributes.
\<close>

theorem provenance_roundtrip:
  assumes "no_fault E" and "map_of fs p = Some (FileN d mode t xs)" and "session \<noteq> []" and "utf8_ok (as_bytes session)"
  shows "\<exists>xs' fs'. annotate_write_at E p session time fs = (Inr (), fs')
    \<and> read_provenance E fs' p = Inr (Some \<lparr>wp_session_id = session, wp_written_at_unix = time\<rparr>)
    \<and> map_of fs' p = Some (FileN d mode t xs') \<and> (\<forall>q. q \<noteq> p \<longrightarrow> map_of fs' q = map_of fs q)
    \<and> (\<forall>k. k \<noteq> ATTR_SESSION \<and> k \<noteq> ATTR_WRITTEN_AT \<longrightarrow> map_of xs' k = map_of xs k)"
proof -
  define xs1 where "xs1 = AList.update ATTR_SESSION (as_bytes session) xs"
  define xs2 where "xs2 = AList.update ATTR_WRITTEN_AT (as_bytes (show_word time)) xs1"
  define fs1 where "fs1 = AList.update p (FileN d mode t xs1) fs"
  define fs2 where "fs2 = AList.update p (FileN d mode t xs2) fs1"
  have ne: "ATTR_SESSION \<noteq> ATTR_WRITTEN_AT" by (simp add: ATTR_SESSION_def ATTR_WRITTEN_AT_def)
  have "set_attr E p ATTR_SESSION (as_bytes session) fs = (Inr (), fs1)"
    using set_attr_ok [OF assms(1,2)] by (simp add: fs1_def xs1_def)
  moreover have "set_attr E p ATTR_WRITTEN_AT (as_bytes (show_word time)) fs1 = (Inr (), fs2)"
    using set_attr_ok [OF assms(1), of fs1 p "FileN d mode t xs1"] by (simp add: fs1_def fs2_def xs2_def)
  ultimately have ann: "annotate_write_at E p session time fs = (Inr (), fs2)"
    using assms(3) by (simp add: annotate_write_at_def)
  have get: "get_attr E fs2 p ATTR_SESSION = Inr (Some (as_bytes session))"
    "get_attr E fs2 p ATTR_WRITTEN_AT = Inr (Some (as_bytes (show_word time)))"
    using assms(1) ne by (simp_all add: get_attr_def xattr_get_def fs2_def xs2_def xs1_def update_conv')
  have "unat time < 2 ^ 64" using unat_bound [of time] by simp
  then have "read_provenance E fs2 p = Inr (Some \<lparr>wp_session_id = session, wp_written_at_unix = time\<rparr>)"
    using get assms(4) utf8_digits [of "unat time"]
    by (simp add: read_provenance_def from_utf8_as_bytes show_word_def)
  with ann show ?thesis
    by (intro exI [of _ xs2] exI [of _ fs2]) (simp add: fs2_def fs1_def xs2_def xs1_def update_conv')
qed

theorem provenance_roundtrip_witness:
  "\<exists>fs'. annotate_write_at demo_env demo_path ''s1'' 42 [(demo_path, FileN [1] 420 3 [])] = (Inr (), fs')
    \<and> read_provenance demo_env fs' demo_path = Inr (Some \<lparr>wp_session_id = ''s1'', wp_written_at_unix = 42\<rparr>)"
proof -
  have "utf8_ok (as_bytes ''s1'')" by (simp add: as_bytes_def)
  with provenance_roundtrip [OF demo_ok(2), of "[(demo_path, FileN [1] 420 3 [])]" demo_path "[1]" 420 3 "[]" "''s1''" 42]
  show ?thesis by auto
qed

text \<open>
  Whatever an agent is called, its overlay is a directory directly below the overlay root: the
  sanitised name is a valid id and one plain path component, and sanitising again changes nothing.
\<close>

theorem agent_overlay_confined:
  "is_valid_agent_id (sanitize_agent_id a) \<and> sanitize_agent_id (sanitize_agent_id a) = sanitize_agent_id a
   \<and> comp_join (RootDir # root) (components (sanitize_agent_id a)) = RootDir # root @ [NormalC (sanitize_agent_id a)]"
  by (simp add: sanitize_valid sanitize_id components_valid comp_join_def is_absolute_def)

end
