(* ===== verification/InterceptFs.thy ===== *)
theory InterceptFs
  imports FuseCaches FuseCow
begin

unbundle bit_operations_syntax

text \<open>
  The passthrough file system itself (\<open>crates/sharecli-fuse/src/lib.rs\<close>): the operations that work
  on relative paths and the FUSE request handlers, over the inode map, the two caches, the overlays
  and the backing tree. A handler returns the reply, an error number or a value, and the next
  state. One request is handled at a time. The reply types of the FUSE library are reduced to what
  the handlers put in; whether a directory entry still fits its buffer is a parameter.
\<close>

section \<open>State\<close>

record intercept =
  if_backing :: path
  if_session_id :: string
  if_cow_enabled :: bool
  if_agents_conf :: "agents_conf option"
  if_inodes :: inode_map
  if_read_cache :: read_cache
  if_neg_dentry :: neg_cache
  if_cow :: agent_cow
  if_world :: cow_world
  if_global_neg :: neg_dentry_meters

definition ENTRY_TTL :: duration where
  "ENTRY_TTL = from_secs 1"

abbreviation if_fs :: "intercept \<Rightarrow> fs" where
  "if_fs s \<equiv> cw_fs (if_world s)"

definition set_fs :: "fs \<Rightarrow> intercept \<Rightarrow> intercept" where
  "set_fs fs s = s\<lparr>if_world := (if_world s)\<lparr>cw_fs := fs\<rparr>\<rparr>"

definition drop_cached :: "path \<Rightarrow> intercept \<Rightarrow> intercept" where
  "drop_cached p s = s\<lparr>if_read_cache := rc_invalidate p (if_read_cache s)\<rparr>"

definition invalidate_neg_rel :: "path \<Rightarrow> intercept \<Rightarrow> intercept" where
  "invalidate_neg_rel rel s = s\<lparr>if_neg_dentry := neg_invalidate rel (if_neg_dentry s)\<rparr>"

definition remember_missing :: "os_env \<Rightarrow> path \<Rightarrow> intercept \<Rightarrow> intercept" where
  "remember_missing E rel s =
     s\<lparr>if_neg_dentry := remember_miss (oe_now E) rel (if_neg_dentry s),
       if_global_neg := record_global_neg_miss (if_global_neg s)\<rparr>"

definition set_inodes :: "inode_map \<Rightarrow> intercept \<Rightarrow> intercept" where
  "set_inodes m s = s\<lparr>if_inodes := m\<rparr>"

text \<open>A probe of the negative dentry cache, with the process-wide hit counter.\<close>

definition probe_neg :: "os_env \<Rightarrow> path \<Rightarrow> intercept \<Rightarrow> bool \<times> intercept" where
  "probe_neg E rel s =
     (let (negative, c) = is_negative (oe_now E) rel (if_neg_dentry s);
          s = s\<lparr>if_neg_dentry := c\<rparr>
      in (negative,
          if negative then s\<lparr>if_global_neg := record_global_neg_hit (if_global_neg s)\<rparr> else s))"

definition conf_load :: "os_env \<Rightarrow> fs \<Rightarrow> path \<Rightarrow> agents_conf option" where
  "conf_load E fs p =
     (case fs_read E fs p of
        Inl _ \<Rightarrow> None
      | Inr bs \<Rightarrow> (case from_utf8 bs of None \<Rightarrow> None | Some t \<Rightarrow> Some (conf_parse t)))"

definition if_with_options :: "os_env \<Rightarrow> nat \<Rightarrow> neg_dentry_meters \<Rightarrow> path \<Rightarrow> intercept_options \<Rightarrow> cow_world \<Rightarrow> intercept" where
  "if_with_options E pid global_neg backing opts w =
     (let session_id = (if op_session_id opts = [] then default_session_id pid else op_session_id opts);
          default_agent = (case op_agent opts of None \<Rightarrow> session_id | Some a \<Rightarrow> a);
          cow_root = (case op_cow_dir opts of
                        Some d \<Rightarrow> d
                      | None \<Rightarrow> if op_cow opts then comp_join backing (components ''.sharecli-cow'')
                                else comp_join backing (components ''.sharecli-cow-staging''));
          conf = (case op_agents_conf opts of None \<Rightarrow> None | Some p \<Rightarrow> conf_load E (cw_fs w) p);
          (cow, w) = ac_new E cow_root default_agent (op_serialize opts) w
      in \<lparr>if_backing = backing, if_session_id = session_id, if_cow_enabled = op_cow opts, if_agents_conf = conf,
          if_inodes = im_new, if_read_cache = rc_new, if_neg_dentry = neg_with_ttl DEFAULT_NEG_TTL,
          if_cow = cow, if_world = w, if_global_neg = global_neg\<rparr>)"

section \<open>Operations on relative paths\<close>

definition exists_rel :: "os_env \<Rightarrow> path \<Rightarrow> intercept \<Rightarrow> (io_error + bool) \<times> intercept" where
  "exists_rel E rel s =
     (case probe_neg E rel s of
        (True, s) \<Rightarrow> (Inr False, s)
      | (False, s) \<Rightarrow>
          (case fs_metadata E (if_fs s) (abs_under (if_backing s) rel) of
             Inr _ \<Rightarrow> (Inr True, invalidate_neg_rel rel s)
           | Inl e \<Rightarrow> if ie_kind e = NotFound then (Inr False, remember_missing E rel s) else (Inl e, s)))"

definition read_coalesced_rel :: "os_env \<Rightarrow> path \<Rightarrow> intercept \<Rightarrow> (io_error + bytes) \<times> intercept" where
  "read_coalesced_rel E rel s =
     (let (r, c) = read_coalesced E (if_fs s) (abs_under (if_backing s) rel) (if_read_cache s)
      in (r, s\<lparr>if_read_cache := c\<rparr>))"

definition on_overlay :: "(agent_cow \<Rightarrow> cow_world \<Rightarrow> 'a ac_result) \<Rightarrow> intercept \<Rightarrow> (ws_error + 'a) \<times> intercept" where
  "on_overlay f s = (let (r, cow, w) = f (if_cow s) (if_world s) in (r, s\<lparr>if_cow := cow, if_world := w\<rparr>))"

definition stage_rel_for_agent :: "os_env \<Rightarrow> (path \<Rightarrow> u64) \<Rightarrow> string option \<Rightarrow> path \<Rightarrow> bytes \<Rightarrow> intercept \<Rightarrow> (ws_error + unit) \<times> intercept" where
  "stage_rel_for_agent E hash agent rel contents s =
     on_overlay (ac_stage_bytes E hash agent (abs_under (if_backing s) rel) contents) s"

definition stage_rel :: "os_env \<Rightarrow> (path \<Rightarrow> u64) \<Rightarrow> path \<Rightarrow> bytes \<Rightarrow> intercept \<Rightarrow> (ws_error + unit) \<times> intercept" where
  "stage_rel E hash rel contents s = stage_rel_for_agent E hash None rel contents s"

definition stamp_commit :: "os_env \<Rightarrow> path \<Rightarrow> intercept \<Rightarrow> (ws_error + unit) \<times> intercept" where
  "stamp_commit E abs_p s =
     (case stamp E (if_session_id s) abs_p (if_world s) of
        (Inl e, w) \<Rightarrow> (Inl e, s\<lparr>if_world := w\<rparr>)
      | (Inr _, w) \<Rightarrow> (Inr (), drop_cached abs_p (s\<lparr>if_world := w\<rparr>)))"

definition commit_rel_for_agent :: "os_env \<Rightarrow> string option \<Rightarrow> path \<Rightarrow> intercept \<Rightarrow> (ws_error + unit) \<times> intercept" where
  "commit_rel_for_agent E agent rel s =
     (let abs_p = abs_under (if_backing s) rel
      in case on_overlay (ac_commit_pending E agent abs_p) s of
        (Inl e, s) \<Rightarrow> (Inl e, s)
      | (Inr _, s) \<Rightarrow> stamp_commit E abs_p s)"

definition commit_rel :: "os_env \<Rightarrow> path \<Rightarrow> intercept \<Rightarrow> (ws_error + unit) \<times> intercept" where
  "commit_rel E rel s = commit_rel_for_agent E None rel s"

fun stamp_commits :: "os_env \<Rightarrow> path list \<Rightarrow> path list \<Rightarrow> intercept \<Rightarrow> (ws_error + path list) \<times> intercept" where
  "stamp_commits E acc [] s = (Inr acc, s)"
| "stamp_commits E acc (abs_p # ps) s =
     (case stamp_commit E abs_p s of
        (Inl e, s') \<Rightarrow> (Inl e, s')
      | (Inr _, s') \<Rightarrow>
          stamp_commits E (acc @ (case strip_prefix (if_backing s) abs_p of None \<Rightarrow> [] | Some rel \<Rightarrow> [rel])) ps s')"

definition commit_all_for_agent :: "os_env \<Rightarrow> string option \<Rightarrow> intercept \<Rightarrow> (ws_error + path list) \<times> intercept" where
  "commit_all_for_agent E agent s =
     (case on_overlay (ac_commit_all_for_agent E agent) s of
        (Inl e, s) \<Rightarrow> (Inl e, s)
      | (Inr abs_paths, s) \<Rightarrow> stamp_commits E [] abs_paths s)"

definition discard_rel_for_agent :: "os_env \<Rightarrow> string option \<Rightarrow> path \<Rightarrow> intercept \<Rightarrow> (ws_error + unit) \<times> intercept" where
  "discard_rel_for_agent E agent rel s =
     on_overlay (ac_discard_pending E agent (abs_under (if_backing s) rel)) s"

definition discard_all_for_agent :: "os_env \<Rightarrow> string option \<Rightarrow> intercept \<Rightarrow> (ws_error + path list) \<times> intercept" where
  "discard_all_for_agent E agent s =
     (case on_overlay (ac_discard_all_for_agent E agent) s of
        (Inl e, s) \<Rightarrow> (Inl e, s)
      | (Inr abs_paths, s) \<Rightarrow> (Inr (rels_under (if_backing s) abs_paths), s))"

text \<open>The write under the lock of a path: open, seek, write, annotate.\<close>

definition locked_write :: "os_env \<Rightarrow> string \<Rightarrow> path \<Rightarrow> nat \<Rightarrow> bytes \<Rightarrow> cow_world \<Rightarrow> (io_error + u32) \<times> cow_world" where
  "locked_write E session p offset payload w =
     (case open_write E p (cw_fs w) of
        (Inl e, fs) \<Rightarrow> (Inl e, w\<lparr>cw_fs := fs\<rparr>)
      | (Inr _, fs) \<Rightarrow>
      (case seek_start offset of
        Inl e \<Rightarrow> (Inl e, w\<lparr>cw_fs := fs\<rparr>)
      | Inr _ \<Rightarrow>
      (case write_all_at E offset payload p fs of
        (Inl e, fs) \<Rightarrow> (Inl e, w\<lparr>cw_fs := fs\<rparr>)
      | (Inr _, fs) \<Rightarrow>
      (case annotate_write E p session fs of
        (Inl e, fs) \<Rightarrow> (Inl e, w\<lparr>cw_fs := fs\<rparr>)
      | (Inr _, fs) \<Rightarrow> (Inr (of_nat (length payload)), w\<lparr>cw_fs := fs\<rparr>)))))"

definition write_path :: "os_env \<Rightarrow> path \<Rightarrow> nat \<Rightarrow> bytes \<Rightarrow> intercept \<Rightarrow> (io_error + u32) \<times> intercept" where
  "write_path E p offset payload s =
     (case on_overlay (ac_with_locked_path E None p (locked_write E (if_session_id s) p offset payload)) s of
        (Inl _, s) \<Rightarrow> (Inl (io_error_new OtherKind), s)
      | (Inr (Inl e), s) \<Rightarrow> (Inl e, s)
      | (Inr (Inr n), s) \<Rightarrow>
          (Inr n, drop_cached p
             (s\<lparr>if_world := (if_world s)\<lparr>cw_meters := record_passthrough_write (cw_meters (if_world s))\<rparr>\<rparr>)))"

definition write_rel :: "os_env \<Rightarrow> path \<Rightarrow> nat \<Rightarrow> bytes \<Rightarrow> intercept \<Rightarrow> (io_error + u32) \<times> intercept" where
  "write_rel E rel offset payload s = write_path E (abs_under (if_backing s) rel) offset payload s"

definition after_create_at :: "os_env \<Rightarrow> path \<Rightarrow> path \<Rightarrow> intercept \<Rightarrow> (io_error + unit) \<times> intercept" where
  "after_create_at E rel abs_p s =
     (case annotate_write E abs_p (if_session_id s) (if_fs s) of
        (Inl e, fs) \<Rightarrow> (Inl e, set_fs fs s)
      | (Inr _, fs) \<Rightarrow> (Inr (), drop_cached abs_p (invalidate_neg_rel rel (set_fs fs s))))"

definition create_rel :: "os_env \<Rightarrow> path \<Rightarrow> u32 \<Rightarrow> intercept \<Rightarrow> (io_error + unit) \<times> intercept" where
  "create_rel E rel mode s =
     (let abs_p = abs_under (if_backing s) rel
      in case create_parent_dirs E abs_p (if_fs s) of
        (Inl e, fs) \<Rightarrow> (Inl e, set_fs fs s)
      | (Inr _, fs) \<Rightarrow>
          (case create_new E mode abs_p fs of
             (Inl e, fs) \<Rightarrow> (Inl e, set_fs fs s)
           | (Inr _, fs) \<Rightarrow> after_create_at E rel abs_p (set_fs fs s)))"

definition pending_rel_paths :: "os_env \<Rightarrow> intercept \<Rightarrow> (ws_error + path list) \<times> intercept" where
  "pending_rel_paths E s =
     (case on_overlay (ac_pending_for_agent E None) s of
        (Inl e, s) \<Rightarrow> (Inl e, s)
      | (Inr ps, s) \<Rightarrow> (Inr (rels_under (if_backing s) ps), s))"

definition pending_by_agent :: "intercept \<Rightarrow> (string \<times> path list) list" where
  "pending_by_agent s =
     filter (\<lambda>(_, rels). rels \<noteq> [])
       (map (\<lambda>ap. (ap_agent ap, rels_under (if_backing s) (ap_backing_paths ap))) (ac_list_agent_pending (if_cow s)))"

section \<open>Attributes\<close>

datatype file_type = Directory | Symlink | RegularFile

record file_attr =
  fa_ino :: u64
  fa_size :: u64
  fa_blocks :: u64
  fa_atime :: nat
  fa_mtime :: nat
  fa_ctime :: nat
  fa_crtime :: nat
  fa_kind :: file_type
  fa_perm :: "16 word"
  fa_nlink :: u32
  fa_uid :: u32
  fa_gid :: u32
  fa_rdev :: u32
  fa_blksize :: u32
  fa_flags :: u32

text \<open>Without symbolic links a file that is not a directory is regular.\<close>

definition meta_kind :: "metadata \<Rightarrow> file_type" where
  "meta_kind meta = (if md_is_dir meta then Directory else RegularFile)"

definition metadata_to_attr :: "os_env \<Rightarrow> u64 \<Rightarrow> metadata \<Rightarrow> file_attr" where
  "metadata_to_attr E ino meta =
     \<lparr>fa_ino = ino, fa_size = of_nat (md_len meta), fa_blocks = os_blocks (md_stat meta),
      fa_atime = (case os_atime (md_stat meta) of Some t \<Rightarrow> t | None \<Rightarrow> oe_now E),
      fa_mtime = md_modified meta, fa_ctime = oe_now E, fa_crtime = oe_now E, fa_kind = meta_kind meta,
      fa_perm = ucast (md_mode meta), fa_nlink = ucast (os_nlink (md_stat meta)), fa_uid = os_uid (md_stat meta),
      fa_gid = os_gid (md_stat meta), fa_rdev = ucast (os_rdev (md_stat meta)), fa_blksize = 512, fa_flags = 0\<rparr>"

section \<open>Request handlers\<close>

type_synonym 'a reply = "(nat + 'a) \<times> intercept"

type_synonym entry = "duration \<times> file_attr \<times> u64"

definition reply_entry :: "os_env \<Rightarrow> u64 \<Rightarrow> metadata \<Rightarrow> entry" where
  "reply_entry E ino meta = (ENTRY_TTL, metadata_to_attr E ino meta, 0)"

definition handle_lookup :: "os_env \<Rightarrow> u64 \<Rightarrow> string \<Rightarrow> intercept \<Rightarrow> entry reply" where
  "handle_lookup E parent name s =
     (case child_rel (if_inodes s) parent (components name) of
        None \<Rightarrow> (Inl ENOENT, s)
      | Some rel \<Rightarrow>
      (case probe_neg E rel s of
        (True, s) \<Rightarrow> (Inl ENOENT, s)
      | (False, s) \<Rightarrow>
      (case lookup_or_alloc parent (components name) (if_inodes s) of
        (None, m) \<Rightarrow> (Inl ENOENT, set_inodes m s)
      | (Some (ino, rel), m) \<Rightarrow>
          (let s = set_inodes m s
           in case fs_metadata E (if_fs s) (abs_under (if_backing s) rel) of
                Inr meta \<Rightarrow> (Inr (reply_entry E ino meta), invalidate_neg_rel rel s)
              | Inl e \<Rightarrow>
                  (let s = (if ie_kind e = NotFound then remember_missing E rel s else s)
                   in (Inl (oe_errno E e), set_inodes (remove_rel rel (if_inodes s)) s))))))"

definition reply_attr :: "os_env \<Rightarrow> u64 \<Rightarrow> path \<Rightarrow> intercept \<Rightarrow> nat + (duration \<times> file_attr)" where
  "reply_attr E ino p s =
     (case fs_metadata E (if_fs s) p of
        Inr meta \<Rightarrow> Inr (ENTRY_TTL, metadata_to_attr E ino meta)
      | Inl e \<Rightarrow> Inl (oe_errno E e))"

definition handle_getattr :: "os_env \<Rightarrow> u64 \<Rightarrow> intercept \<Rightarrow> (duration \<times> file_attr) reply" where
  "handle_getattr E ino s =
     (case abs_path (if_inodes s) (if_backing s) ino of
        None \<Rightarrow> (Inl ENOENT, s)
      | Some p \<Rightarrow> (reply_attr E ino p s, s))"

text \<open>Open for writing and set the length.\<close>

definition truncate_path :: "os_env \<Rightarrow> nat \<Rightarrow> path \<Rightarrow> fs \<Rightarrow> unit io" where
  "truncate_path E sz p fs =
     (case open_write E p fs of (Inl e, fs') \<Rightarrow> (Inl e, fs') | (Inr _, fs') \<Rightarrow> set_len E sz p fs')"

definition handle_setattr :: "os_env \<Rightarrow> u64 \<Rightarrow> u32 option \<Rightarrow> u64 option \<Rightarrow> intercept \<Rightarrow> (duration \<times> file_attr) reply" where
  "handle_setattr E ino mode new_size s =
     (case abs_path (if_inodes s) (if_backing s) ino of
        None \<Rightarrow> (Inl ENOENT, s)
      | Some p \<Rightarrow>
      (case (case new_size of None \<Rightarrow> (Inr (), if_fs s) | Some sz \<Rightarrow> truncate_path E (unat sz) p (if_fs s)) of
        (Inl e, fs) \<Rightarrow> (Inl (oe_errno E e), set_fs fs s)
      | (Inr _, fs) \<Rightarrow>
      (case (case mode of None \<Rightarrow> (Inr (), fs) | Some m \<Rightarrow> set_permissions E m p fs) of
        (Inl e, fs) \<Rightarrow> (Inl (oe_errno E e), set_fs fs s)
      | (Inr _, fs) \<Rightarrow>
          (case reply_attr E ino p (set_fs fs s) of
             Inr a \<Rightarrow> (Inr a, drop_cached p (set_fs fs s))
           | Inl e \<Rightarrow> (Inl e, set_fs fs s)))))"

definition handle_open :: "os_env \<Rightarrow> u64 \<Rightarrow> intercept \<Rightarrow> u64 reply" where
  "handle_open E ino s =
     (case abs_path (if_inodes s) (if_backing s) ino of
        None \<Rightarrow> (Inl ENOENT, s)
      | Some p \<Rightarrow>
          (case fs_metadata E (if_fs s) p of
             Inr meta \<Rightarrow> if \<not> md_is_dir meta then (Inr ino, s) else (Inl EISDIR, s)
           | Inl e \<Rightarrow> (Inl (oe_errno E e), s)))"

definition handle_read :: "os_env \<Rightarrow> u64 \<Rightarrow> u64 \<Rightarrow> u32 \<Rightarrow> intercept \<Rightarrow> bytes reply" where
  "handle_read E ino offset sz s =
     (case abs_path (if_inodes s) (if_backing s) ino of
        None \<Rightarrow> (Inl ENOENT, s)
      | Some p \<Rightarrow>
          (case read_slice E (if_fs s) p offset sz (if_read_cache s) of
             (Inr buf, c) \<Rightarrow> (Inr buf, s\<lparr>if_read_cache := c\<rparr>)
           | (Inl e, c) \<Rightarrow> (Inl (oe_errno E e), s\<lparr>if_read_cache := c\<rparr>)))"

definition handle_write :: "os_env \<Rightarrow> u64 \<Rightarrow> u64 \<Rightarrow> bytes \<Rightarrow> intercept \<Rightarrow> u32 reply" where
  "handle_write E ino offset payload s =
     (case abs_path (if_inodes s) (if_backing s) ino of
        None \<Rightarrow> (Inl ENOENT, s)
      | Some p \<Rightarrow>
          (case write_path E p (unat offset) payload s of
             (Inr n, s) \<Rightarrow> (Inr n, s)
           | (Inl e, s) \<Rightarrow> (Inl (oe_errno E e), s)))"

fun component_name :: "component \<Rightarrow> string" where
  "component_name (NormalC n) = n"
| "component_name RootDir = ''/''"
| "component_name CurDir = ''.''"
| "component_name ParentDir = ''..''"

type_synonym dirent = "u64 \<times> file_type \<times> string"

text \<open>The entries of a directory, each with its inode.\<close>

fun list_children :: "os_env \<Rightarrow> fs \<Rightarrow> path \<Rightarrow> path \<Rightarrow> component list \<Rightarrow> inode_map \<Rightarrow> dirent list \<times> inode_map" where
  "list_children E fs dir_path rel [] m = ([], m)"
| "list_children E fs dir_path rel (c # cs) m =
     (let (ino, m) = alloc_or_get (join_rel rel [c]) m;
          kind = (case fs_metadata E fs (comp_join dir_path [c]) of Inr meta \<Rightarrow> meta_kind meta | Inl _ \<Rightarrow> RegularFile);
          (rest, m) = list_children E fs dir_path rel cs m
      in ((ino, kind, component_name c) # rest, m))"

fun fill_reply :: "(dirent list \<Rightarrow> dirent \<Rightarrow> bool) \<Rightarrow> nat \<Rightarrow> dirent list \<Rightarrow> dirent list \<Rightarrow> (nat \<times> dirent) list" where
  "fill_reply fits i sent [] = []"
| "fill_reply fits i sent (e # es) =
     (if fits sent e then (i + 1, e) # fill_reply fits (i + 1) (sent @ [e]) es else [])"

definition readdir_parent :: "u64 \<Rightarrow> path \<Rightarrow> inode_map \<Rightarrow> u64 \<times> inode_map" where
  "readdir_parent ino rel m =
     (if ino = ROOT_INO then (ROOT_INO, m)
      else if length rel \<le> 1 then alloc_or_get [] m
      else alloc_or_get (butlast rel) m)"

definition handle_readdir ::
  "os_env \<Rightarrow> (dirent list \<Rightarrow> dirent \<Rightarrow> bool) \<Rightarrow> u64 \<Rightarrow> u64 \<Rightarrow> intercept \<Rightarrow> (nat \<times> dirent) list reply" where
  "handle_readdir E fits ino offset s =
     (case im_resolve (if_inodes s) ino of
        None \<Rightarrow> (Inl ENOENT, s)
      | Some rel \<Rightarrow>
          (let (parent_ino, m) = readdir_parent ino rel (if_inodes s);
               dir_path = abs_under (if_backing s) rel
           in case read_dir E (if_fs s) dir_path of
                Inl e \<Rightarrow> (Inl (oe_errno E e), set_inodes m s)
              | Inr names \<Rightarrow>
                  (let (children, m) = list_children E (if_fs s) dir_path rel names m;
                       entries = (ino, Directory, ''.'') # (parent_ino, Directory, ''..'') # children
                   in (Inr (fill_reply fits (unat offset) [] (drop (unat offset) entries)), set_inodes m s))))"

definition handle_mkdir :: "os_env \<Rightarrow> u64 \<Rightarrow> string \<Rightarrow> u32 \<Rightarrow> intercept \<Rightarrow> entry reply" where
  "handle_mkdir E parent name mode s =
     (case child_rel (if_inodes s) parent (components name) of
        None \<Rightarrow> (Inl ENOENT, s)
      | Some rel \<Rightarrow>
          (let p = abs_under (if_backing s) rel
           in case create_dir E p (if_fs s) of
                (Inl e, fs) \<Rightarrow> (Inl (oe_errno E e), set_fs fs s)
              | (Inr _, fs) \<Rightarrow>
                  (let s = invalidate_neg_rel rel (set_fs (snd (set_permissions E mode p fs)) s);
                       (ino, m) = alloc_or_get rel (if_inodes s);
                       s = set_inodes m s
                   in case fs_metadata E (if_fs s) p of
                        Inr meta \<Rightarrow> (Inr (reply_entry E ino meta), s)
                      | Inl e \<Rightarrow> (Inl (oe_errno E e), s))))"

text \<open>The inode of a file that was just created, and its entry.\<close>

definition install_created_entry :: "os_env \<Rightarrow> path \<Rightarrow> path \<Rightarrow> intercept \<Rightarrow> entry reply" where
  "install_created_entry E rel p s =
     (let (ino, m) = alloc_or_get rel (if_inodes s);
          s = set_inodes m s
      in case fs_metadata E (if_fs s) p of
           Inr meta \<Rightarrow> (Inr (reply_entry E ino meta), s)
         | Inl e \<Rightarrow> (Inl (oe_errno E e), s))"

definition create_file :: "os_env \<Rightarrow> path \<Rightarrow> u32 \<Rightarrow> intercept \<Rightarrow> entry reply" where
  "create_file E rel file_mode s =
     (let p = abs_under (if_backing s) rel
      in case create_parent_dirs E p (if_fs s) of
        (Inl _, fs) \<Rightarrow> (Inl EIO, set_fs fs s)
      | (Inr _, fs) \<Rightarrow>
      (case create_new E file_mode p fs of
        (Inl e, fs) \<Rightarrow> (Inl (oe_errno E e), set_fs fs s)
      | (Inr _, fs) \<Rightarrow>
      (case after_create_at E rel p (set_fs fs s) of
        (Inl e, s) \<Rightarrow> (Inl (oe_errno E e), set_fs (snd (remove_file E p (if_fs s))) s)
      | (Inr _, s) \<Rightarrow> install_created_entry E rel p s)))"

definition handle_create :: "os_env \<Rightarrow> u64 \<Rightarrow> string \<Rightarrow> u32 \<Rightarrow> u32 \<Rightarrow> intercept \<Rightarrow> entry reply" where
  "handle_create E parent name mode umask s =
     (case child_rel (if_inodes s) parent (components name) of
        None \<Rightarrow> (Inl ENOENT, s)
      | Some rel \<Rightarrow> create_file E rel (mode AND NOT umask) s)"

definition handle_mknod :: "os_env \<Rightarrow> u64 \<Rightarrow> string \<Rightarrow> u32 \<Rightarrow> u32 \<Rightarrow> intercept \<Rightarrow> entry reply" where
  "handle_mknod E parent name mode umask s =
     (if mode AND 0xF000 \<noteq> 0x8000 then (Inl EPERM, s)
      else case child_rel (if_inodes s) parent (components name) of
        None \<Rightarrow> (Inl ENOENT, s)
      | Some rel \<Rightarrow> create_file E rel (mode AND NOT umask) s)"

definition handle_unlink :: "os_env \<Rightarrow> u64 \<Rightarrow> string \<Rightarrow> intercept \<Rightarrow> unit reply" where
  "handle_unlink E parent name s =
     (case child_rel (if_inodes s) parent (components name) of
        None \<Rightarrow> (Inl ENOENT, s)
      | Some rel \<Rightarrow>
          (let p = abs_under (if_backing s) rel
           in case remove_file E p (if_fs s) of
                (Inl e, fs) \<Rightarrow> (Inl (oe_errno E e), set_fs fs s)
              | (Inr _, fs) \<Rightarrow>
                  (let s = remember_missing E rel (drop_cached p (set_fs fs s))
                   in (Inr (), set_inodes (remove_rel rel (if_inodes s)) s))))"

definition handle_rmdir :: "os_env \<Rightarrow> u64 \<Rightarrow> string \<Rightarrow> intercept \<Rightarrow> unit reply" where
  "handle_rmdir E parent name s =
     (case child_rel (if_inodes s) parent (components name) of
        None \<Rightarrow> (Inl ENOENT, s)
      | Some rel \<Rightarrow>
          (let p = abs_under (if_backing s) rel
           in case remove_dir E p (if_fs s) of
                (Inl e, fs) \<Rightarrow> (Inl (oe_errno E e), set_fs fs s)
              | (Inr _, fs) \<Rightarrow>
                  (let s = remember_missing E rel (set_fs fs s)
                   in (Inr (), set_inodes (remove_rel rel (if_inodes s)) s))))"

definition handle_rename :: "os_env \<Rightarrow> u64 \<Rightarrow> string \<Rightarrow> u64 \<Rightarrow> string \<Rightarrow> intercept \<Rightarrow> unit reply" where
  "handle_rename E parent name newparent newname s =
     (case child_rel (if_inodes s) parent (components name) of
        None \<Rightarrow> (Inl ENOENT, s)
      | Some old_rel \<Rightarrow>
      (case child_rel (if_inodes s) newparent (components newname) of
        None \<Rightarrow> (Inl ENOENT, s)
      | Some new_rel \<Rightarrow>
          (let old_path = abs_under (if_backing s) old_rel; new_path = abs_under (if_backing s) new_rel
           in case fs_rename E old_path new_path (if_fs s) of
                (Inl e, fs) \<Rightarrow> (Inl (oe_errno E e), set_fs fs s)
              | (Inr _, fs) \<Rightarrow>
                  (let s = drop_cached new_path (drop_cached old_path (set_fs fs s));
                       s = invalidate_neg_rel new_rel (remember_missing E old_rel s)
                   in (Inr (), set_inodes (rename_rel old_rel new_rel (if_inodes s)) s)))))"

text \<open>The requests, for histories of a mount.\<close>

datatype request =
    Lookup u64 string | Getattr u64 | Setattr u64 "u32 option" "u64 option" | Open u64 | Read u64 u64 u32
  | Write u64 u64 bytes | Readdir u64 u64 | MkdirR u64 string u32 | Create u64 string u32 u32
  | Mknod u64 string u32 u32 | UnlinkR u64 string | RmdirR u64 string | Rename u64 string u64 string

fun handle :: "(dirent list \<Rightarrow> dirent \<Rightarrow> bool) \<Rightarrow> os_env \<Rightarrow> request \<Rightarrow> intercept \<Rightarrow> intercept" where
  "handle fits E (Lookup parent name) s = snd (handle_lookup E parent name s)"
| "handle fits E (Getattr ino) s = snd (handle_getattr E ino s)"
| "handle fits E (Setattr ino mode sz) s = snd (handle_setattr E ino mode sz s)"
| "handle fits E (Open ino) s = snd (handle_open E ino s)"
| "handle fits E (Read ino offset sz) s = snd (handle_read E ino offset sz s)"
| "handle fits E (Write ino offset d) s = snd (handle_write E ino offset d s)"
| "handle fits E (Readdir ino offset) s = snd (handle_readdir E fits ino offset s)"
| "handle fits E (MkdirR parent name mode) s = snd (handle_mkdir E parent name mode s)"
| "handle fits E (Create parent name mode umask) s = snd (handle_create E parent name mode umask s)"
| "handle fits E (Mknod parent name mode umask) s = snd (handle_mknod E parent name mode umask s)"
| "handle fits E (UnlinkR parent name) s = snd (handle_unlink E parent name s)"
| "handle fits E (RmdirR parent name) s = snd (handle_rmdir E parent name s)"
| "handle fits E (Rename parent name newparent newname) s = snd (handle_rename E parent name newparent newname s)"

text \<open>A mount for the concrete instances below.\<close>

definition demo_mount :: intercept where
  "demo_mount = if_with_options demo_env 1 \<lparr>nm_hits = 0, nm_misses = 0\<rparr> [RootDir, NormalC ''w''] options_default
     (demo_world\<lparr>cw_fs := demo_fs @ [(demo_path, FileN [1, 2, 3] 420 7 [])]\<rparr>)"

section \<open>Well-formedness: lemmas\<close>

lemma wf_snd: "f fs = (r, fs') \<Longrightarrow> fs_wf fs \<Longrightarrow> (fs_wf fs \<Longrightarrow> fs_wf (snd (f fs))) \<Longrightarrow> fs_wf fs'"
  by simp

lemma fs_wf_set_attr [wf_calls]: "fs_wf fs \<Longrightarrow> fs_wf (snd (set_attr E p k v fs))"
  using fs_wf_xattr_set [of fs E k v p] by (auto simp: set_attr_def split: prod.splits sum.splits)

lemma fs_wf_annotate [wf_calls]:
  assumes "fs_wf fs"
  shows "fs_wf (snd (annotate_write E p session fs))"
proof -
  obtain r fs1 where first: "set_attr E p ATTR_SESSION (as_bytes session) fs = (r, fs1)"
    by (cases "set_attr E p ATTR_SESSION (as_bytes session) fs")
  have "fs_wf fs1" using fs_wf_set_attr [OF assms, of E p ATTR_SESSION "as_bytes session"] first by simp
  with first assms show ?thesis
    by (auto simp: annotate_write_def annotate_write_at_def wf_calls split: sum.split)
qed

lemma fs_set_fs [simp]: "if_fs (set_fs fs s) = fs"
  by (simp add: set_fs_def)

lemma fs_other [simp]:
  "if_fs (drop_cached p s) = if_fs s" "if_fs (invalidate_neg_rel rel s) = if_fs s"
  "if_fs (remember_missing E rel s) = if_fs s" "if_fs (set_inodes m s) = if_fs s"
  by (simp_all add: drop_cached_def invalidate_neg_rel_def remember_missing_def set_inodes_def)

lemma fs_probe_neg: "if_fs (snd (probe_neg E rel s)) = if_fs s"
  by (auto simp: probe_neg_def Let_def split: prod.splits)

lemma wf_store_for:
  "store_for E key ac w = (ws, ac', w') \<Longrightarrow> fs_wf (cw_fs w) \<Longrightarrow> fs_wf (cw_fs w')"
  by (auto simp: store_for_def ws_with_staging_root_def wf_calls split: option.splits)

lemma wf_locked_write:
  assumes "fs_wf (cw_fs w)"
  shows "fs_wf (cw_fs (snd (locked_write E session p offset payload w)))"
proof -
  obtain r1 fs1 where c1: "open_write E p (cw_fs w) = (r1, fs1)" by (cases "open_write E p (cw_fs w)")
  obtain r2 fs2 where c2: "write_all_at E offset payload p fs1 = (r2, fs2)" by (cases "write_all_at E offset payload p fs1")
  obtain r3 fs3 where c3: "annotate_write E p session fs2 = (r3, fs3)" by (cases "annotate_write E p session fs2")
  have "fs_wf fs1" using fs_wf_open_write [OF assms, of E p] c1 by simp
  moreover from this have "fs_wf fs2" using fs_wf_write_all_at [of fs1 E offset payload p] c2 by simp
  moreover from this have "fs_wf fs3" using fs_wf_annotate [of fs2 E p session] c3 by simp
  ultimately show ?thesis using c1 c2 c3 by (auto simp: locked_write_def split: sum.split)
qed

lemma wf_write_path:
  assumes "fs_wf (if_fs s)"
  shows "fs_wf (if_fs (snd (write_path E p offset payload s)))"
proof -
  let ?f = "locked_write E (if_session_id s) p offset payload"
  obtain r cow w where res: "ac_with_locked_path E None p ?f (if_cow s) (if_world s) = (r, cow, w)"
    by (cases "ac_with_locked_path E None p ?f (if_cow s) (if_world s)")
  have "fs_wf (cw_fs w)"
  proof (cases "ac_serialize (if_cow s)")
    case False
    with res wf_locked_write [OF assms] show ?thesis
      by (auto simp: ac_with_locked_path_def split: prod.splits) (metis snd_conv)
  next
    case True
    obtain ws ac1 w1 where sf: "store_for E (agent_key (if_cow s) None) (if_cow s) (if_world s) = (ws, ac1, w1)"
      by (cases "store_for E (agent_key (if_cow s) None) (if_cow s) (if_world s)")
    have "fs_wf (cw_fs w1)" using wf_store_for [OF sf assms] .
    then have "fs_wf (cw_fs (snd (?f w1)))" by (rule wf_locked_write)
    with res True sf show ?thesis
      by (auto simp: ac_with_locked_path_def on_store_def ws_with_locked_path_def Let_def split: prod.splits)
  qed
  with res show ?thesis
    by (auto simp: write_path_def on_overlay_def split: sum.splits)
qed

lemma wf_after_create:
  "fs_wf (if_fs s) \<Longrightarrow> fs_wf (if_fs (snd (after_create_at E rel p s)))"
  using fs_wf_annotate [of "if_fs s" E p "if_session_id s"]
  by (auto simp: after_create_at_def split: prod.splits sum.splits)

lemma fs_install: "if_fs (snd (install_created_entry E rel p s)) = if_fs s"
  by (auto simp: install_created_entry_def Let_def split: prod.splits sum.splits)

lemma wf_create_file:
  assumes "fs_wf (if_fs s)"
  shows "fs_wf (if_fs (snd (create_file E rel mode s)))"
proof -
  let ?p = "abs_under (if_backing s) rel"
  obtain r1 fs1 where c1: "create_parent_dirs E ?p (if_fs s) = (r1, fs1)" by (cases "create_parent_dirs E ?p (if_fs s)")
  obtain r2 fs2 where c2: "create_new E mode ?p fs1 = (r2, fs2)" by (cases "create_new E mode ?p fs1")
  obtain r3 s3 where c3: "after_create_at E rel ?p (set_fs fs2 s) = (r3, s3)" by (cases "after_create_at E rel ?p (set_fs fs2 s)")
  have "fs_wf fs1" using fs_wf_create_parent_dirs [OF assms, of E ?p] c1 by simp
  moreover from this have "fs_wf fs2" using fs_wf_create_new [of fs1 E mode ?p] c2 by simp
  moreover from this have "fs_wf (if_fs s3)" using wf_after_create [of "set_fs fs2 s" E rel ?p] c3 by simp
  ultimately show ?thesis using c1 c2 c3
    by (auto simp: create_file_def Let_def fs_install wf_calls split: sum.split)
qed

lemma wf_truncate [wf_calls]:
  assumes "fs_wf fs"
  shows "fs_wf (snd (truncate_path E sz p fs))"
proof -
  obtain r fs1 where c: "open_write E p fs = (r, fs1)" by (cases "open_write E p fs")
  have "fs_wf fs1" using fs_wf_open_write [OF assms, of E p] c by simp
  with c show ?thesis by (auto simp: truncate_path_def wf_calls split: sum.split)
qed

lemma probe_neg_cases:
  obtains b s' where "probe_neg E rel s = (b, s')" "if_fs s' = if_fs s"
  using fs_probe_neg [of E rel s] by (cases "probe_neg E rel s") simp

lemma fs_lookup: "if_fs (snd (handle_lookup E parent name s)) = if_fs s"
proof (cases "child_rel (if_inodes s) parent (components name)")
  case None
  then show ?thesis by (simp add: handle_lookup_def)
next
  case (Some rel)
  obtain b s' where p: "probe_neg E rel s = (b, s')" "if_fs s' = if_fs s" by (rule probe_neg_cases)
  obtain r m where l: "lookup_or_alloc parent (components name) (if_inodes s') = (r, m)"
    by (cases "lookup_or_alloc parent (components name) (if_inodes s')")
  show ?thesis
    using Some p l by (auto simp: handle_lookup_def Let_def split: bool.split option.split sum.split)
qed

lemma wf_setattr:
  assumes "fs_wf (if_fs s)"
  shows "fs_wf (if_fs (snd (handle_setattr E ino mode sz s)))"
proof (cases "abs_path (if_inodes s) (if_backing s) ino")
  case None
  with assms show ?thesis by (simp add: handle_setattr_def)
next
  case (Some p)
  obtain r1 fs1 where c1: "(case sz of None \<Rightarrow> (Inr (), if_fs s) | Some sz \<Rightarrow> truncate_path E (unat sz) p (if_fs s)) = (r1, fs1)"
    by (cases "case sz of None \<Rightarrow> (Inr (), if_fs s) | Some sz \<Rightarrow> truncate_path E (unat sz) p (if_fs s)")
  obtain r2 fs2 where c2: "(case mode of None \<Rightarrow> (Inr (), fs1) | Some m \<Rightarrow> set_permissions E m p fs1) = (r2, fs2)"
    by (cases "case mode of None \<Rightarrow> (Inr (), fs1) | Some m \<Rightarrow> set_permissions E m p fs1")
  have w1: "fs_wf fs1"
    using assms c1 wf_truncate [OF assms, of E _ p] by (auto split: option.splits) (metis snd_conv)
  have "fs_wf fs2"
    using w1 c2 fs_wf_set_permissions [OF w1, of E _ p] by (auto split: option.splits) (metis snd_conv)
  with w1 c1 c2 Some show ?thesis
    by (auto simp: handle_setattr_def split: sum.split)
qed

lemma wf_mkdir:
  assumes "fs_wf (if_fs s)"
  shows "fs_wf (if_fs (snd (handle_mkdir E parent name mode s)))"
proof (cases "child_rel (if_inodes s) parent (components name)")
  case None
  with assms show ?thesis by (simp add: handle_mkdir_def)
next
  case (Some rel)
  let ?p = "abs_under (if_backing s) rel"
  obtain r1 fs1 where c1: "create_dir E ?p (if_fs s) = (r1, fs1)" by (cases "create_dir E ?p (if_fs s)")
  have "fs_wf fs1" using fs_wf_create_dir [OF assms, of E ?p] c1 by simp
  with c1 Some show ?thesis
    by (auto simp: handle_mkdir_def Let_def wf_calls split: sum.split prod.split)
qed

lemma wf_removals:
  assumes "fs_wf (if_fs s)"
  shows "fs_wf (if_fs (snd (handle_unlink E parent name s)))" "fs_wf (if_fs (snd (handle_rmdir E parent name s)))"
proof -
  have "fs_wf fs'" if "remove_file E p (if_fs s) = (r, fs') \<or> remove_dir E p (if_fs s) = (r, fs')" for p r fs'
    using that fs_wf_remove_file [OF assms, of E p] fs_wf_remove_dir [OF assms, of E p] by auto
  then show "fs_wf (if_fs (snd (handle_unlink E parent name s)))" "fs_wf (if_fs (snd (handle_rmdir E parent name s)))"
    using assms
    by (auto simp: handle_unlink_def handle_rmdir_def Let_def split: option.split prod.split sum.split)
qed

lemma wf_rename:
  assumes "fs_wf (if_fs s)"
  shows "fs_wf (if_fs (snd (handle_rename E parent name newparent newname s)))"
proof -
  have "fs_wf fs'" if "fs_rename E p q (if_fs s) = (r, fs')" for p q r fs'
    using that fs_wf_rename [OF assms, of E p q] by simp
  then show ?thesis
    using assms by (auto simp: handle_rename_def Let_def split: option.split prod.split sum.split)
qed

lemma fs_readers:
  "if_fs (snd (handle_getattr E ino s)) = if_fs s" "if_fs (snd (handle_open E ino s)) = if_fs s"
  "if_fs (snd (handle_read E ino off sz s)) = if_fs s" "if_fs (snd (handle_readdir E fits ino off s)) = if_fs s"
  by (auto simp: handle_getattr_def handle_open_def handle_read_def handle_readdir_def Let_def
    split: option.split prod.split sum.split)

lemma wf_write:
  assumes "fs_wf (if_fs s)"
  shows "fs_wf (if_fs (snd (handle_write E ino offset d s)))"
proof -
  have "fs_wf (if_fs s')" if "write_path E p (unat offset) d s = (r, s')" for p r s'
    using wf_write_path [OF assms, of E p "unat offset" d] that by simp
  with assms show ?thesis by (auto simp: handle_write_def split: option.split prod.split sum.split)
qed

lemma wf_handle: "fs_wf (if_fs s) \<Longrightarrow> fs_wf (if_fs (handle fits E r s))"
  by (cases r) (simp_all add: fs_lookup fs_readers wf_setattr wf_mkdir wf_removals wf_rename wf_create_file
    wf_write handle_create_def handle_mknod_def split: option.split)

text \<open>A mount serves its requests one after the other.\<close>

interpretation served: machine "\<lambda>s (fits, E, r). handle fits E r s" "\<lambda>s. fs_wf (if_fs s)"
  by unfold_locales (auto intro: wf_handle)

section \<open>Coherence of the read cache: lemmas\<close>

text \<open>
  A cached path is a file, and an entry of the file's modification time holds its contents. A call
  keeps the files outside a set when their contents and modification times stay.
\<close>

definition cache_inv :: "read_cache \<Rightarrow> fs \<Rightarrow> bool" where
  "cache_inv c fs \<longleftrightarrow>
     (\<forall>p e. rc_entries c p = Some e \<longrightarrow>
        (\<exists>n. map_of fs p = Some n \<and> \<not> is_dirn n \<and> (ce_mtime e = nd_mtime n \<longrightarrow> ce_data e = nd_data n)))"

definition kept :: "path set \<Rightarrow> fs \<Rightarrow> fs \<Rightarrow> bool" where
  "kept P fs fs' \<longleftrightarrow>
     (\<forall>q n. q \<notin> P \<longrightarrow> map_of fs q = Some n \<longrightarrow> \<not> is_dirn n \<longrightarrow>
        (\<exists>n'. map_of fs' q = Some n' \<and> \<not> is_dirn n' \<and> nd_data n' = nd_data n \<and> nd_mtime n' = nd_mtime n))"

definition mount_inv :: "intercept \<Rightarrow> bool" where
  "mount_inv s \<longleftrightarrow> fs_wf (if_fs s) \<and> cache_inv (if_read_cache s) (if_fs s) \<and> if_session_id s \<noteq> []"

text \<open>A request other than the renaming of a directory.\<close>

definition ordinary :: "request \<Rightarrow> intercept \<Rightarrow> bool" where
  "ordinary r s \<longleftrightarrow>
     (case r of
        Rename parent name newparent newname \<Rightarrow>
          (case child_rel (if_inodes s) parent (components name) of
             None \<Rightarrow> True
           | Some rel \<Rightarrow> (case map_of (if_fs s) (abs_under (if_backing s) rel) of Some n \<Rightarrow> \<not> is_dirn n | None \<Rightarrow> True))
      | _ \<Rightarrow> True)"

fun serve :: "(dirent list \<Rightarrow> dirent \<Rightarrow> bool) \<Rightarrow> (os_env \<times> request) list \<Rightarrow> intercept \<Rightarrow> intercept" where
  "serve fits [] s = s"
| "serve fits ((E, r) # xs) s = serve fits xs (handle fits E r s)"

fun ordinary_run :: "(dirent list \<Rightarrow> dirent \<Rightarrow> bool) \<Rightarrow> (os_env \<times> request) list \<Rightarrow> intercept \<Rightarrow> bool" where
  "ordinary_run fits [] s = True"
| "ordinary_run fits ((E, r) # xs) s = (no_fault E \<and> ordinary r s \<and> ordinary_run fits xs (handle fits E r s))"

lemma cache_inv_coherent: "cache_inv c fs \<Longrightarrow> coherent c fs"
  unfolding cache_inv_def coherent_def by (metis option.inject)

lemma cache_inv_kept:
  assumes "cache_inv c fs" and "kept P fs fs'" and "\<And>p. p \<in> P \<Longrightarrow> rc_entries c p = None"
  shows "cache_inv c fs'"
  unfolding cache_inv_def
proof (intro allI impI)
  fix p e
  assume e: "rc_entries c p = Some e"
  with assms(1) obtain n where "map_of fs p = Some n" "\<not> is_dirn n" "ce_mtime e = nd_mtime n \<longrightarrow> ce_data e = nd_data n"
    unfolding cache_inv_def by blast
  moreover have "p \<notin> P" using assms(3) e by fastforce
  ultimately show "\<exists>n. map_of fs' p = Some n \<and> \<not> is_dirn n \<and> (ce_mtime e = nd_mtime n \<longrightarrow> ce_data e = nd_data n)"
    using assms(2) unfolding kept_def by metis
qed

lemma cache_inv_fewer:
  "cache_inv c fs \<Longrightarrow> (\<And>p e. rc_entries c' p = Some e \<Longrightarrow> rc_entries c p = Some e) \<Longrightarrow> cache_inv c' fs"
  by (simp add: cache_inv_def)

lemma cache_inv_invalidate [intro]: "cache_inv c fs \<Longrightarrow> cache_inv (rc_invalidate p c) fs"
  by (erule cache_inv_fewer) (simp split: if_splits)

text \<open>What changed only at a path is harmless once the path is dropped.\<close>

lemma cache_inv_drop: "cache_inv c fs \<Longrightarrow> kept {p} fs fs' \<Longrightarrow> cache_inv (rc_invalidate p c) fs'"
  by (rule cache_inv_kept [OF cache_inv_invalidate]) auto

lemma kept_refl [simp]: "kept P fs fs"
  by (simp add: kept_def)

lemma kept_mono: "kept P fs fs' \<Longrightarrow> P \<subseteq> Q \<Longrightarrow> kept Q fs fs'"
  unfolding kept_def by blast

lemma kept_trans: "kept P fs fs' \<Longrightarrow> kept P fs' fs'' \<Longrightarrow> kept P fs fs''"
  unfolding kept_def by metis

lemma kept_grown: "grown q fs fs' \<Longrightarrow> kept P fs fs'"
  unfolding grown_def kept_def by blast

lemma kept_update: "kept {p} fs (AList.update p n fs)"
  by (simp add: kept_def)

lemma kept_delete: "kept {p} fs (AList.delete p fs)"
  by (simp add: kept_def)

lemma kept_insert: "map_of fs p = None \<Longrightarrow> kept P fs (AList.update p n fs)"
  by (simp add: kept_def)

lemma kept_same:
  "map_of fs p = Some m \<Longrightarrow> is_dirn n = is_dirn m \<Longrightarrow> (\<not> is_dirn m \<Longrightarrow> nd_data n = nd_data m \<and> nd_mtime n = nd_mtime m) \<Longrightarrow>
   kept P fs (AList.update p n fs)"
  by (auto simp: kept_def)

lemma kept_move:
  assumes wf: "fs_wf fs" and src: "map_of fs s = Some n" "\<not> is_dirn n"
    and sep: "\<not> starts_with s p" "\<not> starts_with p s"
    and dst: "\<And>m. map_of fs p = Some m \<Longrightarrow> \<not> is_dirn m" and "p \<noteq> []"
  shows "kept {s, p} fs (move_tree s p fs)"
  unfolding kept_def
proof (intro allI impI)
  fix q k
  assume q: "q \<notin> {s, p}" "map_of fs q = Some k" "\<not> is_dirn k"
  have "map_of fs (p @ r) = None" if "r \<noteq> []" for r
    using below_file [OF wf _ _ that, of p] below_missing [OF wf _ \<open>p \<noteq> []\<close>, of r] dst
    by (cases "map_of fs p") auto
  then have "\<not> starts_with q p" using q by (metis append.right_neutral insertCI option.distinct(1) starts_with_iff)
  moreover have "\<not> starts_with q s"
    using below_file [OF wf src] q by (metis append.right_neutral insertCI option.distinct(1) starts_with_iff)
  ultimately show "\<exists>n'. map_of (move_tree s p fs) q = Some n' \<and> \<not> is_dirn n' \<and> nd_data n' = nd_data k \<and> nd_mtime n' = nd_mtime k"
    using q by (simp add: map_of_move_tree [OF sep])
qed

text \<open>The calls without faults.\<close>

lemma annotate_ok:
  assumes "no_fault E" and "session \<noteq> []" and "map_of fs p = Some n" "\<not> is_dirn n"
  shows "\<exists>n'. annotate_write E p session fs = (Inr (), AList.update p n' fs)
    \<and> \<not> is_dirn n' \<and> nd_data n' = nd_data n \<and> nd_mtime n' = nd_mtime n"
proof -
  let ?n1 = "set_attr_node ATTR_SESSION (as_bytes session) n"
  let ?v = "as_bytes (show_word (now_unix_secs (oe_now E)))"
  have "annotate_write E p session fs = (Inr (), AList.update p (set_attr_node ATTR_WRITTEN_AT ?v ?n1) (AList.update p ?n1 fs))"
    using assms set_attr_ok [OF assms(1,3,4)] set_attr_ok [OF assms(1), of "AList.update p ?n1 fs" p ?n1]
    by (simp add: annotate_write_def annotate_write_at_def)
  then show ?thesis using assms(4) by (cases n) auto
qed

lemma locked_write_effect:
  assumes E: "no_fault E" and "session \<noteq> []" and lw: "locked_write E session p offset payload w = (r, w')"
  shows "cw_meters w' = cw_meters w \<and>
    (case r of
       Inr k \<Rightarrow> k = of_nat (length payload) \<and> offset < 2 ^ 63
         \<and> (\<exists>n n'. map_of (cw_fs w) p = Some n \<and> \<not> is_dirn n \<and> cw_fs w' = AList.update p n' (cw_fs w)
              \<and> \<not> is_dirn n' \<and> nd_data n' = splice offset payload (nd_data n))
     | Inl _ \<Rightarrow> \<forall>q. map_of (cw_fs w') q = map_of (cw_fs w) q)"
proof (cases "\<exists>n. map_of (cw_fs w) p = Some n \<and> \<not> is_dirn n")
  case False
  with E lw have "r = Inl (os_error (case map_of (cw_fs w) p of None \<Rightarrow> missing_errno (cw_fs w) p | Some _ \<Rightarrow> EISDIR))" "w' = w"
    by (auto simp: locked_write_def open_write_def on_file_def split: option.splits)
  then show ?thesis by simp
next
  case True
  then obtain n where n: "map_of (cw_fs w) p = Some n" "\<not> is_dirn n" by blast
  let ?fs1 = "AList.update p n (cw_fs w)"
  have o: "open_write E p (cw_fs w) = (Inr (), ?fs1)" using E n by (simp add: open_write_def on_file_def)
  show ?thesis
  proof (cases "offset < 2 ^ 63")
    case False
    with lw o n show ?thesis by (auto simp: locked_write_def seek_start_def)
  next
    case True
    let ?n2 = "write_node (oe_now E) offset payload n"
    have wr: "write_all_at E offset payload p ?fs1 = (Inr (), AList.update p ?n2 ?fs1)"
      using E n by (simp add: write_all_at_def on_file_def)
    obtain n' where n': "annotate_write E p session (AList.update p ?n2 ?fs1) = (Inr (), AList.update p n' (AList.update p ?n2 ?fs1))"
      "\<not> is_dirn n'" "nd_data n' = nd_data ?n2"
      using annotate_ok [OF E assms(2), of "AList.update p ?n2 ?fs1" p ?n2] n by auto
    have "nd_data ?n2 = splice offset payload (nd_data n)" using n by (cases n) (auto simp: splice_def)
    with lw o True wr n' n show ?thesis by (auto simp: locked_write_def seek_start_def)
  qed
qed

lemma locked_write_ok:
  assumes "no_fault E" and "session \<noteq> []" and "map_of (cw_fs w) p = Some n" "\<not> is_dirn n" and "offset < 2 ^ 63"
  shows "\<exists>k. fst (locked_write E session p offset payload w) = Inr k"
  using annotate_ok [OF assms(1,2), of "AList.update p (write_node (oe_now E) offset payload n) (cw_fs w)" p] assms
  by (auto simp: locked_write_def open_write_def write_all_at_def on_file_def seek_start_def)

lemma store_for_grown: "store_for E key ac w = (ws, ac', w') \<Longrightarrow> \<exists>q. grown q (cw_fs w) (cw_fs w')"
proof (cases "map_of (ac_agents ac) key")
  case (Some x)
  assume "store_for E key ac w = (ws, ac', w')"
  with Some have "w' = w" by (simp add: store_for_def)
  then show ?thesis using grown_refl by blast
next
  case None
  assume sf: "store_for E key ac w = (ws, ac', w')"
  let ?q = "comp_join (ac_root ac) (components key)"
  obtain r fs' where c: "create_dir_all E ?q (cw_fs w) = (r, fs')" by (cases "create_dir_all E ?q (cw_fs w)")
  have "cw_fs w' = fs'" using sf None c by (auto simp: store_for_def ws_with_staging_root_def)
  with create_dir_all_grown [OF c] show ?thesis by blast
qed

lemma write_path_effect:
  assumes E: "no_fault E" and ses: "if_session_id s \<noteq> []" and wp: "write_path E p off d s = (r, s')"
  shows "if_backing s' = if_backing s \<and> if_inodes s' = if_inodes s \<and> if_session_id s' = if_session_id s \<and> kept {p} (if_fs s) (if_fs s')
    \<and> (case r of
         Inr k \<Rightarrow> k = of_nat (length d) \<and> off < 2 ^ 63 \<and> if_read_cache s' = rc_invalidate p (if_read_cache s)
           \<and> (\<exists>n n'. map_of (if_fs s) p = Some n \<and> \<not> is_dirn n \<and> map_of (if_fs s') p = Some n' \<and> \<not> is_dirn n'
                \<and> nd_data n' = splice off d (nd_data n))
       | Inl _ \<Rightarrow> kept {} (if_fs s) (if_fs s') \<and> if_read_cache s' = if_read_cache s
           \<and> (off < 2 ^ 63 \<longrightarrow> (\<forall>n. map_of (if_fs s) p = Some n \<longrightarrow> is_dirn n)))"
proof -
  let ?f = "locked_write E (if_session_id s) p off d"
  obtain w1 where g: "\<exists>q. grown q (if_fs s) (cw_fs w1)"
    and run: "\<exists>cow. ac_with_locked_path E None p ?f (if_cow s) (if_world s) = (Inr (fst (?f w1)), cow, snd (?f w1))"
  proof (cases "ac_serialize (if_cow s)")
    case False
    show thesis
      by (rule that [of "if_world s"]) (use False grown_refl in \<open>auto simp: ac_with_locked_path_def split: prod.split\<close>)
  next
    case True
    obtain ws ac1 w1 where sf: "store_for E (agent_key (if_cow s) None) (if_cow s) (if_world s) = (ws, ac1, w1)"
      by (cases "store_for E (agent_key (if_cow s) None) (if_cow s) (if_world s)")
    show thesis
      by (rule that [of w1], rule store_for_grown [OF sf])
        (simp add: True sf ac_with_locked_path_def on_store_def ws_with_locked_path_def Let_def split: prod.split)
  qed
  obtain r1 w2 where lw: "?f w1 = (r1, w2)" by (cases "?f w1")
  from run lw obtain cow where run': "ac_with_locked_path E None p ?f (if_cow s) (if_world s) = (Inr r1, cow, w2)" by auto
  note eff = locked_write_effect [OF E ses lw]
  have k1: "kept P (if_fs s) (cw_fs w1)" for P using g kept_grown by blast
  have same_file: "(\<exists>n. map_of (cw_fs w1) p = Some n \<and> \<not> is_dirn n \<and> P n) \<longleftrightarrow> (\<exists>n. map_of (if_fs s) p = Some n \<and> \<not> is_dirn n \<and> P n)" for P
    using g unfolding grown_def by (metis option.inject)
  show ?thesis
  proof (cases r1)
    case (Inl e)
    with eff have same: "\<forall>q. map_of (cw_fs w2) q = map_of (cw_fs w1) q" by simp
    have "kept P (if_fs s) (cw_fs w2)" for P using k1 [of P] same by (simp add: kept_def)
    moreover have "is_dirn n" if small: "off < 2 ^ 63" and present: "map_of (if_fs s) p = Some n" for n
    proof (rule ccontr)
      assume "\<not> is_dirn n"
      then obtain m where "map_of (cw_fs w1) p = Some m" "\<not> is_dirn m" using same_file [of "\<lambda>_. True"] present by blast
      then have "\<exists>k. fst (?f w1) = Inr k" by (rule locked_write_ok [OF E ses _ _ small])
      with lw Inl show False by simp
    qed
    ultimately show ?thesis using wp run' Inl
      by (auto simp: write_path_def on_overlay_def)
  next
    case (Inr k)
    with eff obtain n n' where n: "map_of (cw_fs w1) p = Some n" "\<not> is_dirn n" "cw_fs w2 = AList.update p n' (cw_fs w1)"
      "\<not> is_dirn n'" "nd_data n' = splice off d (nd_data n)" and k: "k = of_nat (length d)" "off < 2 ^ 63" by auto
    have "kept {p} (if_fs s) (cw_fs w2)" using kept_trans [OF k1 kept_update] n(3) by metis
    moreover have "map_of (if_fs s) p = Some n" using same_file [of "\<lambda>m. m = n"] n(1,2) by blast
    ultimately show ?thesis using wp run' Inr n k
      by (auto simp: write_path_def on_overlay_def drop_cached_def)
  qed
qed

lemma cache_fields [simp]:
  "if_read_cache (set_fs fs s) = if_read_cache s" "if_read_cache (invalidate_neg_rel rel s) = if_read_cache s"
  "if_read_cache (remember_missing E rel s) = if_read_cache s" "if_read_cache (set_inodes m s) = if_read_cache s"
  "if_read_cache (drop_cached p s) = rc_invalidate p (if_read_cache s)"
  "if_session_id (set_fs fs s) = if_session_id s" "if_session_id (invalidate_neg_rel rel s) = if_session_id s"
  "if_session_id (remember_missing E rel s) = if_session_id s" "if_session_id (set_inodes m s) = if_session_id s"
  "if_session_id (drop_cached p s) = if_session_id s"
  by (simp_all add: set_fs_def invalidate_neg_rel_def remember_missing_def set_inodes_def drop_cached_def)

lemma probe_fields:
  assumes "probe_neg E rel s = (b, s')"
  shows "if_read_cache s' = if_read_cache s" "if_session_id s' = if_session_id s" "if_fs s' = if_fs s"
  using assms by (auto simp: probe_neg_def Let_def split: prod.splits)

lemma rc_get_fewer: "rc_get p t c = (r, c') \<Longrightarrow> rc_entries c' q = Some e \<Longrightarrow> rc_entries c q = Some e"
  by (auto simp: rc_get_def split: option.splits if_splits)

lemma cache_inv_read:
  assumes "cache_inv c fs"
  shows "cache_inv (snd (read_slice E fs p off sz c)) fs"
proof -
  have "cache_inv (snd (read_coalesced E fs p c)) fs"
  proof (cases "fs_metadata E fs p")
    case (Inr meta)
    obtain r c' where get: "rc_get p (md_modified meta) c = (r, c')" by (cases "rc_get p (md_modified meta) c")
    have c': "cache_inv c' fs" using assms by (rule cache_inv_fewer) (rule rc_get_fewer [OF get])
    from Inr obtain n where n: "map_of fs p = Some n" "md_modified meta = nd_mtime n"
      by (auto simp: fs_metadata_Inr md_modified_def)
    have "cache_inv (put_miss p (nd_mtime n) d c') fs" if "fs_read E fs p = Inr d" for d
      using c' n that by (auto simp: cache_inv_def put_miss_def fs_read_Inr)
    with Inr get c' n show ?thesis
      by (auto simp: read_coalesced_def Let_def split: option.splits sum.splits)
  qed (use assms in \<open>simp add: read_coalesced_def\<close>)
  then show ?thesis by (auto simp: read_slice_def Let_def split: prod.splits sum.splits)
qed

lemma inv_lookup: "mount_inv s \<Longrightarrow> mount_inv (snd (handle_lookup E parent name s))"
proof (cases "child_rel (if_inodes s) parent (components name)")
  case (Some rel)
  assume inv: "mount_inv s"
  obtain b s' where p: "probe_neg E rel s = (b, s')" by (cases "probe_neg E rel s")
  obtain r m where l: "lookup_or_alloc parent (components name) (if_inodes s') = (r, m)"
    by (cases "lookup_or_alloc parent (components name) (if_inodes s')")
  show ?thesis
    using Some p l inv probe_fields [OF p]
    by (auto simp: handle_lookup_def mount_inv_def Let_def split: bool.split option.split sum.split)
qed (simp add: handle_lookup_def)

lemma inv_readers:
  assumes "mount_inv s"
  shows "mount_inv (snd (handle_getattr E ino s))" "mount_inv (snd (handle_open E ino s))"
    "mount_inv (snd (handle_read E ino off sz s))" "mount_inv (snd (handle_readdir E fits ino off s))"
proof -
  have "cache_inv c' (if_fs s)" if "read_slice E (if_fs s) p off sz (if_read_cache s) = (r, c')" for p r c'
    using cache_inv_read [of "if_read_cache s" "if_fs s" E p off sz] assms that by (simp add: mount_inv_def)
  then show "mount_inv (snd (handle_read E ino off sz s))"
    using assms by (auto simp: handle_read_def mount_inv_def split: option.split prod.split sum.split)
qed (use assms in \<open>auto simp: handle_getattr_def handle_open_def handle_readdir_def mount_inv_def Let_def
    split: option.split prod.split sum.split\<close>)

lemma inv_write:
  assumes "mount_inv s" and "no_fault E"
  shows "mount_inv (snd (handle_write E ino off d s))"
proof (cases "abs_path (if_inodes s) (if_backing s) ino")
  case (Some p)
  obtain r s' where wp: "write_path E p (unat off) d s = (r, s')" by (cases "write_path E p (unat off) d s")
  have "if_session_id s \<noteq> []" using assms(1) by (simp add: mount_inv_def)
  note eff = write_path_effect [OF assms(2) this wp]
  have "fs_wf (if_fs s')" using wf_write_path [of s E p "unat off" d] assms(1) wp by (simp add: mount_inv_def)
  moreover have "cache_inv (if_read_cache s') (if_fs s')"
    using eff assms(1) cache_inv_drop cache_inv_kept [of _ "if_fs s" "{}"]
    by (cases r) (auto simp: mount_inv_def)
  ultimately show ?thesis
    using Some wp eff assms(1) by (auto simp: handle_write_def mount_inv_def split: sum.split)
qed (use assms in \<open>simp add: handle_write_def\<close>)

lemma truncate_effect:
  assumes E: "no_fault E" and t: "truncate_path E sz p fs = (r, fs')"
  shows "kept {p} fs fs' \<and>
    (case r of Inl _ \<Rightarrow> kept {} fs fs' | Inr _ \<Rightarrow> \<exists>n. map_of fs' p = Some n \<and> \<not> is_dirn n)"
proof (cases "\<exists>n. map_of fs p = Some n \<and> \<not> is_dirn n")
  case False
  with E t have "fs' = fs \<and> (\<exists>e. r = Inl e)"
    by (auto simp: truncate_path_def open_write_def on_file_def split: option.splits)
  then show ?thesis by auto
next
  case True
  then obtain n where n: "map_of fs p = Some n" "\<not> is_dirn n" by blast
  have "kept {} fs (AList.update p n fs)" using n by (intro kept_same) auto
  with E t n show ?thesis
    by (auto simp: truncate_path_def open_write_def on_file_def set_len_def kept_update split: if_splits)
qed

lemma chmod_effect:
  assumes E: "no_fault E" and t: "set_permissions E m p fs = (r, fs')"
  shows "kept {} fs fs' \<and> (r = Inr () \<longleftrightarrow> map_of fs p \<noteq> None) \<and> (map_of fs' p = None \<longleftrightarrow> map_of fs p = None)"
proof (cases "map_of fs p")
  case (Some n)
  have "kept {} fs (AList.update p (chmod_node m n) fs)"
    using Some by (rule kept_same) (simp, cases n, auto)
  with E t Some show ?thesis by (auto simp: set_permissions_def)
qed (use E t in \<open>auto simp: set_permissions_def\<close>)

lemma inv_setattr:
  assumes inv: "mount_inv s" and E: "no_fault E"
  shows "mount_inv (snd (handle_setattr E ino mode sz s))"
proof (cases "abs_path (if_inodes s) (if_backing s) ino")
  case (Some p)
  obtain r1 fs1 where c1: "(case sz of None \<Rightarrow> (Inr (), if_fs s) | Some sz \<Rightarrow> truncate_path E (unat sz) p (if_fs s)) = (r1, fs1)"
    by (cases "case sz of None \<Rightarrow> (Inr (), if_fs s) | Some sz \<Rightarrow> truncate_path E (unat sz) p (if_fs s)")
  obtain r2 fs2 where c2: "(case mode of None \<Rightarrow> (Inr (), fs1) | Some m \<Rightarrow> set_permissions E m p fs1) = (r2, fs2)"
    by (cases "case mode of None \<Rightarrow> (Inr (), fs1) | Some m \<Rightarrow> set_permissions E m p fs1")
  have k1: "kept {p} (if_fs s) fs1" "kept {} (if_fs s) fs1 \<or> map_of fs1 p \<noteq> None \<and> r1 = Inr ()"
    using c1 by (auto dest!: truncate_effect [OF E] split: option.splits sum.splits)
  have k2: "kept {} fs1 fs2" "map_of fs1 p \<noteq> None \<longrightarrow> r2 = Inr () \<and> map_of fs2 p \<noteq> None"
    using c2 chmod_effect [OF E, of _ p fs1] by (auto split: option.splits)
  have k12: "kept {p} (if_fs s) fs2" "kept {} (if_fs s) fs2 \<or> map_of fs2 p \<noteq> None \<and> r1 = Inr () \<and> r2 = Inr ()"
    using kept_trans [OF k1(1)] kept_mono [OF k2(1)] kept_trans [OF _ k2(1)] k1(2) k2(2) by blast+
  have meta: "map_of fs2 p \<noteq> None \<Longrightarrow> \<exists>a. reply_attr E ino p (set_fs fs2 s) = Inr a"
    using E by (auto simp: reply_attr_def fs_metadata_eq no_fault_def)
  have c: "cache_inv (if_read_cache s) (if_fs s)" using inv by (simp add: mount_inv_def)
  have plain: "cache_inv (if_read_cache s) fs'" if "kept {} (if_fs s) fs'" for fs'
    using c that by (rule cache_inv_kept) simp
  have dropped: "cache_inv (rc_invalidate p (if_read_cache s)) fs2" using c k12(1) by (rule cache_inv_drop)
  have "cache_inv (if_read_cache (snd (handle_setattr E ino mode sz s))) (if_fs (snd (handle_setattr E ino mode sz s)))"
    using Some c1 c2 k1(2) k12(2) plain dropped meta
    by (auto simp: handle_setattr_def split: sum.split)
  moreover have "if_session_id (snd (handle_setattr E ino mode sz s)) = if_session_id s"
    using Some c1 c2 by (auto simp: handle_setattr_def split: sum.split)
  ultimately show ?thesis using inv wf_setattr [of s E ino mode sz] by (simp add: mount_inv_def)
qed (use inv in \<open>simp add: handle_setattr_def\<close>)

lemma inv_mkdir:
  assumes inv: "mount_inv s"
  shows "mount_inv (snd (handle_mkdir E parent name mode s))"
proof (cases "child_rel (if_inodes s) parent (components name)")
  case (Some rel)
  let ?p = "abs_under (if_backing s) rel"
  obtain r fs1 where c: "create_dir E ?p (if_fs s) = (r, fs1)" by (cases "create_dir E ?p (if_fs s)")
  let ?fs2 = "snd (set_permissions E mode ?p fs1)"
  have k1: "kept {} (if_fs s) fs1" using create_dir_grown [OF c] by (rule kept_grown)
  have "kept {} fs1 ?fs2"
  proof -
    have "kept {} fs1 (AList.update ?p (chmod_node mode n) fs1)" if "map_of fs1 ?p = Some n" for n
      using that by (rule kept_same) (simp, cases n, auto)
    then show ?thesis by (auto simp: set_permissions_def guarded_def split: option.split)
  qed
  with k1 have "kept {} (if_fs s) ?fs2" by (rule kept_trans)
  with k1 inv have "cache_inv (if_read_cache s) fs1" "cache_inv (if_read_cache s) ?fs2"
    by (auto simp: mount_inv_def intro: cache_inv_kept)
  with Some c inv wf_mkdir [of s E parent name mode] show ?thesis
    by (auto simp: handle_mkdir_def mount_inv_def Let_def split: sum.splits prod.splits)
qed (use inv in \<open>simp add: handle_mkdir_def\<close>)

lemma inv_create_file:
  assumes inv: "mount_inv s" and E: "no_fault E"
  shows "mount_inv (snd (create_file E rel mode s))"
proof -
  let ?p = "abs_under (if_backing s) rel"
  have c: "cache_inv (if_read_cache s) (if_fs s)" and ses: "if_session_id s \<noteq> []" using inv by (simp_all add: mount_inv_def)
  obtain r1 fs1 where c1: "create_parent_dirs E ?p (if_fs s) = (r1, fs1)" by (cases "create_parent_dirs E ?p (if_fs s)")
  have k1: "kept {} (if_fs s) fs1" using create_parent_dirs_grown [OF c1] by (rule kept_grown)
  obtain r2 fs2 where c2: "create_new E mode ?p fs1 = (r2, fs2)" by (cases "create_new E mode ?p fs1")
  have ci1: "cache_inv (if_read_cache s) fs1" using c k1 by (rule cache_inv_kept) simp
  have "cache_inv (if_read_cache (snd (create_file E rel mode s))) (if_fs (snd (create_file E rel mode s)))
    \<and> if_session_id (snd (create_file E rel mode s)) = if_session_id s"
  proof (cases "r1 = Inr () \<and> r2 = Inr ()")
    case False
    with c1 c2 ci1 show ?thesis
      by (cases r1; cases r2) (auto simp: create_file_def create_new_def dest: make_node_Inl)
  next
    case True
    then obtain n where fs2: "fs2 = AList.update ?p n fs1" "\<not> is_dirn n" "map_of fs1 ?p = None"
      using c2 by (auto simp: create_new_def fs_ops)
    obtain n' where ann: "annotate_write E ?p (if_session_id s) fs2 = (Inr (), AList.update ?p n' fs2)" "\<not> is_dirn n'"
      using annotate_ok [OF E ses, of fs2 ?p n] fs2 by auto
    have k: "kept {?p} (if_fs s) (AList.update ?p n' fs2)"
      using kept_trans [OF kept_mono [OF k1] kept_update] fs2(1) by (metis empty_subsetI update_twice)
    have ac: "after_create_at E rel ?p (set_fs fs2 s) = (Inr (), drop_cached ?p (invalidate_neg_rel rel (set_fs (AList.update ?p n' fs2) s)))"
      using ann by (simp add: after_create_at_def set_fs_def)
    have "cache_inv (rc_invalidate ?p (if_read_cache s)) (AList.update ?p n' fs2)" using c k by (rule cache_inv_drop)
    with c1 c2 True ac show ?thesis
      by (auto simp: create_file_def install_created_entry_def Let_def split: prod.split sum.split)
  qed
  with inv wf_create_file [of s E rel mode] show ?thesis by (simp add: mount_inv_def)
qed

lemma inv_removals:
  assumes inv: "mount_inv s"
  shows "mount_inv (snd (handle_unlink E parent name s))" "mount_inv (snd (handle_rmdir E parent name s))"
proof -
  have c: "cache_inv (if_read_cache s) (if_fs s)" using inv by (simp add: mount_inv_def)
  have u: "cache_inv (rc_invalidate p (if_read_cache s)) fs'" if "remove_file E p (if_fs s) = (Inr x, fs')" for p x fs'
    using cache_inv_drop [OF c kept_delete] that by (auto simp: fs_ops)
  have d: "cache_inv (if_read_cache s) fs'" if "remove_dir E p (if_fs s) = (Inr x, fs')" for p x fs'
  proof -
    have "kept {} (if_fs s) fs'" using that by (auto simp: fs_ops kept_def)
    then show ?thesis using c by (auto intro: cache_inv_kept)
  qed
  have "cache_inv (if_read_cache (snd (handle_unlink E parent name s))) (if_fs (snd (handle_unlink E parent name s)))
    \<and> if_session_id (snd (handle_unlink E parent name s)) = if_session_id s"
    using c u by (auto simp: handle_unlink_def Let_def dest: remove_file_Inl split: option.split prod.split sum.split)
  moreover have "cache_inv (if_read_cache (snd (handle_rmdir E parent name s))) (if_fs (snd (handle_rmdir E parent name s)))
    \<and> if_session_id (snd (handle_rmdir E parent name s)) = if_session_id s"
    using c d by (auto simp: handle_rmdir_def Let_def dest: remove_dir_Inl split: option.split prod.split sum.split)
  ultimately show "mount_inv (snd (handle_unlink E parent name s))" "mount_inv (snd (handle_rmdir E parent name s))"
    using inv wf_removals [of s E parent name] by (simp_all add: mount_inv_def)
qed

lemma inv_rename:
  assumes inv: "mount_inv s" and ord: "ordinary (Rename parent name newparent newname) s"
  shows "mount_inv (snd (handle_rename E parent name newparent newname s))"
proof (cases "child_rel (if_inodes s) parent (components name)")
  case (Some old)
  note old = this
  show ?thesis
  proof (cases "child_rel (if_inodes s) newparent (components newname)")
    case (Some new)
    let ?p = "abs_under (if_backing s) old" and ?q = "abs_under (if_backing s) new"
    have c: "cache_inv (if_read_cache s) (if_fs s)" and wf: "fs_wf (if_fs s)" using inv by (simp_all add: mount_inv_def)
    obtain r fs' where rn: "fs_rename E ?p ?q (if_fs s) = (r, fs')" by (cases "fs_rename E ?p ?q (if_fs s)")
    have "cache_inv (if_read_cache (snd (handle_rename E parent name newparent newname s)))
        (if_fs (snd (handle_rename E parent name newparent newname s)))
      \<and> if_session_id (snd (handle_rename E parent name newparent newname s)) = if_session_id s"
    proof (cases r)
      case (Inl e)
      with rn have "fs' = if_fs s" by (auto dest: fs_rename_Inl)
      with rn Inl old Some c show ?thesis by (simp add: handle_rename_def Let_def)
    next
      case (Inr x)
      note rnx = rn [unfolded Inr]
      from fs_rename_Inr [OF rnx] obtain n where n: "map_of (if_fs s) ?p = Some n" by blast
      have reg: "\<not> is_dirn n" using ord old n by (simp add: ordinary_def)
      have "kept {?p, ?q} (if_fs s) fs'"
      proof (cases "?p = ?q")
        case True
        then show ?thesis using fs_rename_Inr [OF rnx] by auto
      next
        case False
        with fs_rename_Inr [OF rnx] have sep: "\<not> starts_with ?p ?q" "\<not> starts_with ?q ?p" "fs' = move_tree ?p ?q (if_fs s)" by auto
        moreover have "?q \<noteq> []" using sep(1) by (auto simp: starts_with_def)
        ultimately show ?thesis
          using kept_move [OF wf n reg sep(1,2) rename_file_target [OF rnx n reg False]] by simp
      qed
      then have "cache_inv (rc_invalidate ?q (rc_invalidate ?p (if_read_cache s))) fs'"
        using cache_inv_kept [OF cache_inv_invalidate [OF cache_inv_invalidate [OF c]]] by fastforce
      with rn Inr old Some show ?thesis by (simp add: handle_rename_def Let_def)
    qed
    with inv wf_rename [of s E parent name newparent newname] show ?thesis by (simp add: mount_inv_def)
  qed (use inv old in \<open>simp add: handle_rename_def\<close>)
qed (use inv in \<open>simp add: handle_rename_def\<close>)

lemma inv_handle:
  assumes "mount_inv s" and "no_fault E" and "ordinary r s"
  shows "mount_inv (handle fits E r s)"
  using assms
  by (cases r) (simp_all add: inv_lookup inv_readers inv_setattr inv_write inv_mkdir inv_create_file inv_removals inv_rename
    handle_create_def handle_mknod_def split: option.split)

lemma inv_serve: "mount_inv s \<Longrightarrow> ordinary_run fits xs s \<Longrightarrow> mount_inv (serve fits xs s)"
  by (induction fits xs s rule: serve.induct) (auto intro: inv_handle)

lemma splice_window: "take (length d) (drop off (splice off d old)) = d"
  by (cases "d = []") (auto simp: splice_def)

lemma write_path_ok:
  assumes "no_fault E" "if_session_id s \<noteq> []" "map_of (if_fs s) p = Some n" "\<not> is_dirn n" "off < 2 ^ 63"
    and "write_path E p off d s = (r, s')"
  shows "r = Inr (of_nat (length d))"
  using write_path_effect [OF assms(1,2,6)] assms(3-5) by (cases r) auto

lemma read_current:
  assumes "mount_inv s" and "no_fault E" and "abs_path (if_inodes s) (if_backing s) ino = Some p"
  shows "fst (handle_read E ino off sz s) =
    (case map_of (if_fs s) p of
       None \<Rightarrow> Inl (oe_errno E (os_error (missing_errno (if_fs s) p)))
     | Some n \<Rightarrow> if is_dirn n then Inl (oe_errno E (os_error EISDIR))
                else Inr (take (unat sz) (drop (unat off) (nd_data n))))"
proof -
  have "coherent (if_read_cache s) (if_fs s)" using assms(1) by (simp add: mount_inv_def cache_inv_coherent)
  moreover have "oe_fault E Stat p = None" "oe_fault E ReadFile p = None" using assms(2) by (simp_all add: no_fault_def)
  ultimately have "fst (read_slice E (if_fs s) p off sz (if_read_cache s)) =
      (case map_of (if_fs s) p of
         None \<Rightarrow> Inl (os_error (missing_errno (if_fs s) p))
       | Some n \<Rightarrow> if is_dirn n then Inl (os_error EISDIR)
                  else Inr (take (unat sz) (drop (unat off) (nd_data n))))"
    by (rule read_slice_value)
  with assms(3) show ?thesis
    by (cases "read_slice E (if_fs s) p off sz (if_read_cache s)")
      (auto simp: handle_read_def split: option.splits sum.splits if_splits)
qed

section \<open>Properties\<close>

text \<open>
  Over every sequence of requests, whatever faults the calls below meet, the backing tree stays
  a tree: its root is a directory and everything that exists lies in a directory.
\<close>

theorem requests_keep_tree:
  assumes "fs_wf (if_fs s)"
  shows "fs_wf (if_fs (foldl (\<lambda>s (fits, E, r). handle fits E r s) s xs))"
  using served.run_inv [of s xs] assms by simp

lemma demo_mount_eq:
  "demo_mount = \<lparr>if_backing = [RootDir, NormalC ''w''], if_session_id = ''default'', if_cow_enabled = False,
     if_agents_conf = None, if_inodes = im_new, if_read_cache = rc_new, if_neg_dentry = neg_with_ttl DEFAULT_NEG_TTL,
     if_cow = \<lparr>ac_root = [RootDir, NormalC ''w'', NormalC ''.sharecli-cow-staging''], ac_default = ''default'',
        ac_serialize = True, ac_agents = []\<rparr>,
     if_world = demo_world\<lparr>cw_fs := demo_fs @ [(demo_path, FileN [1, 2, 3] 420 7 []),
        ([RootDir, NormalC ''w'', NormalC ''.sharecli-cow-staging''], DirN (0x1FF AND NOT 18) (from_secs 9))]\<rparr>,
     if_global_neg = \<lparr>nm_hits = 0, nm_misses = 0\<rparr>\<rparr>"
proof -
  have san: "sanitize_agent_id ''default'' = ''default''"
    by (rule sanitize_id) (simp add: is_valid_agent_id_def agent_char_def is_ascii_alphanumeric_def)
  have comps: "components ''.sharecli-cow-staging'' = [NormalC ''.sharecli-cow-staging'']"
    by (simp add: components_def starts_with_def piece_def)
  show ?thesis
    by (simp add: demo_mount_def if_with_options_def options_default_def ac_new_def san comps comp_join_def is_absolute_def
      create_dir_all.simps create_dir_def make_node_def guarded_def parent_errno_def demo_env_def demo_world_def demo_fs_def
      demo_path_def Let_def)
qed

lemma demo_mount_inv: "mount_inv demo_mount"
proof -
  have "fs_wf (if_fs demo_mount)"
    by (auto simp: demo_mount_eq fs_wf_def demo_fs_def demo_path_def)
  then show ?thesis by (simp add: mount_inv_def demo_mount_eq cache_inv_def rc_new_def)
qed

theorem requests_keep_tree_witness:
  "fs_wf (if_fs (foldl (\<lambda>s (fits, E, r). handle fits E r s) demo_mount
     [(\<lambda>_ _. True, demo_env, Lookup 1 ''f''), (\<lambda>_ _. True, demo_env, UnlinkR 1 ''f'')]))"
  using requests_keep_tree [of demo_mount] demo_mount_inv by (simp only: mount_inv_def)

text \<open>
  C13: after every sequence of requests without faults, other than renamings of directories, a read
  through the mount returns the current contents of the file, cut to the requested window: the
  cache never serves stale bytes, whatever the modification times are.
\<close>

theorem reads_are_current:
  assumes "mount_inv s0" and "ordinary_run fits xs s0" and "no_fault E"
  defines "s \<equiv> serve fits xs s0"
  assumes "abs_path (if_inodes s) (if_backing s) ino = Some p"
  shows "fst (handle_read E ino off sz s) =
    (case map_of (if_fs s) p of
       None \<Rightarrow> Inl (oe_errno E (os_error (missing_errno (if_fs s) p)))
     | Some n \<Rightarrow> if is_dirn n then Inl (oe_errno E (os_error EISDIR))
                else Inr (take (unat sz) (drop (unat off) (nd_data n))))"
  using inv_serve [OF assms(1,2)] assms(3,5) unfolding s_def by (rule read_current)

lemma demo_lookup:
  "serve (\<lambda>_ _. True) [(demo_env, Lookup 1 ''f'')] demo_mount =
     invalidate_neg_rel [NormalC ''f'']
       (set_inodes (snd (alloc_or_get [NormalC ''f''] im_new)) (demo_mount\<lparr>if_neg_dentry := neg_with_ttl DEFAULT_NEG_TTL\<rparr>))"
  "ordinary_run (\<lambda>_ _. True) [(demo_env, Lookup 1 ''f'')] demo_mount"
proof -
  have comps: "components ''f'' = [NormalC ''f'']" by (simp add: components_def starts_with_def piece_def)
  show "serve (\<lambda>_ _. True) [(demo_env, Lookup 1 ''f'')] demo_mount =
     invalidate_neg_rel [NormalC ''f'']
       (set_inodes (snd (alloc_or_get [NormalC ''f''] im_new)) (demo_mount\<lparr>if_neg_dentry := neg_with_ttl DEFAULT_NEG_TTL\<rparr>))"
    by (simp add: handle_lookup_def child_rel_def im_resolve_def lookup_or_alloc_def comps demo_mount_eq im_new_def ROOT_INO_def
      join_rel_def probe_neg_def is_negative_def neg_with_ttl_def alloc_or_get_def abs_under_def comp_join_def is_absolute_def
      fs_metadata_def guarded_def demo_env_def demo_world_def demo_fs_def demo_path_def set_inodes_def invalidate_neg_rel_def)
  show "ordinary_run (\<lambda>_ _. True) [(demo_env, Lookup 1 ''f'')] demo_mount"
    by (simp add: ordinary_def demo_ok)
qed

lemma demo_lookup_path:
  "abs_path (if_inodes (serve (\<lambda>_ _. True) [(demo_env, Lookup 1 ''f'')] demo_mount))
     (if_backing (serve (\<lambda>_ _. True) [(demo_env, Lookup 1 ''f'')] demo_mount)) 2 = Some demo_path"
  "map_of (if_fs (serve (\<lambda>_ _. True) [(demo_env, Lookup 1 ''f'')] demo_mount)) demo_path = Some (FileN [1, 2, 3] 420 7 [])"
  unfolding demo_lookup
  by (simp_all add: abs_path_def im_resolve_def alloc_or_get_def im_new_def ROOT_INO_def abs_under_def comp_join_def
    is_absolute_def demo_mount_eq demo_path_def demo_fs_def set_inodes_def invalidate_neg_rel_def Let_def)

theorem reads_are_current_witness:
  "fst (handle_read demo_env 2 1 2 (serve (\<lambda>_ _. True) [(demo_env, Lookup 1 ''f'')] demo_mount)) = Inr [2, 3]"
  using reads_are_current [OF demo_mount_inv demo_lookup(2) demo_ok(2) demo_lookup_path(1), of 1 2]
  by (simp only: demo_lookup_path(2)) simp

text \<open>
  C14: a write through the mount to a file succeeds and the next read sees it: the file's contents
  are the old ones with the written bytes at their offset, a gap filled with zeros, and reading
  back the written window gives the written bytes.
\<close>

theorem read_your_writes:
  assumes "mount_inv s" and "no_fault E" and "no_fault E'"
    and "abs_path (if_inodes s) (if_backing s) ino = Some p" and "map_of (if_fs s) p = Some n" and "\<not> is_dirn n"
    and "unat off < 2 ^ 63" and "length d < 2 ^ 32"
  shows "let (r, s') = handle_write E ino off d s
    in r = Inr (of_nat (length d)) \<and> file_bytes (if_fs s') p = Some (splice (unat off) d (nd_data n))
       \<and> fst (handle_read E' ino off (of_nat (length d)) s') = Inr d"
proof -
  obtain r s' where wp: "write_path E p (unat off) d s = (r, s')" by (cases "write_path E p (unat off) d s")
  have ses: "if_session_id s \<noteq> []" using assms(1) by (simp add: mount_inv_def)
  have r: "r = Inr (of_nat (length d))" using write_path_ok [OF assms(2) ses assms(5-7) wp] .
  have hw: "handle_write E ino off d s = (Inr (of_nat (length d)), s')"
    using assms(4) wp r by (simp add: handle_write_def)
  then have inv: "mount_inv s'" using inv_write [OF assms(1,2), of ino off d] by simp
  from write_path_effect [OF assms(2) ses wp] r assms(5) obtain n' where
    n': "map_of (if_fs s') p = Some n'" "\<not> is_dirn n'" "nd_data n' = splice (unat off) d (nd_data n)"
    and same: "if_backing s' = if_backing s" "if_inodes s' = if_inodes s" by auto
  have "unat (of_nat (length d) :: u32) = length d" using assms(8) by (simp add: unat_of_nat)
  then have "fst (handle_read E' ino off (of_nat (length d)) s') = Inr d"
    using read_current [OF inv assms(3), of ino p off "of_nat (length d)"] same assms(4) n'
    by (simp add: splice_window)
  moreover have "file_bytes (if_fs s') p = Some (splice (unat off) d (nd_data n))"
    using n' by (cases n') (auto simp: file_bytes_def)
  ultimately show ?thesis by (simp add: hw)
qed

theorem read_your_writes_witness:
  "let s = serve (\<lambda>_ _. True) [(demo_env, Lookup 1 ''f'')] demo_mount; (r, s') = handle_write demo_env 2 5 [8, 9] s
   in r = Inr 2 \<and> file_bytes (if_fs s') demo_path = Some [1, 2, 3, 0, 0, 8, 9] \<and> fst (handle_read demo_env 2 5 2 s') = Inr [8, 9]"
proof -
  have inv: "mount_inv (serve (\<lambda>_ _. True) [(demo_env, Lookup 1 ''f'')] demo_mount)"
    by (rule inv_serve [OF demo_mount_inv demo_lookup(2)])
  have sp: "splice 5 [8, 9] [1, 2, 3] = [1, 2, 3, 0, 0, 8, 9]" by (simp add: splice_def eval_nat_numeral)
  obtain r s' where w: "handle_write demo_env 2 5 [8, 9] (serve (\<lambda>_ _. True) [(demo_env, Lookup 1 ''f'')] demo_mount) = (r, s')"
    by (cases "handle_write demo_env 2 5 [8, 9] (serve (\<lambda>_ _. True) [(demo_env, Lookup 1 ''f'')] demo_mount)")
  from read_your_writes [OF inv demo_ok(2) demo_ok(2) demo_lookup_path(1,2), of 5 "[8, 9]"]
  show ?thesis by (simp only: w Let_def split_conv) (simp add: sp)
qed

lemma commit_makes_file:
  assumes "cow_env_ok E" and "cow_inv hash P ac w" and "p \<in> P" and "ac_commit_pending E agent p ac w = (Inr u, ac', w')"
  shows "\<exists>d. file_bytes (cw_fs w') p = Some d"
proof -
  from cow_step_refines [OF assms(1,2), of "CommitOp agent p" "Inr u" ac' w'] assms(3,4)
  have "abs_overlays ac' w' = spec_step (agent_key ac) (CommitOp agent p) (abs_overlays ac w)"
    and "ov_staged (abs_overlays ac w) (agent_key ac agent) p \<noteq> None" by auto
  then obtain d where "ov_base (abs_overlays ac' w') p = Some d"
    by (cases "ov_staged (abs_overlays ac w) (agent_key ac agent) p") auto
  then show ?thesis by (auto simp: abs_overlays_def split: if_splits)
qed

lemma stamp_commit_effect:
  assumes E: "no_fault E" and st: "stamp_commit E p s = (Inr u, s')" and d: "file_bytes (if_fs s) p = Some d"
  shows "file_bytes (if_fs s') p = Some d \<and> if_neg_dentry s' = if_neg_dentry s \<and> if_backing s' = if_backing s"
proof -
  obtain mode t xs where n: "map_of (if_fs s) p = Some (FileN d mode t xs)" using d by (auto simp: file_bytes_Some)
  have "if_session_id s \<noteq> []"
    using st by (auto simp: stamp_commit_def stamp_def annotate_write_def annotate_write_at_def)
  from annotate_ok [OF E this n] obtain n' where
    n': "annotate_write E p (if_session_id s) (if_fs s) = (Inr (), AList.update p n' (if_fs s))" "\<not> is_dirn n'" "nd_data n' = d"
    by auto
  with st show ?thesis
    by (cases n') (auto simp: stamp_commit_def stamp_def drop_cached_def file_bytes_def)
qed

text \<open>
  Committing staged contents does not drop the negative entry of the path: a file that was
  missing when it was last looked up exists after the commit, and the mount still reports it as
  missing until the entry expires.
\<close>

theorem commit_leaves_negative_entry:
  assumes "no_fault E" and "cow_inv hash P (if_cow s) (if_world s)" and "abs_under (if_backing s) rel \<in> P"
    and "live (oe_now E) (if_neg_dentry s) rel" and "commit_rel_for_agent E agent rel s = (Inr u, s')"
  shows "(\<exists>d. file_bytes (if_fs s') (abs_under (if_backing s) rel) = Some d) \<and> fst (exists_rel E rel s') = Inr False"
proof -
  let ?p = "abs_under (if_backing s) rel"
  have env: "cow_env_ok E" using assms(1) by (simp add: no_fault_def cow_env_ok_def)
  obtain r cow w where c: "ac_commit_pending E agent ?p (if_cow s) (if_world s) = (r, cow, w)"
    by (cases "ac_commit_pending E agent ?p (if_cow s) (if_world s)")
  let ?s1 = "s\<lparr>if_cow := cow, if_world := w\<rparr>"
  from assms(5) c have r: "r = Inr ()" and st: "stamp_commit E ?p ?s1 = (Inr u, s')"
    by (cases r; simp add: commit_rel_for_agent_def on_overlay_def)+
  obtain d where "file_bytes (if_fs ?s1) ?p = Some d"
    using commit_makes_file [OF env assms(2,3), of agent "()" cow w] c r by auto
  from stamp_commit_effect [OF assms(1) st this] have f: "file_bytes (if_fs s') ?p = Some d"
    "if_neg_dentry s' = if_neg_dentry s" by simp_all
  then have "fst (is_negative (oe_now E) rel (if_neg_dentry s'))" using assms(4) by (simp add: live_def)
  then have "fst (exists_rel E rel s') = Inr False"
    by (auto simp: exists_rel_def probe_neg_def Let_def split: prod.splits)
  with f show ?thesis by blast
qed

theorem commit_leaves_negative_entry_witness:
  "let s1 = remember_missing demo_env [NormalC ''g''] demo_mount;
       (r2, s2) = stage_rel_for_agent demo_env (\<lambda>_. 7) None [NormalC ''g''] [7] s1;
       (r3, s3) = commit_rel_for_agent demo_env None [NormalC ''g''] s2
   in r2 = Inr () \<and> r3 = Inr () \<and> file_bytes (if_fs s3) [RootDir, NormalC ''w'', NormalC ''g''] \<noteq> None
      \<and> fst (exists_rel demo_env [NormalC ''g''] s3) = Inr False"
proof -
  let ?g = "[NormalC ''g'']" and ?p = "[RootDir, NormalC ''w'', NormalC ''g'']" and ?h = "\<lambda>_ :: path. 7 :: u64"
  define s1 where "s1 = remember_missing demo_env ?g demo_mount"
  have s1: "if_cow s1 = if_cow demo_mount" "if_world s1 = if_world demo_mount" "if_backing s1 = [RootDir, NormalC ''w'']"
    "if_session_id s1 = ''default''" by (simp_all add: s1_def remember_missing_def demo_mount_eq)
  have p: "abs_under [RootDir, NormalC ''w''] ?g = ?p" by (simp add: abs_under_def comp_join_def is_absolute_def)
  have inv: "cow_inv ?h {?p} (if_cow s1) (if_world s1)"
    using demo_mount_inv
    by (simp add: s1 cow_inv_def mount_inv_def) (simp add: demo_mount_eq apart_def starts_with_def)
  have rd: "ready ?h (ac_root (if_cow s1)) (agent_key (if_cow s1) None) ?p (cw_fs (if_world s1))"
    by (simp add: s1 ready_def demo_mount_eq slot_def demo_fs_def demo_path_def)
  obtain r2 cow2 w2 where st: "ac_stage_bytes demo_env ?h None ?p [7] (if_cow s1) (if_world s1) = (r2, cow2, w2)"
    by (cases "ac_stage_bytes demo_env ?h None ?p [7] (if_cow s1) (if_world s1)")
  obtain r3 cow3 w3 where co: "ac_commit_pending demo_env None ?p cow2 w2 = (r3, cow3, w3)"
    by (cases "ac_commit_pending demo_env None ?p cow2 w2")
  have ok: "r2 = Inr ()" "r3 = Inr ()" using stage_commit_ok [OF demo_ok(2) inv _ rd st co] by simp_all
  define s2 where "s2 = s1\<lparr>if_cow := cow2, if_world := w2\<rparr>"
  have stage: "stage_rel_for_agent demo_env ?h None ?g [7] s1 = (Inr (), s2)"
    using st ok by (simp add: stage_rel_for_agent_def on_overlay_def s1 p s2_def)
  from cow_step_refines [OF demo_ok(3) inv, of "StageOp None ?p [7]" r2 cow2 w2] st ok
  have inv2: "cow_inv ?h {?p} cow2 w2" by simp
  have "\<exists>d. file_bytes (cw_fs w3) ?p = Some d"
    using commit_makes_file [OF demo_ok(3) inv2] co ok by simp
  then obtain d mode t xs where n: "map_of (cw_fs w3) ?p = Some (FileN d mode t xs)" by (auto simp: file_bytes_Some)
  obtain s3 where com: "commit_rel_for_agent demo_env None ?g s2 = (Inr (), s3)"
    using annotate_ok [OF demo_ok(2), of "''default''" "cw_fs w3" ?p, OF _ n] co ok
    by (auto simp: commit_rel_for_agent_def on_overlay_def s2_def s1 p stamp_commit_def stamp_def Let_def)
  have neg: "live (oe_now demo_env) (if_neg_dentry s2) ?g"
    by (simp add: s2_def s1_def remember_missing_def demo_mount_eq neg_with_ttl_def DEFAULT_NEG_TTL_def time_defs)
  have "if_cow s2 = cow2" "if_world s2 = w2" "if_backing s2 = [RootDir, NormalC ''w'']" by (simp_all add: s2_def s1)
  with commit_leaves_negative_entry [OF demo_ok(2), of ?h "{?p}" s2 ?g None "()" s3] inv2 neg com p
  have "file_bytes (if_fs s3) ?p \<noteq> None \<and> fst (exists_rel demo_env ?g s3) = Inr False" by auto
  with stage com show ?thesis by (simp add: s1_def [symmetric])
qed

end
