(* ===== verification/AgentDetect.thy ===== *)
theory AgentDetect
  imports Prelude
begin

text \<open>
  Detection of coding agents among the processes of the host
  (\<open>crates/sharecli-fleet/src/detect.rs\<close> and \<open>proc_scan.rs\<close>): name and command line patterns,
  the runtime patterns of a TOML file, the walk up the parent chain, the forests of agent
  processes and the reading of \<open>/proc\<close>. The TOML parser is a parameter; the process table and
  the files under \<open>/proc\<close> are arguments.
\<close>

section \<open>Patterns\<close>

definition KNOWN_AGENT_FAMILIES :: "string list" where
  "KNOWN_AGENT_FAMILIES =
     [''claude'', ''codex'', ''gemini'', ''cursor-agent'', ''aider'', ''amp'', ''goose'', ''forge'',
      ''jcode'', ''opencode'']"

definition AMBIGUOUS_FAMILIES :: "string list" where
  "AMBIGUOUS_FAMILIES = [''forge'', ''goose'', ''gemini'', ''cargo'']"

definition CMDLINE_FINGERPRINTS :: "(string \<times> string list) list" where
  "CMDLINE_FINGERPRINTS =
     [(''claude'', [''claude'', ''claude-code'', ''.claude'']),
      (''codex'', [''openai-codex'', ''@openai/codex'', ''codex-cli'', ''/bin/codex'']),
      (''gemini'', [''gemini'', ''gemini-cli'', ''google-gemini'']),
      (''cursor-agent'', [''cursor-agent'', ''.cursor'', ''cursor agent'', ''@cursor/agent'']),
      (''aider'', [''aider'', ''aider-chat'', ''.aider'']),
      (''amp'', [''amp'', ''amp-code'', ''sourcegraph/amp'', ''@sourcegraph/amp'', ''.amp'']),
      (''goose'', [''goose'', ''block-goose'', ''goose-agent'']),
      (''forge'', [''forge'', ''.forge'', ''forge conversation'']),
      (''jcode'', [''jcode'', ''.jcode'', ''jcode-cli'']),
      (''opencode'', [''opencode'', ''.opencode'', ''opencode-cli''])]"

record runtime_pattern =
  rp_family :: string
  rp_comm_names :: "string list"
  rp_cmdline_markers :: "string list"
  rp_ambiguous :: bool

record runtime_system_tool =
  rs_name :: string
  rs_comm_names :: "string list"
  rs_cmdline_markers :: "string list"
  rs_ambiguous :: bool

text \<open>The tables of the TOML file; the entries carry the fields of the runtime types.\<close>

record agent_patterns_file =
  pf_agents :: "runtime_pattern list"
  pf_system_tools :: "runtime_system_tool list"

text \<open>The thread-local state.\<close>

record pattern_state =
  pt_runtime :: "runtime_pattern list"
  pt_tools :: "runtime_system_tool list"
  pt_loaded :: bool

definition patterns_init :: pattern_state where
  "patterns_init = \<lparr>pt_runtime = [], pt_tools = [], pt_loaded = False\<rparr>"

definition default_patterns_path :: "string option \<Rightarrow> string" where
  "default_patterns_path config_dir =
     (case config_dir of None \<Rightarrow> ''.'' | Some d \<Rightarrow> d) @ ''/sharecli/agent_patterns.toml''"

definition load_runtime_patterns ::
  "(string \<Rightarrow> string option) \<Rightarrow> (string \<Rightarrow> agent_patterns_file option) \<Rightarrow> string \<Rightarrow> pattern_state \<Rightarrow> pattern_state" where
  "load_runtime_patterns read_to_string from_str path st =
     (if pt_loaded st then st
      else let st = st\<lparr>pt_loaded := True\<rparr>
           in case read_to_string path of
                None \<Rightarrow> st
              | Some contents \<Rightarrow>
                  (case from_str contents of
                     None \<Rightarrow> st
                   | Some f \<Rightarrow> st\<lparr>pt_runtime := pf_agents f, pt_tools := pf_system_tools f\<rparr>))"

definition load_patterns ::
  "(string \<Rightarrow> string option) \<Rightarrow> (string \<Rightarrow> agent_patterns_file option) \<Rightarrow> string option \<Rightarrow> string option
     \<Rightarrow> pattern_state \<Rightarrow> pattern_state" where
  "load_patterns read_to_string from_str config_dir override_path st =
     (case override_path of
        Some p \<Rightarrow> load_runtime_patterns read_to_string from_str p st
      | None \<Rightarrow> load_runtime_patterns read_to_string from_str (default_patterns_path config_dir) st)"

definition clear_runtime_patterns :: "pattern_state \<Rightarrow> pattern_state" where
  "clear_runtime_patterns st = st\<lparr>pt_runtime := [], pt_tools := [], pt_loaded := False\<rparr>"

section \<open>Matching\<close>

definition runtime_cmdline_has_marker :: "string list \<Rightarrow> string list \<Rightarrow> bool" where
  "runtime_cmdline_has_marker cmdline markers \<longleftrightarrow>
     list_ex (\<lambda>arg. let t = to_ascii_lowercase arg in list_ex (str_contains t) markers) cmdline"

definition cmdline_has_fingerprint :: "string \<Rightarrow> string list \<Rightarrow> bool" where
  "cmdline_has_fingerprint family cmdline =
     (case map_of CMDLINE_FINGERPRINTS family of
        None \<Rightarrow> False
      | Some markers \<Rightarrow>
          list_ex (\<lambda>arg. let t = to_ascii_lowercase arg in list_ex (str_contains t) markers) cmdline)"

definition is_exact_comm_basename :: "string \<Rightarrow> string \<Rightarrow> bool" where
  "is_exact_comm_basename comm family \<longleftrightarrow> comm = family"

fun runtime_token :: "runtime_pattern list \<Rightarrow> string \<Rightarrow> string option" where
  "runtime_token [] token = None"
| "runtime_token (pat # pats) token =
     (if rp_family pat = token \<or> list_ex (\<lambda>name. token = name) (rp_comm_names pat)
      then Some (rp_family pat) else runtime_token pats token)"

definition match_token :: "runtime_pattern list \<Rightarrow> string \<Rightarrow> string option" where
  "match_token pats token =
     (if token = ''claude'' \<or> starts_with token ''claude-'' \<or> str_contains token ''claude-code''
      then Some ''claude''
      else if token = ''codex'' \<or> token = ''openai-codex'' then Some ''codex''
      else if token = ''gemini'' \<or> starts_with token ''gemini-'' then Some ''gemini''
      else if token = ''cursor-agent'' \<or> token = ''cursor-agent.exe'' then Some ''cursor-agent''
      else if token = ''aider'' then Some ''aider''
      else if token = ''amp'' \<or> token = ''amp-cli'' then Some ''amp''
      else if token = ''goose'' \<or> starts_with token ''goose-'' then Some ''goose''
      else if token = ''forge'' \<or> starts_with token ''forge-'' then Some ''forge''
      else if token = ''jcode'' \<or> starts_with token ''jcode-'' \<or> token = ''.jcode'' then Some ''jcode''
      else if token = ''opencode'' \<or> starts_with token ''opencode-'' \<or> token = ''.opencode''
      then Some ''opencode''
      else runtime_token pats token)"

fun runtime_allowed :: "runtime_pattern list \<Rightarrow> string \<Rightarrow> string list \<Rightarrow> bool \<Rightarrow> bool option" where
  "runtime_allowed [] family cmdline exact_comm = None"
| "runtime_allowed (pat # pats) family cmdline exact_comm =
     (if rp_family pat = family \<and> rp_ambiguous pat
      then if exact_comm \<and> cmdline = [] then Some True
           else Some (runtime_cmdline_has_marker cmdline (rp_cmdline_markers pat))
      else runtime_allowed pats family cmdline exact_comm)"

definition family_allowed :: "runtime_pattern list \<Rightarrow> string \<Rightarrow> string list \<Rightarrow> bool \<Rightarrow> bool" where
  "family_allowed pats family cmdline exact_comm =
     (if family \<in> set AMBIGUOUS_FAMILIES
      then if exact_comm \<and> cmdline = [] then True else cmdline_has_fingerprint family cmdline
      else case runtime_allowed pats family cmdline exact_comm of None \<Rightarrow> True | Some b \<Rightarrow> b)"

fun runtime_fingerprint :: "runtime_pattern list \<Rightarrow> string list \<Rightarrow> string option" where
  "runtime_fingerprint [] cmdline = None"
| "runtime_fingerprint (pat # pats) cmdline =
     (if rp_ambiguous pat \<and> runtime_cmdline_has_marker cmdline (rp_cmdline_markers pat)
      then Some (rp_family pat) else runtime_fingerprint pats cmdline)"

definition match_fingerprint_only :: "runtime_pattern list \<Rightarrow> string list \<Rightarrow> string option" where
  "match_fingerprint_only pats cmdline =
     (case find (\<lambda>family. cmdline_has_fingerprint family cmdline) (map fst CMDLINE_FINGERPRINTS) of
        Some family \<Rightarrow> Some family
      | None \<Rightarrow> runtime_fingerprint pats cmdline)"

text \<open>A token counts when the pattern of its family allows it.\<close>

definition token_match :: "runtime_pattern list \<Rightarrow> string list \<Rightarrow> string \<Rightarrow> string option" where
  "token_match pats cmdline t =
     (case match_token pats t of
        None \<Rightarrow> None
      | Some family \<Rightarrow> if family_allowed pats family cmdline False then Some family else None)"

fun match_args :: "runtime_pattern list \<Rightarrow> string list \<Rightarrow> string list \<Rightarrow> string option" where
  "match_args pats cmdline [] = None"
| "match_args pats cmdline (arg # args) =
     (let t = to_ascii_lowercase arg;
          base = last (split_on CHR ''/'' t);
          base = last (split_on (CHR 0x5C) base)
      in case token_match pats cmdline base of
           Some family \<Rightarrow> Some family
         | None \<Rightarrow>
             (case token_match pats cmdline t of
                Some family \<Rightarrow> Some family
              | None \<Rightarrow> match_args pats cmdline args))"

definition match_known_agent :: "runtime_pattern list \<Rightarrow> string \<Rightarrow> string list \<Rightarrow> string option" where
  "match_known_agent pats comm cmdline =
     (let comm_l = to_ascii_lowercase comm;
          rest = (case match_args pats cmdline cmdline of
                    Some family \<Rightarrow> Some family
                  | None \<Rightarrow> match_fingerprint_only pats cmdline)
      in case match_token pats comm_l of
           None \<Rightarrow> rest
         | Some family \<Rightarrow>
             if family_allowed pats family cmdline (is_exact_comm_basename comm_l family)
             then Some family else rest)"

fun match_system_tool :: "runtime_system_tool list \<Rightarrow> string \<Rightarrow> string list \<Rightarrow> string option" where
  "match_system_tool [] comm cmdline = None"
| "match_system_tool (pat # pats) comm cmdline =
     (if list_ex (\<lambda>name. to_ascii_lowercase comm = name) (rs_comm_names pat)
      then if rs_ambiguous pat
           then if runtime_cmdline_has_marker cmdline (rs_cmdline_markers pat) then Some (rs_name pat)
                else if cmdline = [] then Some (rs_name pat)
                else match_system_tool pats comm cmdline
           else Some (rs_name pat)
      else if runtime_cmdline_has_marker cmdline (rs_cmdline_markers pat) then Some (rs_name pat)
      else match_system_tool pats comm cmdline)"

section \<open>The process table\<close>

record proc_snapshot =
  ps_pid :: u32
  ps_ppid :: u32
  ps_comm :: string
  ps_cmdline :: "string list"
  ps_state :: char

datatype process_status =
    Run | Sleep | UninterruptibleDiskSleep | Stop | Zombie | Tracing | Dead | Wakekill | Waking
  | Parked | Idle | LockBlocked | Suspended | UnknownStatus u32

fun sysinfo_status_to_char :: "process_status \<Rightarrow> char" where
  "sysinfo_status_to_char Run = CHR ''R''"
| "sysinfo_status_to_char Sleep = CHR ''S''"
| "sysinfo_status_to_char UninterruptibleDiskSleep = CHR ''D''"
| "sysinfo_status_to_char Stop = CHR ''T''"
| "sysinfo_status_to_char Zombie = CHR ''Z''"
| "sysinfo_status_to_char Tracing = CHR ''t''"
| "sysinfo_status_to_char Dead = CHR ''X''"
| "sysinfo_status_to_char Wakekill = CHR ''K''"
| "sysinfo_status_to_char Waking = CHR ''W''"
| "sysinfo_status_to_char Parked = CHR ''P''"
| "sysinfo_status_to_char Idle = CHR ''I''"
| "sysinfo_status_to_char LockBlocked = CHR 0x3F"
| "sysinfo_status_to_char Suspended = CHR 0x3F"
| "sysinfo_status_to_char (UnknownStatus _) = CHR 0x3F"

record detected_agent =
  da_pid :: u32
  da_family :: string
  da_comm :: string

record system_tool_scan =
  tl_pid :: u32
  tl_tool :: string
  tl_comm :: string

datatype agent_tree_node =
  AgentTreeNode (tn_pid: u32) (tn_ppid: u32) (tn_comm: string) (tn_family: "string option")
    (tn_children: "agent_tree_node list")

abbreviation proc_agent :: "runtime_pattern list \<Rightarrow> proc_snapshot \<Rightarrow> string option" where
  "proc_agent pats p \<equiv> match_known_agent pats (ps_comm p) (ps_cmdline p)"

definition scan_agents :: "runtime_pattern list \<Rightarrow> proc_snapshot list \<Rightarrow> detected_agent list" where
  "scan_agents pats procs =
     sort_key da_pid
       (List.map_filter (\<lambda>p. map_option (\<lambda>family. \<lparr>da_pid = ps_pid p, da_family = family, da_comm = ps_comm p\<rparr>)
                          (proc_agent pats p)) procs)"

definition scan_system_tools :: "runtime_system_tool list \<Rightarrow> proc_snapshot list \<Rightarrow> system_tool_scan list" where
  "scan_system_tools pats procs =
     sort_key tl_pid
       (List.map_filter (\<lambda>p. map_option (\<lambda>tool. \<lparr>tl_pid = ps_pid p, tl_tool = tool, tl_comm = ps_comm p\<rparr>)
                          (match_system_tool pats (ps_comm p) (ps_cmdline p))) procs)"

text \<open>The table by process id; of two rows with one id the later one counts.\<close>

definition by_pid :: "proc_snapshot list \<Rightarrow> (u32 \<times> proc_snapshot) list" where
  "by_pid procs = foldl (\<lambda>m p. AList.update (ps_pid p) p m) [] procs"

text \<open>The walk up the parents, with the set of ids seen.\<close>

function walk_loop ::
  "runtime_pattern list \<Rightarrow> (u32 \<times> proc_snapshot) list \<Rightarrow> u32 set \<Rightarrow> u32 \<Rightarrow> detected_agent option" where
  "walk_loop pats m seen cur =
     (if cur \<in> seen then None
      else case map_of m cur of
        None \<Rightarrow> None
      | Some p \<Rightarrow>
          (case proc_agent pats p of
             Some family \<Rightarrow> Some \<lparr>da_pid = ps_pid p, da_family = family, da_comm = ps_comm p\<rparr>
           | None \<Rightarrow>
               if ps_ppid p = 0 \<or> ps_ppid p = ps_pid p then None
               else walk_loop pats m (insert cur seen) (ps_ppid p)))"
  by pat_completeness auto

lemma walk_measure:
  assumes "cur \<notin> seen" and "map_of m cur = Some p"
  shows "card (fst ` set m - insert cur seen) < card (fst ` set m - seen)"
proof (rule psubset_card_mono)
  have "cur \<in> fst ` set m" using assms(2) by (simp add: map_of_eq_Some_iff rev_image_eqI [OF map_of_SomeD])
  with assms(1) show "fst ` set m - insert cur seen \<subset> fst ` set m - seen" by blast
qed simp

termination walk_loop
  by (relation "measure (\<lambda>(pats, m, seen, cur). card (fst ` set m - seen))") (auto intro: walk_measure)

declare walk_loop.simps [simp del]

definition walk_agent_ancestors :: "runtime_pattern list \<Rightarrow> proc_snapshot list \<Rightarrow> u32 \<Rightarrow> detected_agent option" where
  "walk_agent_ancestors pats procs pid = walk_loop pats (by_pid procs) {} pid"

definition is_under_agent :: "runtime_pattern list \<Rightarrow> proc_snapshot list \<Rightarrow> u32 \<Rightarrow> bool" where
  "is_under_agent pats procs pid \<longleftrightarrow> walk_agent_ancestors pats procs pid \<noteq> None"

definition agent_label_for_pid :: "runtime_pattern list \<Rightarrow> proc_snapshot list \<Rightarrow> u32 \<Rightarrow> string" where
  "agent_label_for_pid pats procs pid =
     (case walk_agent_ancestors pats procs pid of None \<Rightarrow> ''-'' | Some a \<Rightarrow> da_family a)"

text \<open>The agent above this process.\<close>

definition detect_caller_agent :: "runtime_pattern list \<Rightarrow> proc_snapshot list \<Rightarrow> u32 \<Rightarrow> detected_agent option" where
  "detect_caller_agent pats procs self = walk_agent_ancestors pats procs self"

definition lookup_proc :: "proc_snapshot list \<Rightarrow> u32 \<Rightarrow> proc_snapshot option" where
  "lookup_proc procs pid = find (\<lambda>p. ps_pid p = pid) procs"

section \<open>Forests\<close>

text \<open>
  The recursion has no guard against cycles of parents; \<open>None\<close> stands for a stack that is
  exhausted at the given depth.
\<close>

fun build_agent_subtree ::
  "nat \<Rightarrow> runtime_pattern list \<Rightarrow> (u32 \<times> proc_snapshot) list \<Rightarrow> u32 set \<Rightarrow> u32 \<Rightarrow> agent_tree_node option option" where
  "build_agent_subtree 0 pats m agent_pids pid = None"
| "build_agent_subtree (Suc depth) pats m agent_pids pid =
     (case map_of m pid of
        None \<Rightarrow> Some None
      | Some p \<Rightarrow>
          (let family = (if pid \<in> agent_pids then proc_agent pats p else None);
               child_pids = sort (map ps_pid (filter (\<lambda>c. ps_ppid c = pid) (map snd m)))
           in map_option (\<lambda>ts. Some (AgentTreeNode pid (ps_ppid p) (ps_comm p) family (List.map_filter id ts)))
                (those (map (build_agent_subtree depth pats m agent_pids) child_pids))))"

definition root_pids :: "runtime_pattern list \<Rightarrow> proc_snapshot list \<Rightarrow> u32 list" where
  "root_pids pats procs =
     (let m = by_pid procs; agents = map da_pid (scan_agents pats procs)
      in sort (filter (\<lambda>a. (case map_of m a of None \<Rightarrow> 0 | Some p \<Rightarrow> ps_ppid p) \<notin> set agents) agents))"

definition build_agent_forests ::
  "nat \<Rightarrow> runtime_pattern list \<Rightarrow> proc_snapshot list \<Rightarrow> agent_tree_node list option" where
  "build_agent_forests depth pats procs =
     (let agents = scan_agents pats procs
      in if agents = [] then Some []
         else map_option (List.map_filter id)
           (those (map (build_agent_subtree depth pats (by_pid procs) (set (map da_pid agents)))
                     (root_pids pats procs))))"

fun collect_node :: "agent_tree_node \<Rightarrow> u32 list \<Rightarrow> u32 list" where
  "collect_node (AgentTreeNode pid ppid comm family cs) out = fold collect_node cs (out @ [pid])"

definition collect_forest_pids :: "agent_tree_node list \<Rightarrow> u32 list" where
  "collect_forest_pids forests = fold collect_node forests []"

definition build_agent_state_map :: "proc_snapshot list \<Rightarrow> u32 list \<Rightarrow> u32 \<rightharpoonup> char" where
  "build_agent_state_map procs agent_pids =
     map_of (rev (List.map_filter (\<lambda>pid. map_option (\<lambda>p. (pid, ps_state p)) (lookup_proc procs pid)) agent_pids))"

definition build_forest_state_map :: "proc_snapshot list \<Rightarrow> agent_tree_node list \<Rightarrow> u32 \<rightharpoonup> char" where
  "build_forest_state_map procs forests = build_agent_state_map procs (collect_forest_pids forests)"

definition state_text_for_pid :: "(u32 \<rightharpoonup> char) \<Rightarrow> u32 \<Rightarrow> string" where
  "state_text_for_pid state_by_pid pid =
     (case state_by_pid pid of
        None \<Rightarrow> ''-''
      | Some ch \<Rightarrow> if ch \<noteq> CHR 0x3F then [ch] else ''-'')"

section \<open>Reading \<open>/proc\<close>\<close>

text \<open>
  \<open>String::from_utf8_lossy\<close>: how many bytes the next character takes, and whether they are one;
  what is not is replaced by U+FFFD, one for every maximal start of a character.
\<close>

definition utf8_cont :: "u8 \<Rightarrow> bool" where
  "utf8_cont b \<longleftrightarrow> 0x80 \<le> b \<and> b \<le> 0xBF"

definition utf8_second :: "u8 \<Rightarrow> u8 \<Rightarrow> bool" where
  "utf8_second b x \<longleftrightarrow>
     utf8_cont x \<and> (b = 0xE0 \<longrightarrow> 0xA0 \<le> x) \<and> (b = 0xED \<longrightarrow> x \<le> 0x9F)
     \<and> (b = 0xF0 \<longrightarrow> 0x90 \<le> x) \<and> (b = 0xF4 \<longrightarrow> x \<le> 0x8F)"

definition utf8_width :: "u8 \<Rightarrow> nat" where
  "utf8_width b =
     (if b \<le> 0x7F then 1 else if b < 0xC2 then 0 else if b \<le> 0xDF then 2
      else if b \<le> 0xEF then 3 else if b \<le> 0xF4 then 4 else 0)"

text \<open>How many of the bytes after the first continue its character, up to the given number.\<close>

fun utf8_run :: "nat \<Rightarrow> u8 list \<Rightarrow> nat" where
  "utf8_run 0 bs = 0"
| "utf8_run (Suc n) [] = 0"
| "utf8_run (Suc n) (b # bs) = (if utf8_cont b then Suc (utf8_run n bs) else 0)"

definition utf8_take :: "u8 \<Rightarrow> u8 list \<Rightarrow> bool \<times> nat" where
  "utf8_take b bs =
     (let w = utf8_width b;
          n = (case bs of [] \<Rightarrow> 0 | x # xs \<Rightarrow> if utf8_second b x then utf8_run (w - 1) bs else 0)
      in (w \<noteq> 0 \<and> Suc n = w, Suc n))"

definition byte_char :: "u8 \<Rightarrow> char" where
  "byte_char b = char_of (unat b)"

definition replacement :: string where
  "replacement = [CHR 0xEF, CHR 0xBF, CHR 0xBD]"

function from_utf8_lossy :: "u8 list \<Rightarrow> string" where
  "from_utf8_lossy [] = []"
| "from_utf8_lossy (b # bs) =
     (let (ok, n) = utf8_take b bs
      in (if ok then map byte_char (take n (b # bs)) else replacement) @ from_utf8_lossy (drop (n - 1) bs))"
  by pat_completeness auto

termination from_utf8_lossy
  by (relation "measure length") (auto simp: less_Suc_eq_le)

declare from_utf8_lossy.simps(2) [simp del]

definition parse_cmdline :: "u8 list \<Rightarrow> string list" where
  "parse_cmdline raw = map from_utf8_lossy (filter (\<lambda>s. s \<noteq> []) (split_on 0 raw))"

text \<open>The files are given by their contents; none when reading fails.\<close>

definition read_state_from_stat :: "string option \<Rightarrow> char option" where
  "read_state_from_stat stat =
     (case stat of
        None \<Rightarrow> None
      | Some content \<Rightarrow>
          if CHR '')'' \<notin> set content then None
          else (case trim_start (last (split_on (CHR '')'') content)) of [] \<Rightarrow> None | c # _ \<Rightarrow> Some c))"

fun ppid_line :: "string list \<Rightarrow> u32 option" where
  "ppid_line [] = None"
| "ppid_line (line # lines) =
     (if starts_with line ''PPid:''
      then map_option of_nat (parse_uint (2 ^ 32) (str_trim (drop (length ''PPid:'') line)))
      else ppid_line lines)"

definition read_ppid :: "string option \<Rightarrow> u32 option" where
  "read_ppid status = (case status of None \<Rightarrow> None | Some contents \<Rightarrow> ppid_line (str_lines contents))"

text \<open>A directory entry of \<open>/proc\<close> with the files below it; the name is missing when it is not UTF-8.\<close>

record proc_entry =
  pe_name :: "string option"
  pe_comm :: "string option"
  pe_cmdline :: "u8 list option"
  pe_status :: "string option"
  pe_stat :: "string option"

definition proc_row :: "proc_entry \<Rightarrow> proc_snapshot option" where
  "proc_row ent =
     (case pe_name ent of
        None \<Rightarrow> None
      | Some pid_str \<Rightarrow>
          (case parse_uint (2 ^ 32) pid_str of
             None \<Rightarrow> None
           | Some pid \<Rightarrow>
               Some \<lparr>ps_pid = of_nat pid,
                     ps_ppid = (case read_ppid (pe_status ent) of None \<Rightarrow> 0 | Some n \<Rightarrow> n),
                     ps_comm = str_trim (case pe_comm ent of None \<Rightarrow> [] | Some s \<Rightarrow> s),
                     ps_cmdline = parse_cmdline (case pe_cmdline ent of None \<Rightarrow> [] | Some s \<Rightarrow> s),
                     ps_state = (case read_state_from_stat (pe_stat ent) of None \<Rightarrow> CHR 0x3F | Some c \<Rightarrow> c)\<rparr>))"

definition list_linux_proc :: "proc_entry list option \<Rightarrow> proc_snapshot list" where
  "list_linux_proc entries = (case entries of None \<Rightarrow> [] | Some es \<Rightarrow> List.map_filter proc_row es)"

text \<open>The rows of \<open>sysinfo\<close> on other systems: id, parent, name, command line, status.\<close>

definition list_sysinfo_proc ::
  "(u32 \<times> u32 option \<times> u8 list \<times> u8 list list \<times> process_status) list \<Rightarrow> proc_snapshot list" where
  "list_sysinfo_proc processes =
     map (\<lambda>(pid, parent, name, cmd, status).
            \<lparr>ps_pid = pid, ps_ppid = (case parent of None \<Rightarrow> 0 | Some p \<Rightarrow> p),
             ps_comm = from_utf8_lossy name, ps_cmdline = map from_utf8_lossy cmd,
             ps_state = sysinfo_status_to_char status\<rparr>) processes"

section \<open>Matching lemmas\<close>

lemma runtime_token_family: "runtime_token pats t = Some f \<Longrightarrow> f \<in> rp_family ` set pats"
  by (induction pats) (auto split: if_splits)

lemma match_token_family: "match_token pats t = Some f \<Longrightarrow> f \<in> set KNOWN_AGENT_FAMILIES \<union> rp_family ` set pats"
  by (auto simp: match_token_def KNOWN_AGENT_FAMILIES_def dest: runtime_token_family split: if_splits)

lemma runtime_fingerprint_Some:
  "runtime_fingerprint pats cmdline = Some f \<Longrightarrow>
    \<exists>pat \<in> set pats. rp_family pat = f \<and> rp_ambiguous pat \<and> runtime_cmdline_has_marker cmdline (rp_cmdline_markers pat)"
  by (induction pats) (auto split: if_splits)

lemma fingerprint_families: "map fst CMDLINE_FINGERPRINTS = KNOWN_AGENT_FAMILIES"
  by (simp add: CMDLINE_FINGERPRINTS_def KNOWN_AGENT_FAMILIES_def)

lemma match_fingerprint_only_Some:
  assumes "match_fingerprint_only pats cmdline = Some f"
  shows "f \<in> set KNOWN_AGENT_FAMILIES \<and> cmdline_has_fingerprint f cmdline
    \<or> (\<exists>pat \<in> set pats. rp_family pat = f \<and> rp_ambiguous pat
        \<and> runtime_cmdline_has_marker cmdline (rp_cmdline_markers pat))"
  using assms
  by (auto simp: match_fingerprint_only_def fingerprint_families find_Some_iff split: option.splits
      dest: runtime_fingerprint_Some)

lemma token_match_Some:
  "token_match pats cmdline t = Some f \<Longrightarrow>
    f \<in> set KNOWN_AGENT_FAMILIES \<union> rp_family ` set pats \<and> family_allowed pats f cmdline False"
  by (auto simp: token_match_def split: option.splits if_splits dest: match_token_family)

lemma match_args_Some:
  "match_args pats cmdline args = Some f \<Longrightarrow>
    f \<in> set KNOWN_AGENT_FAMILIES \<union> rp_family ` set pats \<and> family_allowed pats f cmdline False"
  by (induction args) (auto simp: Let_def split: option.splits dest: token_match_Some)

lemma family_allowed_ambiguous:
  "family_allowed pats f cmdline e \<Longrightarrow> f \<in> set AMBIGUOUS_FAMILIES \<Longrightarrow>
    cmdline_has_fingerprint f cmdline \<or> e \<and> cmdline = []"
  by (auto simp: family_allowed_def split: if_splits)

lemma match_known_agent_cases:
  assumes "match_known_agent pats comm cmdline = Some f"
  obtains (comm) "match_token pats (to_ascii_lowercase comm) = Some f"
      "family_allowed pats f cmdline (to_ascii_lowercase comm = f)"
    | (arg) "match_args pats cmdline cmdline = Some f"
    | (fingerprint) "match_fingerprint_only pats cmdline = Some f"
  using assms
  by (auto simp: match_known_agent_def Let_def is_exact_comm_basename_def split: option.splits if_splits)

lemma runtime_allowed_None:
  "\<forall>pat \<in> set pats. rp_family pat = f \<longrightarrow> \<not> rp_ambiguous pat \<Longrightarrow> runtime_allowed pats f cmdline e = None"
  by (induction pats) auto

lemma match_token_known:
  "f \<in> set KNOWN_AGENT_FAMILIES \<Longrightarrow> match_token pats f = Some f"
  unfolding KNOWN_AGENT_FAMILIES_def list.set insert_iff empty_iff
  by (elim disjE FalseE; simp only: match_token_def; simp add: starts_with_def)

text \<open>A family whose markers occur in an argument is found.\<close>

lemma fingerprint_found:
  assumes "map_of CMDLINE_FINGERPRINTS f = Some ms" and "a \<in> set cmdline" and "k \<in> set ms"
    and "str_contains (to_ascii_lowercase a) k"
  shows "match_known_agent pats comm cmdline \<noteq> None"
proof -
  have f: "f \<in> set KNOWN_AGENT_FAMILIES"
    using map_of_SomeD [OF assms(1)] by (force simp flip: fingerprint_families)
  have "cmdline_has_fingerprint f cmdline"
    using assms by (auto simp: cmdline_has_fingerprint_def Let_def list_ex_iff)
  with f have "match_fingerprint_only pats cmdline \<noteq> None"
    by (auto simp: match_fingerprint_only_def fingerprint_families find_None_iff split: option.splits)
  then show ?thesis
    by (auto simp: match_known_agent_def Let_def split: option.splits)
qed

section \<open>Command lines\<close>

text \<open>Byte strings that are UTF-8.\<close>

function utf8_valid :: "u8 list \<Rightarrow> bool" where
  "utf8_valid [] = True"
| "utf8_valid (b # bs) = (let (ok, n) = utf8_take b bs in ok \<and> utf8_valid (drop (n - 1) bs))"
  by pat_completeness auto

termination utf8_valid
  by (relation "measure length") (simp_all add: less_Suc_eq_le)

declare utf8_valid.simps(2) [simp del]

lemma from_utf8_lossy_valid: "utf8_valid bs \<Longrightarrow> from_utf8_lossy bs = map byte_char bs"
proof (induction bs rule: utf8_valid.induct)
  case (2 b bs)
  obtain ok n where t: "utf8_take b bs = (ok, n)" by fastforce
  then obtain k where k: "n = Suc k" by (auto simp: utf8_take_def Let_def)
  from 2 t have "ok" "from_utf8_lossy (drop k bs) = map byte_char (drop k bs)"
    by (auto simp: utf8_valid.simps(2) k)
  with t show ?case
    by (simp add: from_utf8_lossy.simps(2) k) (metis append_take_drop_id map_append)
qed simp

definition raw_cmdline :: "u8 list list \<Rightarrow> u8 list" where
  "raw_cmdline args = concat (map (\<lambda>a. a @ [0]) args)"

lemma split_raw_cmdline:
  "\<forall>a \<in> set args. 0 \<notin> set a \<Longrightarrow> split_on 0 (raw_cmdline args) = args @ [[]]"
  by (induction args) (simp_all add: raw_cmdline_def split_on_append)

section \<open>The parent walk\<close>

text \<open>The nearest agent on the chain of parents and the number of steps to it, as a relation.\<close>

inductive nearest :: "runtime_pattern list \<Rightarrow> (u32 \<times> proc_snapshot) list \<Rightarrow> nat \<Rightarrow> u32 \<Rightarrow> detected_agent \<Rightarrow> bool"
  for pats m where
  here: "map_of m cur = Some p \<Longrightarrow> proc_agent pats p = Some f \<Longrightarrow>
    nearest pats m 0 cur \<lparr>da_pid = ps_pid p, da_family = f, da_comm = ps_comm p\<rparr>"
| up: "map_of m cur = Some p \<Longrightarrow> proc_agent pats p = None \<Longrightarrow> ps_ppid p \<noteq> 0 \<Longrightarrow> ps_ppid p \<noteq> ps_pid p \<Longrightarrow>
    nearest pats m n (ps_ppid p) a \<Longrightarrow> nearest pats m (Suc n) cur a"

inductive_cases nearestE: "nearest pats m n cur a"

lemma nearest_det: "nearest pats m n cur a \<Longrightarrow> nearest pats m k cur b \<Longrightarrow> n = k \<and> a = b"
proof (induction arbitrary: k b rule: nearest.induct)
  case (here cur p f)
  from here.prems here.hyps show ?case by (cases rule: nearest.cases) simp_all
next
  case (up cur p n a)
  from up.prems show ?case
  proof (cases rule: nearest.cases)
    case (up q j)
    with up.hyps(1) show ?thesis using up.IH by auto
  qed (use up.hyps in simp)
qed

lemma walk_sound: "walk_loop pats m seen cur = Some a \<Longrightarrow> \<exists>n. nearest pats m n cur a"
proof (induction pats m seen cur rule: walk_loop.induct)
  case (1 pats m seen cur)
  then show ?case
    by (auto simp: walk_loop.simps [of pats m seen cur] split: if_splits option.splits intro: nearest.intros)
qed

text \<open>The ids on the way have different distances to the agent, so the guard against repetition cuts nothing off.\<close>

lemma walk_complete:
  "nearest pats m n cur a \<Longrightarrow> \<forall>x \<in> seen. \<forall>k b. nearest pats m k x b \<longrightarrow> n < k \<Longrightarrow>
    walk_loop pats m seen cur = Some a"
proof (induction arbitrary: seen rule: nearest.induct)
  case (here cur p f)
  then have "cur \<notin> seen" using nearest.here [of m cur p pats f] by blast
  with here show ?case by (simp add: walk_loop.simps)
next
  case (up cur p n a)
  note n = nearest.up [OF up.hyps]
  then have "cur \<notin> seen" using up.prems by blast
  moreover have "\<forall>x \<in> insert cur seen. \<forall>k b. nearest pats m k x b \<longrightarrow> n < k"
    using up.prems nearest_det [OF n] by (metis Suc_lessD insert_iff lessI)
  ultimately show ?case
    using up by (simp add: walk_loop.simps [of pats m seen cur])
qed

lemma walk_iff: "walk_agent_ancestors pats procs pid = Some a \<longleftrightarrow> (\<exists>n. nearest pats (by_pid procs) n pid a)"
  unfolding walk_agent_ancestors_def by (auto dest: walk_sound intro: walk_complete)

section \<open>Forests\<close>

text \<open>
  A process table without repeated ids, without the id 0, and in which a process is deeper than
  its parent.
\<close>

definition table_ok :: "(u32 \<Rightarrow> nat) \<Rightarrow> proc_snapshot list \<Rightarrow> bool" where
  "table_ok depth procs \<longleftrightarrow>
     distinct (map ps_pid procs) \<and> 0 \<notin> ps_pid ` set procs
     \<and> (\<forall>p \<in> set procs. \<forall>q \<in> set procs. ps_ppid q = ps_pid p \<longrightarrow> depth (ps_pid p) < depth (ps_pid q))"

text \<open>\<open>above procs a q\<close>: \<open>a\<close> is \<open>q\<close> or one of its ancestors.\<close>

inductive above :: "proc_snapshot list \<Rightarrow> u32 \<Rightarrow> u32 \<Rightarrow> bool" for procs where
  self: "p \<in> set procs \<Longrightarrow> above procs (ps_pid p) (ps_pid p)"
| parent: "q \<in> set procs \<Longrightarrow> above procs a (ps_ppid q) \<Longrightarrow> above procs a (ps_pid q)"

lemma by_pid_distinct: "distinct (map ps_pid procs) \<Longrightarrow> by_pid procs = map (\<lambda>p. (ps_pid p, p)) procs"
proof (induction procs rule: rev_induct)
  case (snoc p procs)
  then have "map_of (map (\<lambda>p. (ps_pid p, p)) procs) (ps_pid p) = None"
    by (auto simp: map_of_eq_None_iff)
  with snoc show ?case by (simp add: by_pid_def update_absent)
qed (simp add: by_pid_def)

lemma by_pid_Some:
  assumes "distinct (map ps_pid procs)"
  shows "map_of (by_pid procs) x = Some p \<longleftrightarrow> p \<in> set procs \<and> ps_pid p = x"
proof -
  have "map_of (by_pid procs) x = Some p \<longleftrightarrow> (x, p) \<in> set (map (\<lambda>p. (ps_pid p, p)) procs)"
    using assms by (simp add: by_pid_distinct map_of_eq_Some_iff comp_def)
  then show ?thesis by auto
qed

lemma table_pid_inj: "table_ok depth procs \<Longrightarrow> p \<in> set procs \<Longrightarrow> q \<in> set procs \<Longrightarrow> ps_pid p = ps_pid q \<Longrightarrow> p = q"
  by (auto simp: table_ok_def distinct_map dest: inj_onD)

lemma table_depth:
  "table_ok depth procs \<Longrightarrow> p \<in> set procs \<Longrightarrow> q \<in> set procs \<Longrightarrow> ps_ppid q = ps_pid p \<Longrightarrow> depth (ps_pid p) < depth (ps_pid q)"
  by (simp add: table_ok_def)

lemma above_in: "above procs a q \<Longrightarrow> a \<in> ps_pid ` set procs \<and> q \<in> ps_pid ` set procs"
  by (induction rule: above.induct) auto

lemma above_depth: "above procs a q \<Longrightarrow> table_ok depth procs \<Longrightarrow> depth a \<le> depth q"
proof (induction rule: above.induct)
  case (parent q a)
  then have "ps_ppid q \<in> ps_pid ` set procs" using above_in by blast
  with parent show ?case by (fastforce simp: table_ok_def)
qed simp

lemma above_trans: "above procs b c \<Longrightarrow> above procs a b \<Longrightarrow> above procs a c"
  by (induction rule: above.induct) (auto intro: above.parent)

lemma above_up:
  assumes "above procs a q" and "table_ok depth procs" and "p \<in> set procs" and "ps_pid p = q" and "a \<noteq> q"
  shows "above procs a (ps_ppid p)"
  using assms by (cases rule: above.cases) (auto dest: table_pid_inj)

lemma above_linear:
  "above procs a q \<Longrightarrow> above procs b q \<Longrightarrow> table_ok depth procs \<Longrightarrow> above procs a b \<or> above procs b a"
proof (induction rule: above.induct)
  case (parent q a)
  show ?case
  proof (cases "b = ps_pid q")
    case True
    with parent.hyps show ?thesis by (auto intro: above.parent)
  next
    case False
    with parent show ?thesis using above_up [of procs b "ps_pid q" depth q] by blast
  qed
qed simp

lemma above_children:
  assumes "p \<in> set procs"
  shows "above procs (ps_pid p) q \<longleftrightarrow>
    q = ps_pid p \<or> (\<exists>c \<in> set procs. ps_ppid c = ps_pid p \<and> above procs (ps_pid c) q)" (is "_ \<longleftrightarrow> ?R q")
proof
  assume "above procs (ps_pid p) q"
  then show "?R q"
  proof (induction a \<equiv> "ps_pid p" q rule: above.induct)
    case (parent c)
    then show ?case using above.self above.parent by metis
  qed simp
next
  assume "?R q"
  then show "above procs (ps_pid p) q"
  proof
    assume "q = ps_pid p"
    with assms show ?thesis by (auto intro: above.self)
  next
    assume "\<exists>c \<in> set procs. ps_ppid c = ps_pid p \<and> above procs (ps_pid c) q"
    then obtain c where c: "c \<in> set procs" "ps_ppid c = ps_pid p" "above procs (ps_pid c) q" by blast
    then have "above procs (ps_pid p) (ps_pid c)" using above.self [OF assms] by (auto intro: above.parent)
    with c(3) show ?thesis by (rule above_trans)
  qed
qed

lemma sibling_unique:
  assumes "table_ok depth procs" and "c \<in> set procs" and "d \<in> set procs" and "ps_ppid c = ps_ppid d"
    and "above procs (ps_pid c) q" and "above procs (ps_pid d) q"
  shows "c = d"
proof (rule ccontr)
  assume "c \<noteq> d"
  then have ne: "ps_pid c \<noteq> ps_pid d" using assms table_pid_inj by blast
  have no: False if "x \<in> set procs" "y \<in> set procs" "ps_ppid x = ps_ppid y" "ps_pid x \<noteq> ps_pid y"
    "above procs (ps_pid x) (ps_pid y)" for x y
  proof -
    have up: "above procs (ps_pid x) (ps_ppid y)" using above_up [OF that(5) assms(1) that(2)] that(4) by simp
    then obtain a where "a \<in> set procs" "ps_ppid y = ps_pid a" using above_in by blast
    with that(1,3) assms(1) have "depth (ps_ppid y) < depth (ps_pid x)" by (simp add: table_ok_def)
    with above_depth [OF up assms(1)] show False by simp
  qed
  from above_linear [OF assms(5,6,1)] show False
    using no [OF assms(2,3,4) ne] no [OF assms(3,2) assms(4) [symmetric] ne [symmetric]] by blast
qed

lemma fold_appends:
  "(\<And>t xs. t \<in> set ts \<Longrightarrow> f t xs = xs @ f t []) \<Longrightarrow> fold f ts xs = xs @ concat (map (\<lambda>t. f t []) ts)"
proof (induction ts arbitrary: xs)
  case (Cons t ts)
  have "f t xs = xs @ f t []" by (rule Cons.prems) simp
  moreover have "fold f ts (xs @ f t []) = (xs @ f t []) @ concat (map (\<lambda>t. f t []) ts)"
    by (rule Cons.IH) (rule Cons.prems, simp)
  ultimately show ?case by (simp only: fold_simps list.map concat.simps append_assoc)
qed simp

lemma collect_node_acc: "collect_node t xs = xs @ collect_node t []"
proof (induction t arbitrary: xs)
  case (AgentTreeNode pid ppid comm family cs)
  note f = fold_appends [of cs collect_node, OF AgentTreeNode]
  show ?case using f [of "xs @ [pid]"] f [of "[pid]"] by simp
qed

lemma collect_fold: "fold collect_node ts xs = xs @ concat (map (\<lambda>t. collect_node t []) ts)"
  by (rule fold_appends) (rule collect_node_acc)

lemma count_concat: "count_list (concat xss) q = (\<Sum>xs\<leftarrow>xss. count_list xs q)"
  by (induction xss) (simp_all add: count_list_append)

lemma sum_of_unique:
  assumes "distinct cs" and "\<And>c d. c \<in> set cs \<Longrightarrow> d \<in> set cs \<Longrightarrow> P c \<Longrightarrow> P d \<Longrightarrow> c = d"
  shows "(\<Sum>c\<leftarrow>cs. of_bool (P c)) = (of_bool (\<exists>c \<in> set cs. P c) :: nat)"
  using assms
proof (induction cs)
  case (Cons c cs)
  show ?case
  proof (cases "P c")
    case True
    then have "\<not> P d" if "d \<in> set cs" for d using Cons.prems that by auto
    then have "(\<Sum>c\<leftarrow>cs. of_bool (P c)) = (0 :: nat)" by (induction cs) auto
    with True show ?thesis by simp
  next
    case False
    with Cons show ?thesis by simp
  qed
qed simp

lemma those_map_Some: "(\<And>x. x \<in> set xs \<Longrightarrow> f x = Some (g x)) \<Longrightarrow> those (map f xs) = Some (map g xs)"
  by (induction xs) auto

lemma map_filter_id_Some [simp]: "List.map_filter id (map (\<lambda>x. Some (g x)) xs) = map g xs"
  by (induction xs) (auto simp: List.map_filter_simps)

text \<open>With a stack as deep as the table every subtree is built, and it lists every process below its root once.\<close>

lemma subtree_lists:
  assumes ok: "table_ok depth procs" and D: "\<forall>p \<in> set procs. depth (ps_pid p) \<le> D"
  shows "p \<in> set procs \<Longrightarrow> D - depth (ps_pid p) < n \<Longrightarrow>
    \<exists>t. build_agent_subtree n pats (by_pid procs) A (ps_pid p) = Some (Some t)
      \<and> (\<forall>q. count_list (collect_node t []) q = of_bool (above procs (ps_pid p) q))"
proof (induction n arbitrary: p)
  case (Suc n)
  have dist: "distinct (map ps_pid procs)" using ok by (simp add: table_ok_def)
  let ?cs = "sort (map ps_pid (filter (\<lambda>c. ps_ppid c = ps_pid p) procs))"
  have cs: "set ?cs = ps_pid ` {c \<in> set procs. ps_ppid c = ps_pid p}" by auto
  have "distinct ?cs" using dist by (simp add: distinct_map_filter)
  have "\<exists>t. build_agent_subtree n pats (by_pid procs) A x = Some (Some t)
      \<and> (\<forall>q. count_list (collect_node t []) q = of_bool (above procs x q))" if "x \<in> set ?cs" for x
  proof -
    from that cs obtain c where c: "c \<in> set procs" "ps_ppid c = ps_pid p" "x = ps_pid c" by blast
    then have "depth (ps_pid p) < depth (ps_pid c)" using ok Suc.prems by (simp add: table_ok_def)
    then have "D - depth (ps_pid c) < n" using Suc.prems D c(1) by (metis Suc_le_eq diff_less_mono2 less_Suc_eq_le less_le_trans)
    with Suc.IH [OF c(1)] c(3) show ?thesis by simp
  qed
  then obtain T where T: "\<And>x. x \<in> set ?cs \<Longrightarrow> build_agent_subtree n pats (by_pid procs) A x = Some (Some (T x))"
    "\<And>x q. x \<in> set ?cs \<Longrightarrow> count_list (collect_node (T x) []) q = of_bool (above procs x q)" by metis
  have row: "map_of (by_pid procs) (ps_pid p) = Some p" using by_pid_Some [OF dist] Suc.prems by simp
  have kids: "map ps_pid (filter (\<lambda>c. ps_ppid c = ps_pid p) (map snd (by_pid procs)))
      = map ps_pid (filter (\<lambda>c. ps_ppid c = ps_pid p) procs)"
    by (simp add: by_pid_distinct [OF dist] comp_def)
  let ?t = "AgentTreeNode (ps_pid p) (ps_ppid p) (ps_comm p) (if ps_pid p \<in> A then proc_agent pats p else None) (map T ?cs)"
  have "build_agent_subtree (Suc n) pats (by_pid procs) A (ps_pid p) = Some (Some ?t)"
    using those_map_Some [of ?cs _ "\<lambda>x. Some (T x)", OF T(1)] by (simp add: row kids Let_def)
  moreover have "count_list (collect_node ?t []) q = of_bool (above procs (ps_pid p) q)" for q
  proof -
    have uniq: "x = y" if "x \<in> set ?cs" "y \<in> set ?cs" "above procs x q" "above procs y q" for x y
    proof -
      from that(1,2) cs obtain c d where "c \<in> set procs" "d \<in> set procs" "ps_ppid c = ps_ppid d"
        "x = ps_pid c" "y = ps_pid d" by auto
      with that(3,4) show ?thesis using sibling_unique [OF ok, of c d q] by simp
    qed
    have "(\<Sum>x\<leftarrow>?cs. count_list (collect_node (T x) []) q) = (\<Sum>x\<leftarrow>?cs. of_bool (above procs x q))"
      by (rule arg_cong [where f = sum_list], rule map_cong) (simp_all only: T(2))
    also have "\<dots> = of_bool (\<exists>x \<in> set ?cs. above procs x q)"
      using \<open>distinct ?cs\<close> uniq by (rule sum_of_unique)
    finally have s: "(\<Sum>x\<leftarrow>?cs. count_list (collect_node (T x) []) q) = of_bool (\<exists>x \<in> set ?cs. above procs x q)" .
    have count: "count_list (collect_node ?t []) q =
        of_bool (q = ps_pid p) + (\<Sum>x\<leftarrow>?cs. count_list (collect_node (T x) []) q)"
      by (auto simp: collect_fold count_list_append count_concat comp_def simp del: set_sort)
    have "\<not> above procs x (ps_pid p)" if "x \<in> set ?cs" for x
    proof -
      from that cs obtain c where c: "c \<in> set procs" "ps_ppid c = ps_pid p" "x = ps_pid c" by blast
      then have "depth (ps_pid p) < depth x" using ok Suc.prems by (simp add: table_ok_def)
      then show ?thesis using above_depth [of procs x "ps_pid p", OF _ ok] by linarith
    qed
    moreover have "above procs (ps_pid p) q \<longleftrightarrow> q = ps_pid p \<or> (\<exists>x \<in> set ?cs. above procs x q)"
      using above_children [OF Suc.prems(1), of q] cs by auto
    ultimately show ?thesis
      using s count by auto
  qed
  ultimately show ?case by blast
qed simp

abbreviation agent_pids :: "runtime_pattern list \<Rightarrow> proc_snapshot list \<Rightarrow> u32 set" where
  "agent_pids pats procs \<equiv> ps_pid ` {p \<in> set procs. proc_agent pats p \<noteq> None}"

lemma scan_agents_pids: "set (map da_pid (scan_agents pats procs)) = agent_pids pats procs"
  by (force simp: scan_agents_def List.map_filter_def)

lemma scan_agents_rows:
  "map da_pid (List.map_filter (\<lambda>p. map_option (\<lambda>f. \<lparr>da_pid = ps_pid p, da_family = f, da_comm = ps_comm p\<rparr>)
      (proc_agent pats p)) ps) = map ps_pid (filter (\<lambda>p. proc_agent pats p \<noteq> None) ps)"
  by (induction ps) (auto simp: List.map_filter_simps)

lemma scan_agents_mset:
  "mset (map da_pid (scan_agents pats procs)) = mset (map ps_pid (filter (\<lambda>p. proc_agent pats p \<noteq> None) procs))"
  unfolding scan_agents_def by (simp only: mset_map mset_sort flip: scan_agents_rows)

lemma scan_agents_distinct:
  "distinct (map ps_pid procs) \<Longrightarrow> distinct (map da_pid (scan_agents pats procs))"
  by (simp only: mset_eq_imp_distinct_iff [OF scan_agents_mset] distinct_map_filter)

lemma root_pids_set:
  assumes "table_ok depth procs"
  shows "set (root_pids pats procs) =
      ps_pid ` {p \<in> set procs. proc_agent pats p \<noteq> None \<and> ps_ppid p \<notin> agent_pids pats procs}"
    and "distinct (root_pids pats procs)"
proof -
  have dist: "distinct (map ps_pid procs)" using assms by (simp add: table_ok_def)
  have row: "map_of (by_pid procs) (ps_pid p) = Some p" if "p \<in> set procs" for p
    using that by (simp add: by_pid_Some [OF dist])
  have A: "set (map da_pid (scan_agents pats procs)) = agent_pids pats procs" by (rule scan_agents_pids)
  show "set (root_pids pats procs) =
      ps_pid ` {p \<in> set procs. proc_agent pats p \<noteq> None \<and> ps_ppid p \<notin> agent_pids pats procs}" (is "?L = ?R")
  proof -
    have "?L = {a \<in> agent_pids pats procs.
        (case map_of (by_pid procs) a of None \<Rightarrow> 0 | Some p \<Rightarrow> ps_ppid p) \<notin> agent_pids pats procs}"
      unfolding root_pids_def Let_def set_sort set_filter A ..
    also have "\<dots> = ?R" by (auto simp: row)
    finally show ?thesis .
  qed
  show "distinct (root_pids pats procs)"
    unfolding root_pids_def Let_def using scan_agents_distinct [OF dist] by simp
qed

lemma table_row:
  "table_ok depth procs \<Longrightarrow> map_of (by_pid procs) x = Some p \<longleftrightarrow> p \<in> set procs \<and> ps_pid p = x"
  by (simp add: table_ok_def by_pid_Some)

lemma agent_pidI: "p \<in> set procs \<Longrightarrow> proc_agent pats p = Some f \<Longrightarrow> ps_pid p \<in> agent_pids pats procs"
  by blast

lemma root_agent: "table_ok depth procs \<Longrightarrow> r \<in> set (root_pids pats procs) \<Longrightarrow> r \<in> agent_pids pats procs"
  by (auto simp: root_pids_set(1))

lemma nearest_above:
  assumes ok: "table_ok depth procs"
  shows "nearest pats (by_pid procs) n q d \<Longrightarrow> \<exists>a. a \<in> agent_pids pats procs \<and> above procs a q"
proof (induction rule: nearest.induct)
  case (here cur p f)
  then have "p \<in> set procs" "ps_pid p = cur" using table_row [OF ok] by blast+
  then show ?case using agent_pidI [OF _ here(2)] above.self [of p procs] by blast
next
  case (up cur p n a)
  then have p: "p \<in> set procs" "ps_pid p = cur" using table_row [OF ok] by blast+
  from up.IH obtain a where "a \<in> agent_pids pats procs" "above procs a (ps_ppid p)" by (elim exE conjE)
  then show ?case using above.parent [OF p(1), of a] p(2) by blast
qed

lemma above_nearest:
  assumes ok: "table_ok depth procs"
  shows "above procs a q \<Longrightarrow> a \<in> agent_pids pats procs \<Longrightarrow> \<exists>n d. nearest pats (by_pid procs) n q d"
proof (induction rule: above.induct)
  case (self p)
  then have "map_of (by_pid procs) (ps_pid p) = Some p" using table_row [OF ok] by blast
  moreover from self obtain p' where "p' \<in> set procs" "ps_pid p' = ps_pid p" "proc_agent pats p' \<noteq> None" by auto
  then have "proc_agent pats p \<noteq> None" using table_pid_inj [OF ok, of p' p] self.hyps by simp
  ultimately show ?case using nearest.here by blast
next
  case (parent q a)
  then have r: "map_of (by_pid procs) (ps_pid q) = Some q" using table_row [OF ok] by blast
  from above_in [OF parent.hyps(2)] obtain p where p: "p \<in> set procs" "ps_ppid q = ps_pid p" by blast
  then have "depth (ps_pid p) < depth (ps_pid q)" "ps_pid p \<noteq> 0" using ok parent.hyps(1) by (auto simp: table_ok_def)
  then have "ps_ppid q \<noteq> 0" "ps_ppid q \<noteq> ps_pid q" using p by auto
  with parent.IH [OF parent.prems] r show ?case
    using nearest.here [OF r] nearest.up [OF r] by (cases "proc_agent pats q") blast+
qed

lemma under_agent_iff:
  assumes "table_ok depth procs"
  shows "is_under_agent pats procs q \<longleftrightarrow> (\<exists>a. a \<in> agent_pids pats procs \<and> above procs a q)"
proof -
  have "is_under_agent pats procs q \<longleftrightarrow> (\<exists>n d. nearest pats (by_pid procs) n q d)"
    unfolding is_under_agent_def not_None_eq walk_iff by (rule ex_comm)
  then show ?thesis using nearest_above [OF assms] above_nearest [OF assms] by meson
qed

text \<open>The topmost agent above a process is a root.\<close>

lemma root_above:
  assumes ok: "table_ok depth procs" and "a \<in> agent_pids pats procs" and "above procs a q"
  shows "\<exists>r \<in> set (root_pids pats procs). above procs r q"
proof -
  let ?P = "\<lambda>x. x \<in> agent_pids pats procs \<and> above procs x q"
  have "\<exists>r. ?P r \<and> (\<forall>x. ?P x \<longrightarrow> depth r \<le> depth x)"
    by (rule ex_has_least_nat) (use assms in simp)
  then obtain r where "?P r \<and> (\<forall>x. ?P x \<longrightarrow> depth r \<le> depth x)" ..
  then have r: "?P r" and least: "\<forall>x. ?P x \<longrightarrow> depth r \<le> depth x" by (rule conjunct1, rule conjunct2)
  from r obtain p where p: "p \<in> set procs" "r = ps_pid p" "proc_agent pats p \<noteq> None" by blast
  have "ps_ppid p \<notin> agent_pids pats procs"
  proof
    assume up: "ps_ppid p \<in> agent_pids pats procs"
    then obtain b where b: "b \<in> set procs" "ps_pid b = ps_ppid p" by auto
    then have "above procs (ps_ppid p) r" using above.self [OF b(1)] p by (auto intro: above.parent)
    then have "above procs (ps_ppid p) q" using above_trans [OF conjunct2 [OF r]] by simp
    with up have "depth r \<le> depth (ps_ppid p)" by (intro least [rule_format] conjI)
    moreover have "depth (ps_pid b) < depth (ps_pid p)" by (rule table_depth [OF ok b(1) p(1) b(2) [symmetric]])
    ultimately show False using b(2) p(2) by simp
  qed
  with p r show ?thesis by (auto simp: root_pids_set(1) [OF ok])
qed

lemma sum_of_filter: "(\<Sum>x\<leftarrow>xs. of_bool (P x)) = length (filter P xs)"
  by (induction xs) auto

text \<open>Every process is listed once for each root above it.\<close>

lemma forests_list:
  assumes ok: "table_ok depth procs" and D: "\<forall>p \<in> set procs. depth (ps_pid p) \<le> D" and "D < n"
  obtains fs where "build_agent_forests n pats procs = Some fs"
    and "\<And>q. count_list (collect_forest_pids fs) q = length (filter (\<lambda>r. above procs r q) (root_pids pats procs))"
proof (cases "scan_agents pats procs = []")
  case True
  then have "root_pids pats procs = []" by (simp add: root_pids_def)
  with True that [of "[]"] show ?thesis by (simp add: build_agent_forests_def collect_forest_pids_def)
next
  case False
  let ?A = "set (map da_pid (scan_agents pats procs))"
  have "\<exists>t. build_agent_subtree n pats (by_pid procs) ?A r = Some (Some t)
      \<and> (\<forall>q. count_list (collect_node t []) q = of_bool (above procs r q))" if "r \<in> set (root_pids pats procs)" for r
  proof -
    from that obtain p where p: "p \<in> set procs" "r = ps_pid p" using root_pids_set(1) [OF ok] by auto
    show ?thesis unfolding p(2) by (rule subtree_lists [OF ok D p(1)]) (use \<open>D < n\<close> in simp)
  qed
  then obtain T where T: "\<And>r. r \<in> set (root_pids pats procs) \<Longrightarrow> build_agent_subtree n pats (by_pid procs) ?A r = Some (Some (T r))"
    "\<And>r q. r \<in> set (root_pids pats procs) \<Longrightarrow> count_list (collect_node (T r) []) q = of_bool (above procs r q)" by metis
  have "build_agent_forests n pats procs = Some (map T (root_pids pats procs))"
    using False those_map_Some [of "root_pids pats procs" _ "\<lambda>x. Some (T x)", OF T(1)]
    by (simp add: build_agent_forests_def Let_def)
  moreover have "count_list (collect_forest_pids (map T (root_pids pats procs))) q =
      length (filter (\<lambda>r. above procs r q) (root_pids pats procs))" for q
  proof -
    have "count_list (collect_forest_pids (map T (root_pids pats procs))) q =
        (\<Sum>r\<leftarrow>root_pids pats procs. count_list (collect_node (T r) []) q)"
      by (simp add: collect_forest_pids_def collect_fold count_concat comp_def)
    also have "\<dots> = (\<Sum>r\<leftarrow>root_pids pats procs. of_bool (above procs r q))"
      by (rule arg_cong [where f = sum_list], rule map_cong) (simp_all only: T(2))
    also have "\<dots> = length (filter (\<lambda>r. above procs r q) (root_pids pats procs))" by (rule sum_of_filter)
    finally show ?thesis .
  qed
  ultimately show ?thesis by (rule that)
qed

section \<open>Properties\<close>



text \<open>
  Every process with \<open>amp\<close> somewhere in an argument is taken for an agent, whatever it is:
  the fingerprints of a family are looked for as substrings of all arguments.
\<close>

theorem amp_is_everywhere:
  assumes "a \<in> set cmdline" and "str_contains (to_ascii_lowercase a) ''amp''"
  shows "match_known_agent pats comm cmdline \<noteq> None"
proof (rule fingerprint_found [OF _ assms(1) _ assms(2)])
  show "map_of CMDLINE_FINGERPRINTS ''amp'' = Some [''amp'', ''amp-code'', ''sourcegraph/amp'', ''@sourcegraph/amp'', ''.amp'']"
    by (simp add: CMDLINE_FINGERPRINTS_def)
qed simp

theorem amp_is_everywhere_witness:
  "match_known_agent [] ''cat'' [''cat'', ''Examples/readme''] = Some ''amp''
   \<and> match_known_agent [] ''cat'' [''cat'', ''Examples/readme''] \<noteq> None"
proof -
  have "match_known_agent [] ''cat'' [''cat'', ''Examples/readme''] = Some ''amp''" by code_simp
  moreover have "str_contains (to_ascii_lowercase ''Examples/readme'') ''amp''" by code_simp
  ultimately show ?thesis using amp_is_everywhere [of "''Examples/readme''" "[''cat'', ''Examples/readme'']"] by simp
qed

text \<open>
  Reading a command line back: the arguments of a process, as the kernel joins them with NUL
  bytes, are recovered exactly when none is empty, none contains NUL and all are UTF-8.
\<close>

theorem cmdline_roundtrip:
  assumes "\<forall>a \<in> set args. a \<noteq> [] \<and> 0 \<notin> set a \<and> utf8_valid a"
  shows "parse_cmdline (raw_cmdline args) = map (map byte_char) args"
proof -
  have "split_on 0 (raw_cmdline args) = args @ [[]]" using assms by (simp add: split_raw_cmdline)
  moreover have "filter (\<lambda>s. s \<noteq> []) args = args" using assms by (simp add: filter_id_conv)
  ultimately show ?thesis using assms by (simp add: parse_cmdline_def from_utf8_lossy_valid)
qed

theorem cmdline_roundtrip_witness:
  "parse_cmdline (raw_cmdline [[0x6C, 0x73], [0xC3, 0xA9]]) = [''ls'', [CHR 0xC3, CHR 0xA9]]"
proof -
  have "utf8_valid [0x6C, 0x73]" "utf8_valid [0xC3, 0xA9]" by code_simp+
  then have "parse_cmdline (raw_cmdline [[0x6C, 0x73], [0xC3, 0xA9]]) = map (map byte_char) [[0x6C, 0x73], [0xC3, 0xA9]]"
    by (intro cmdline_roundtrip) simp
  also have "\<dots> = [''ls'', [CHR 0xC3, CHR 0xA9]]" by code_simp
  finally show ?thesis .
qed

text \<open>
  The walk up the parents finds exactly the nearest agent on the chain; the guard against
  repeated ids makes it total and loses no result, even when the table has a cycle of parents.
\<close>

theorem walk_finds_nearest:
  "walk_agent_ancestors pats procs pid = Some a \<longleftrightarrow> (\<exists>n. nearest pats (by_pid procs) n pid a)"
  by (rule walk_iff)

text \<open>
  C16: on a table in which processes are deeper than their parents the forests are built with a
  stack as deep as the table, the processes in them are exactly those under an agent, and each
  is listed once for every root above it.
\<close>

theorem forests_cover_agents:
  assumes "table_ok depth procs" and "\<forall>p \<in> set procs. depth (ps_pid p) \<le> D" and "D < n"
  shows "\<exists>fs. build_agent_forests n pats procs = Some fs
    \<and> set (collect_forest_pids fs) = {q. is_under_agent pats procs q}
    \<and> (\<forall>q. count_list (collect_forest_pids fs) q = length (filter (\<lambda>r. above procs r q) (root_pids pats procs)))"
proof -
  obtain fs where fs: "build_agent_forests n pats procs = Some fs"
    and c: "\<And>q. count_list (collect_forest_pids fs) q = length (filter (\<lambda>r. above procs r q) (root_pids pats procs))"
    using forests_list [OF assms] by metis
  have "q \<in> set (collect_forest_pids fs) \<longleftrightarrow> is_under_agent pats procs q" for q
  proof -
    have "q \<in> set (collect_forest_pids fs) \<longleftrightarrow> (\<exists>r \<in> set (root_pids pats procs). above procs r q)"
      using c [of q] count_list_0_iff [of "collect_forest_pids fs" q] by (auto simp: filter_empty_conv)
    also have "\<dots> \<longleftrightarrow> (\<exists>a. a \<in> agent_pids pats procs \<and> above procs a q)"
      using root_above [OF assms(1), of _ pats q] root_agent [OF assms(1), of _ pats] by meson
    finally show ?thesis by (simp only: under_agent_iff [OF assms(1)])
  qed
  with fs c show ?thesis by auto
qed

definition demo_procs :: "proc_snapshot list" where
  "demo_procs =
     [\<lparr>ps_pid = 10, ps_ppid = 1, ps_comm = ''claude'', ps_cmdline = [], ps_state = CHR ''S''\<rparr>,
      \<lparr>ps_pid = 11, ps_ppid = 10, ps_comm = ''bash'', ps_cmdline = [], ps_state = CHR ''S''\<rparr>,
      \<lparr>ps_pid = 12, ps_ppid = 11, ps_comm = ''codex'', ps_cmdline = [], ps_state = CHR ''R''\<rparr>]"

lemma demo_table: "table_ok unat demo_procs" "\<forall>p \<in> set demo_procs. unat (ps_pid p) \<le> 12"
  by (simp_all add: demo_procs_def table_ok_def)

theorem forests_cover_agents_witness:
  "\<exists>fs. build_agent_forests 13 [] demo_procs = Some fs
     \<and> set (collect_forest_pids fs) = {q. is_under_agent [] demo_procs q}"
proof -
  have "12 < (13 :: nat)" by simp
  from forests_cover_agents [OF demo_table this, of "[]"]
  obtain fs where "build_agent_forests 13 [] demo_procs = Some fs"
    "set (collect_forest_pids fs) = {q. is_under_agent [] demo_procs q}" by (elim exE conjE)
  then show ?thesis by blast
qed

text \<open>
  An agent started by an agent through a shell or any other process that is no agent is listed
  at least twice in the forests, below the outer agent and as a root of its own, although the
  forests are documented to be rooted at top-level agents with nested ones as subtrees.
\<close>

theorem nested_agent_listed_twice:
  assumes ok: "table_ok depth procs" and D: "\<forall>p \<in> set procs. depth (ps_pid p) \<le> D" "D < n"
    and outer: "c \<in> set procs" "proc_agent pats c \<noteq> None"
    and shell: "b \<in> set procs" "proc_agent pats b = None" "ps_ppid b = ps_pid c"
    and inner: "a \<in> set procs" "proc_agent pats a \<noteq> None" "ps_ppid a = ps_pid b"
  shows "\<exists>fs. build_agent_forests n pats procs = Some fs \<and> 2 \<le> count_list (collect_forest_pids fs) (ps_pid a)"
proof -
  let ?R = "filter (\<lambda>r. above procs r (ps_pid a)) (root_pids pats procs)"
  obtain fs where fs: "build_agent_forests n pats procs = Some fs"
    and count: "\<And>q. count_list (collect_forest_pids fs) q = length (filter (\<lambda>r. above procs r q) (root_pids pats procs))"
    using forests_list [OF ok D] by metis
  have "ps_pid b \<notin> agent_pids pats procs"
  proof
    assume "ps_pid b \<in> agent_pids pats procs"
    then obtain x where "x \<in> set procs" "ps_pid b = ps_pid x" "proc_agent pats x \<noteq> None" by blast
    then show False using table_pid_inj [OF ok shell(1), of x] shell(2) by simp
  qed
  then have root: "ps_pid a \<in> set ?R" using inner by (auto simp: root_pids_set(1) [OF ok] intro: above.self)
  have "above procs (ps_pid c) (ps_pid b)" using above.self [OF outer(1)] shell by (auto intro: above.parent)
  then have ca: "above procs (ps_pid c) (ps_pid a)" using inner by (auto intro: above.parent)
  obtain r where r: "r \<in> set (root_pids pats procs)" "above procs r (ps_pid c)"
    using root_above [OF ok, of "ps_pid c" pats "ps_pid c"] outer above.self [OF outer(1)] by blast
  then have "r \<in> set ?R" using above_trans [OF ca] by simp
  moreover have "r \<noteq> ps_pid a"
    using above_depth [OF r(2) ok] table_depth [OF ok outer(1) shell(1,3)] table_depth [OF ok shell(1) inner(1,3)] by auto
  ultimately have "{r, ps_pid a} \<subseteq> set ?R" "card {r, ps_pid a} = 2" using root by auto
  then have "2 \<le> card (set ?R)" by (metis List.finite_set card_mono)
  also have "\<dots> \<le> length ?R" by (rule card_length)
  finally show ?thesis using fs count by auto
qed

theorem nested_agent_listed_twice_witness:
  "\<exists>fs. build_agent_forests 13 [] demo_procs = Some fs \<and> 2 \<le> count_list (collect_forest_pids fs) 12"
proof -
  have "proc_agent [] (demo_procs ! 0) \<noteq> None" "proc_agent [] (demo_procs ! 1) = None"
    "proc_agent [] (demo_procs ! 2) \<noteq> None" by code_simp+
  moreover have "ps_pid (demo_procs ! 2) = 12" "demo_procs ! 0 \<in> set demo_procs" "demo_procs ! 1 \<in> set demo_procs"
    "demo_procs ! 2 \<in> set demo_procs" "ps_ppid (demo_procs ! 1) = ps_pid (demo_procs ! 0)"
    "ps_ppid (demo_procs ! 2) = ps_pid (demo_procs ! 1)"
    by (simp_all add: demo_procs_def)
  moreover have "12 < (13 :: nat)" by simp
  ultimately show ?thesis
    using nested_agent_listed_twice [OF demo_table, of 13 "demo_procs ! 0" "[]" "demo_procs ! 1" "demo_procs ! 2"] by metis
qed

end
