(* ===== verification/ResourceWatch.thy ===== *)
theory ResourceWatch
  imports AgentDetect
begin

text \<open>
  Samples of the resources of the host and of its agents
  (\<open>crates/sharecli-fleet/src/resource_watch.rs\<close>) and the operator panels of
  \<open>operator_pool_status.rs\<close>. The contents of the files under \<open>/proc\<close>, the output of \<open>netstat\<close> and
  the answers of the system calls are arguments. A floating point number is its bit pattern and is
  only passed on; printing one is a parameter.
\<close>

section \<open>Samples\<close>

type_synonym f64 = u64

record resource_watch_sample =
  rw_fd_count :: u64
  rw_net_rx_bytes :: u64
  rw_net_tx_bytes :: u64
  rw_mem_rss_bytes :: u64
  rw_load_1m :: f64

definition watch_default :: resource_watch_sample where
  "watch_default = \<lparr>rw_fd_count = 0, rw_net_rx_bytes = 0, rw_net_tx_bytes = 0, rw_mem_rss_bytes = 0, rw_load_1m = 0\<rparr>"

record agent_resource_sample =
  ar_mem_rss_bytes :: u64
  ar_fd_count :: "u64 option"

record detected_agent_watch =
  aw_agent :: detected_agent
  aw_resource :: agent_resource_sample

datatype watch_error =
    ReadFailed string
  | InvalidRx string
  | InvalidTx string
  | InvalidRss
  | RssMissing
  | NetstatStatus i32
  | NetstatUtf8
  | SysCallFailed
  | NoLoadSamples
  | NoSuchProcess
  | Unsupported

section \<open>Parsing\<close>

definition parse_u64 :: "string \<Rightarrow> u64 option" where
  "parse_u64 s = map_option of_nat (parse_uint (2 ^ 64) s)"

text \<open>\<open>str::trim_end_matches\<close> with a string: the suffix is removed as often as it occurs.\<close>

function trim_end_matches :: "string \<Rightarrow> string \<Rightarrow> string" where
  "trim_end_matches suffix s =
     (if suffix \<noteq> [] \<and> length suffix \<le> length s \<and> drop (length s - length suffix) s = suffix
      then trim_end_matches suffix (take (length s - length suffix) s) else s)"
  by pat_completeness auto

lemma shorter_by_suffix: "x \<noteq> [] \<Longrightarrow> length x \<le> length s \<Longrightarrow> length s - length x < length s"
  by (cases x) auto

termination trim_end_matches
  by (relation "measure (\<lambda>(x, s). length s)") (auto simp: shorter_by_suffix)

declare trim_end_matches.simps [simp del]

fun rss_line :: "string list \<Rightarrow> watch_error + u64" where
  "rss_line [] = Inl RssMissing"
| "rss_line (line # lines) =
     (if starts_with line ''VmRSS:''
      then (case parse_u64 (trim_end_matches '' kB'' (str_trim (drop (length ''VmRSS:'') line))) of
              None \<Rightarrow> Inl InvalidRss
            | Some kb \<Rightarrow> Inr (sat_mul kb 1024))
      else rss_line lines)"

text \<open>One line of \<open>/proc/net/dev\<close>: nothing to add, an error, or the two counters.\<close>

definition net_dev_line :: "string \<Rightarrow> watch_error + (u64 \<times> u64) option" where
  "net_dev_line line =
     (case split_once CHR '':'' line of
        None \<Rightarrow> Inr None
      | Some (name, rest) \<Rightarrow>
          (let iface = str_trim name; cols = split_whitespace rest
           in if iface = ''lo'' then Inr None
              else if length cols < 9 then Inr None
              else case parse_u64 (cols ! 0) of
                None \<Rightarrow> Inl (InvalidRx iface)
              | Some rx \<Rightarrow>
                  (case parse_u64 (cols ! 8) of
                     None \<Rightarrow> Inl (InvalidTx iface)
                   | Some tx \<Rightarrow> Inr (Some (rx, tx)))))"

text \<open>One line of \<open>netstat -ib\<close>.\<close>

definition netstat_line :: "string \<Rightarrow> watch_error + (u64 \<times> u64) option" where
  "netstat_line line =
     (let cols = split_whitespace line
      in if length cols < 10 then Inr None
         else let name = cols ! 0
              in if name = ''Name'' \<or> starts_with name ''lo'' then Inr None
                 else case parse_u64 (cols ! 6) of
                   None \<Rightarrow> Inl (InvalidRx name)
                 | Some rx \<Rightarrow>
                     (case parse_u64 (cols ! 9) of
                        None \<Rightarrow> Inl (InvalidTx name)
                      | Some tx \<Rightarrow> Inr (Some (rx, tx))))"

fun net_totals ::
  "(string \<Rightarrow> watch_error + (u64 \<times> u64) option) \<Rightarrow> string list \<Rightarrow> u64 \<Rightarrow> u64 \<Rightarrow> watch_error + u64 \<times> u64" where
  "net_totals f [] rx_total tx_total = Inr (rx_total, tx_total)"
| "net_totals f (line # lines) rx_total tx_total =
     (case f line of
        Inl e \<Rightarrow> Inl e
      | Inr None \<Rightarrow> net_totals f lines rx_total tx_total
      | Inr (Some (rx, tx)) \<Rightarrow> net_totals f lines (sat_add rx_total rx) (sat_add tx_total tx))"

section \<open>Sampling\<close>

text \<open>What the host answers: directory sizes, file contents, the run of \<open>netstat\<close>, the system calls.\<close>

datatype os_kind = LinuxOs | MacOsX | OtherHost

record host_view =
  hv_os :: os_kind
  hv_entries :: "string \<Rightarrow> nat option"
  hv_read :: "string \<Rightarrow> string option"
  hv_netstat :: "(i32 option \<times> string option) option"
  hv_maxrss :: "u64 option"
  hv_memory :: "u32 \<Rightarrow> u64 option"
  hv_loadavg :: "f64 list"

definition sample_self_fds :: "host_view \<Rightarrow> watch_error + u64" where
  "sample_self_fds H =
     (let count = (\<lambda>dir. case hv_entries H dir of None \<Rightarrow> Inl (ReadFailed dir) | Some n \<Rightarrow> Inr (of_nat n))
      in case hv_os H of
           LinuxOs \<Rightarrow> count ''/proc/self/fd''
         | MacOsX \<Rightarrow> count ''/dev/fd''
         | OtherHost \<Rightarrow> Inl Unsupported)"

definition sample_host_net_linux :: "host_view \<Rightarrow> watch_error + u64 \<times> u64" where
  "sample_host_net_linux H =
     (case hv_read H ''/proc/net/dev'' of
        None \<Rightarrow> Inl (ReadFailed ''/proc/net/dev'')
      | Some contents \<Rightarrow> net_totals net_dev_line (drop 2 (str_lines contents)) 0 0)"

definition sample_host_net_macos :: "host_view \<Rightarrow> watch_error + u64 \<times> u64" where
  "sample_host_net_macos H =
     (case hv_netstat H of
        None \<Rightarrow> Inl (ReadFailed ''netstat'')
      | Some (code, stdout) \<Rightarrow>
          if code \<noteq> Some 0 then Inl (NetstatStatus (case code of None \<Rightarrow> - 1 | Some c \<Rightarrow> c))
          else (case stdout of
                  None \<Rightarrow> Inl NetstatUtf8
                | Some text \<Rightarrow> net_totals netstat_line (drop 1 (str_lines text)) 0 0))"

definition sample_host_net :: "host_view \<Rightarrow> watch_error + u64 \<times> u64" where
  "sample_host_net H =
     (case hv_os H of
        LinuxOs \<Rightarrow> sample_host_net_linux H
      | MacOsX \<Rightarrow> sample_host_net_macos H
      | OtherHost \<Rightarrow> Inl Unsupported)"

definition read_rss :: "host_view \<Rightarrow> string \<Rightarrow> watch_error + u64" where
  "read_rss H path = (case hv_read H path of None \<Rightarrow> Inl (ReadFailed path) | Some status \<Rightarrow> rss_line (str_lines status))"

definition sample_self_rss_bytes :: "host_view \<Rightarrow> watch_error + u64" where
  "sample_self_rss_bytes H =
     (case hv_os H of
        LinuxOs \<Rightarrow> read_rss H ''/proc/self/status''
      | MacOsX \<Rightarrow> (case hv_maxrss H of None \<Rightarrow> Inl SysCallFailed | Some n \<Rightarrow> Inr n)
      | OtherHost \<Rightarrow> Inl Unsupported)"

definition sample_host_load_1m :: "host_view \<Rightarrow> watch_error + f64" where
  "sample_host_load_1m H =
     (if hv_os H = OtherHost then Inl Unsupported
      else case hv_loadavg H of [] \<Rightarrow> Inl NoLoadSamples | l # _ \<Rightarrow> Inr l)"

definition sample_pid_rss_bytes :: "host_view \<Rightarrow> u32 \<Rightarrow> watch_error + u64" where
  "sample_pid_rss_bytes H pid =
     (case hv_os H of
        LinuxOs \<Rightarrow> read_rss H (''/proc/'' @ show_word pid @ ''/status'')
      | MacOsX \<Rightarrow> (case hv_memory H pid of None \<Rightarrow> Inl NoSuchProcess | Some n \<Rightarrow> Inr n)
      | OtherHost \<Rightarrow> Inl Unsupported)"

definition sample_pid_fds :: "host_view \<Rightarrow> u32 \<Rightarrow> watch_error + u64" where
  "sample_pid_fds H pid =
     (if hv_os H \<noteq> LinuxOs then Inl Unsupported
      else let dir = ''/proc/'' @ show_word pid @ ''/fd''
           in case hv_entries H dir of None \<Rightarrow> Inl (ReadFailed dir) | Some n \<Rightarrow> Inr (of_nat n))"

definition capture_for_pid :: "host_view \<Rightarrow> u32 \<Rightarrow> watch_error + agent_resource_sample" where
  "capture_for_pid H pid =
     (case sample_pid_rss_bytes H pid of
        Inl e \<Rightarrow> Inl e
      | Inr rss \<Rightarrow>
          Inr \<lparr>ar_mem_rss_bytes = rss,
               ar_fd_count = (case sample_pid_fds H pid of Inl _ \<Rightarrow> None | Inr n \<Rightarrow> Some n)\<rparr>)"

definition watch_detected_agents :: "host_view \<Rightarrow> detected_agent list \<Rightarrow> detected_agent_watch list" where
  "watch_detected_agents H agents =
     List.map_filter (\<lambda>agent. case capture_for_pid H (da_pid agent) of
                               Inl _ \<Rightarrow> None
                             | Inr resource \<Rightarrow> Some \<lparr>aw_agent = agent, aw_resource = resource\<rparr>) agents"

definition sum_detected_agent_rss_bytes :: "detected_agent_watch list \<Rightarrow> u64" where
  "sum_detected_agent_rss_bytes agents = sum_list (map (\<lambda>row. ar_mem_rss_bytes (aw_resource row)) agents)"

definition watch_host_agents :: "host_view \<Rightarrow> runtime_pattern list \<Rightarrow> proc_snapshot list \<Rightarrow> detected_agent_watch list" where
  "watch_host_agents H pats procs = watch_detected_agents H (scan_agents pats procs)"

definition watch_capture :: "host_view \<Rightarrow> watch_error + resource_watch_sample" where
  "watch_capture H =
     (case sample_self_fds H of
        Inl e \<Rightarrow> Inl e
      | Inr fds \<Rightarrow>
      (case sample_host_net H of
        Inl e \<Rightarrow> Inl e
      | Inr (rx, tx) \<Rightarrow>
      (case sample_self_rss_bytes H of
        Inl e \<Rightarrow> Inl e
      | Inr rss \<Rightarrow>
      (case sample_host_load_1m H of
        Inl e \<Rightarrow> Inl e
      | Inr load \<Rightarrow>
          Inr \<lparr>rw_fd_count = fds, rw_net_rx_bytes = rx, rw_net_tx_bytes = tx,
               rw_mem_rss_bytes = rss, rw_load_1m = load\<rparr>))))"

text \<open>\<open>{:.2}\<close> is a parameter.\<close>

definition watch_format_status_section :: "(f64 \<Rightarrow> string) \<Rightarrow> resource_watch_sample \<Rightarrow> string" where
  "watch_format_status_section show2 w =
     nl @ ''=== Host Resource Watch ==='' @ nl @ nl
     @ ''Open FDs:     '' @ show_word (rw_fd_count w) @ nl
     @ ''RSS:          '' @ show_word (rw_mem_rss_bytes w) @ '' bytes'' @ nl
     @ ''Load (1m):    '' @ show2 (rw_load_1m w) @ nl
     @ ''Net RX:       '' @ show_word (rw_net_rx_bytes w) @ '' bytes'' @ nl
     @ ''Net TX:       '' @ show_word (rw_net_tx_bytes w) @ '' bytes'' @ nl"

section \<open>Operator panels\<close>

record pool_operator_panel =
  po_node_total :: nat
  po_node_idle :: nat
  po_bun_total :: nat
  po_bun_idle :: nat
  po_max_per_type :: nat
  po_healthy :: bool

record status_operator_panel =
  so_scanned :: nat
  so_watched :: nat
  so_total_processes :: nat
  so_agent_rows :: nat

definition show_bool :: "bool \<Rightarrow> string" where
  "show_bool b = (if b then ''true'' else ''false'')"

definition csv_row :: "string \<Rightarrow> string list \<Rightarrow> string" where
  "csv_row name cells = name @ concat (map (\<lambda>c. CHR '','' # c) cells) @ nl"

definition pool_format_csv_companion :: "pool_operator_panel \<Rightarrow> string" where
  "pool_format_csv_companion p =
     nl @ ''record,node_total,node_idle,bun_total,bun_idle,max_per_type,healthy'' @ nl
     @ csv_row ''pool'' (map show_nat [po_node_total p, po_node_idle p, po_bun_total p, po_bun_idle p, po_max_per_type p]
                       @ [show_bool (po_healthy p)])"

definition status_format_csv_companion :: "status_operator_panel \<Rightarrow> string" where
  "status_format_csv_companion s =
     nl @ ''record,scanned,watched,total_processes,agent_rows'' @ nl
     @ csv_row ''status'' (map show_nat [so_scanned s, so_watched s, so_total_processes s, so_agent_rows s])"

text \<open>The middle dot is the two bytes of its UTF-8 encoding.\<close>

definition middle_dot :: string where
  "middle_dot = '' '' @ [CHR 0xC2, CHR 0xB7] @ '' ''"

definition format_pool_operator_line :: "pool_operator_panel \<Rightarrow> string" where
  "format_pool_operator_line p =
     ''Pool node '' @ show_nat (po_node_total p) @ ''/'' @ show_nat (po_node_idle p) @ '' idle'' @ middle_dot
     @ ''bun '' @ show_nat (po_bun_total p) @ ''/'' @ show_nat (po_bun_idle p) @ '' idle'' @ middle_dot
     @ ''max '' @ show_nat (po_max_per_type p) @ middle_dot
     @ (if po_healthy p then ''healthy'' else ''degraded'')"

definition format_status_operator_line :: "status_operator_panel \<Rightarrow> string" where
  "format_status_operator_line s =
     ''Proc scan '' @ show_nat (so_scanned s) @ middle_dot @ ''watched '' @ show_nat (so_watched s) @ middle_dot
     @ show_nat (so_total_processes s) @ '' managed'' @ middle_dot @ show_nat (so_agent_rows s) @ '' agent row(s)''"

section \<open>Lemmas\<close>

text \<open>What the lines of a table add up to.\<close>

definition net_sum :: "(u64 \<times> u64 \<Rightarrow> u64) \<Rightarrow> (string \<Rightarrow> watch_error + (u64 \<times> u64) option) \<Rightarrow> string list \<Rightarrow> nat" where
  "net_sum sel f lines =
     (\<Sum>line\<leftarrow>lines. case f line of Inr (Some c) \<Rightarrow> unat (sel c) | _ \<Rightarrow> 0)"

lemma sat_add_nat: "unat (sat_add a b) = min (unat a + unat b) (2 ^ 64 - 1)" for a b :: u64
  by (simp add: unat_sat_add)

lemma net_totals_acc:
  assumes "\<forall>line \<in> set lines. \<exists>c. f line = Inr c"
  shows "\<exists>rx tx. net_totals f lines a b = Inr (rx, tx)
    \<and> unat rx = min (unat a + net_sum fst f lines) (2 ^ 64 - 1)
    \<and> unat tx = min (unat b + net_sum snd f lines) (2 ^ 64 - 1)"
  using assms
proof (induction lines arbitrary: a b)
  case Nil
  have "unat a \<le> 2 ^ 64 - 1" "unat b \<le> 2 ^ 64 - 1" using unat_bound [of a] unat_bound [of b] by simp_all
  then show ?case by (simp add: net_sum_def)
next
  case (Cons line lines)
  then obtain c where c: "f line = Inr c" by auto
  show ?case
  proof (cases c)
    case None
    with Cons c show ?thesis by (simp add: net_sum_def)
  next
    case (Some p)
    obtain rx tx where p: "p = (rx, tx)" by fastforce
    from Cons.IH [of "sat_add a rx" "sat_add b tx"] Cons.prems
    show ?thesis using c Some p by (auto simp: net_sum_def sat_add_nat min_def)
  qed
qed

lemma trim_end_matches_absent:
  "drop (length s - length suffix) s \<noteq> suffix \<Longrightarrow> trim_end_matches suffix s = s"
  by (simp add: trim_end_matches.simps)

lemma trim_end_matches_append:
  "suffix \<noteq> [] \<Longrightarrow> trim_end_matches suffix (s @ suffix) = trim_end_matches suffix s"
  by (subst trim_end_matches.simps) simp

section \<open>Properties\<close>

text \<open>
  The network totals are the sums of the counters of all interfaces but the loopback one,
  saturating at the largest 64-bit number, whenever every counter can be read.
\<close>

theorem host_net_totals:
  assumes "hv_os H = LinuxOs" and "hv_read H ''/proc/net/dev'' = Some contents"
    and "\<forall>line \<in> set (drop 2 (str_lines contents)). \<exists>c. net_dev_line line = Inr c"
  shows "\<exists>rx tx. sample_host_net H = Inr (rx, tx)
    \<and> unat rx = min (net_sum fst net_dev_line (drop 2 (str_lines contents))) (2 ^ 64 - 1)
    \<and> unat tx = min (net_sum snd net_dev_line (drop 2 (str_lines contents))) (2 ^ 64 - 1)"
  using net_totals_acc [OF assms(3), of 0 0] assms(1,2)
  by (simp add: sample_host_net_def sample_host_net_linux_def)

lemma demo_net_dev:
  "net_dev_line ''eth0: 5 0 0 0 0 0 0 0 6'' = Inr (Some (5, 6))" "net_dev_line ''lo: 7 0 0 0 0 0 0 0 7'' = Inr None"
proof -
  have ws: "split_whitespace '' 5 0 0 0 0 0 0 0 6'' = [''5'', ''0'', ''0'', ''0'', ''0'', ''0'', ''0'', ''0'', ''6'']"
    by code_simp
  have p: "parse_u64 ''5'' = Some 5" "parse_u64 ''6'' = Some 6"
    by (simp_all add: parse_u64_def parse_uint_def is_digit_char_def digit_val_def)
  have so: "split_once CHR '':'' ''eth0: 5 0 0 0 0 0 0 0 6'' = Some (''eth0'', '' 5 0 0 0 0 0 0 0 6'')"
    "str_trim ''eth0'' = ''eth0''" by code_simp+
  show "net_dev_line ''eth0: 5 0 0 0 0 0 0 0 6'' = Inr (Some (5, 6))"
    unfolding net_dev_line_def so option.case prod.case Let_def ws by (simp add: p)
  show "net_dev_line ''lo: 7 0 0 0 0 0 0 0 7'' = Inr None"
    by (simp add: net_dev_line_def str_trim_def trim_start_def is_whitespace_def)
qed

theorem host_net_totals_witness:
  "let H = \<lparr>hv_os = LinuxOs, hv_entries = (\<lambda>_. None),
            hv_read = (\<lambda>_. Some (''a'' @ nl @ ''b'' @ nl @ ''lo: 7 0 0 0 0 0 0 0 7'' @ nl @ ''eth0: 5 0 0 0 0 0 0 0 6'' @ nl)),
            hv_netstat = None, hv_maxrss = None, hv_memory = (\<lambda>_. None), hv_loadavg = []\<rparr>
   in sample_host_net H = Inr (5, 6)"
proof -
  let ?c = "''a'' @ nl @ ''b'' @ nl @ ''lo: 7 0 0 0 0 0 0 0 7'' @ nl @ ''eth0: 5 0 0 0 0 0 0 0 6'' @ nl"
  let ?H = "\<lparr>hv_os = LinuxOs, hv_entries = (\<lambda>_. None), hv_read = (\<lambda>_. Some ?c),
            hv_netstat = None, hv_maxrss = None, hv_memory = (\<lambda>_. None), hv_loadavg = []\<rparr>"
  have lines: "drop 2 (str_lines ?c) = [''lo: 7 0 0 0 0 0 0 0 7'', ''eth0: 5 0 0 0 0 0 0 0 6'']" by code_simp
  have ok: "\<forall>line \<in> set (drop 2 (str_lines ?c)). \<exists>c. net_dev_line line = Inr c"
    unfolding lines by (simp add: demo_net_dev)
  have sums: "net_sum fst net_dev_line (drop 2 (str_lines ?c)) = 5" "net_sum snd net_dev_line (drop 2 (str_lines ?c)) = 6"
    unfolding lines by (simp_all add: net_sum_def demo_net_dev)
  from host_net_totals [of ?H ?c, OF _ _ ok] obtain rx tx
    where "sample_host_net ?H = Inr (rx, tx)" "unat rx = 5" "unat tx = 6" unfolding sums by auto
  moreover from this(2,3) have "rx = 5" "tx = 6" by (simp_all add: word_unat_eq_iff)
  ultimately show ?thesis by (simp add: Let_def)
qed

end
