(* ===== verification/Hypervisor.thy ===== *)
theory Hypervisor
  imports ResourceWatch ThermalGate CoalesceCache SlotQueue Speculation FusePaths
begin

text \<open>
  The hypervisor (\<open>crates/sharecli-core/src/hypervisor.rs\<close>, \<open>types.rs\<close> and \<open>fuse_guard.rs\<close>): every
  spawn goes through the thermal gate, then to the slot queue when it mutates, and otherwise
  through the coalesce cache and, on a miss, a FUSE mount over the working directory. It composes
  the models of those parts. Starting a process is a parameter that acts on an arbitrary world.
\<close>

section \<open>Requests and outcomes\<close>

record hypervisor_config =
  hc_cache_root :: string
  hc_queue_root :: string
  hc_queue_max_concurrent :: nat
  hc_coalesce_ttl :: duration
  hc_coalesce_debounce :: duration
  hc_cache_key_mode :: cache_key_mode
  hc_semantic :: bool

record spawn_request =
  sr_argv :: "string list"
  sr_cwd :: string
  sr_env :: "(string \<times> string) list"
  sr_queue_priority :: queue_priority

text \<open>The environment variable with the priority is an argument.\<close>

definition sr_from_operator ::
  "string option \<Rightarrow> string list \<Rightarrow> string \<Rightarrow> (string \<times> string) list \<Rightarrow> string option \<Rightarrow> spawn_request" where
  "sr_from_operator env_var argv cwd env rule_priority =
     \<lparr>sr_argv = argv, sr_cwd = cwd, sr_env = env,
      sr_queue_priority = resolve_operator_queue_priority env_var rule_priority\<rparr>"

definition sr_new :: "string option \<Rightarrow> string list \<Rightarrow> string \<Rightarrow> (string \<times> string) list \<Rightarrow> spawn_request" where
  "sr_new env_var argv cwd env = sr_from_operator env_var argv cwd env None"

definition with_queue_priority :: "queue_priority \<Rightarrow> spawn_request \<Rightarrow> spawn_request" where
  "with_queue_priority priority req = req\<lparr>sr_queue_priority := priority\<rparr>"

record spawn_outcome =
  ot_exit_code :: i32
  ot_stdout :: "u8 list"
  ot_stderr :: "u8 list"
  ot_from_cache :: bool
  ot_resource_watch :: resource_watch_sample
  ot_detected_agent :: "detected_agent option"
  ot_fuse_session_id :: "string option"
  ot_fuse_backing :: "string option"
  ot_fuse_mountpoint :: "string option"

definition with_resource_watch :: "resource_watch_sample \<Rightarrow> spawn_outcome \<Rightarrow> spawn_outcome" where
  "with_resource_watch watch ot = ot\<lparr>ot_resource_watch := watch\<rparr>"

definition with_detected_agent :: "detected_agent option \<Rightarrow> spawn_outcome \<Rightarrow> spawn_outcome" where
  "with_detected_agent agent ot = ot\<lparr>ot_detected_agent := agent\<rparr>"

definition agent_family :: "spawn_outcome \<Rightarrow> string option" where
  "agent_family ot = map_option da_family (ot_detected_agent ot)"

definition fuse_intercept_active :: "spawn_outcome \<Rightarrow> bool" where
  "fuse_intercept_active ot \<longleftrightarrow> ot_fuse_session_id ot \<noteq> None"

definition remap_fuse_path :: "spawn_outcome \<Rightarrow> string \<Rightarrow> path option" where
  "remap_fuse_path ot p =
     (case (ot_fuse_mountpoint ot, ot_fuse_backing ot) of
        (Some mp, Some bk) \<Rightarrow> remap_mount_to_backing (components mp) (components bk) (components p)
      | _ \<Rightarrow> None)"

definition outcome_of_cached :: "cached_result \<Rightarrow> spawn_outcome" where
  "outcome_of_cached c =
     \<lparr>ot_exit_code = cr_exit_code c, ot_stdout = cr_stdout c, ot_stderr = cr_stderr c, ot_from_cache = True,
      ot_resource_watch = watch_default, ot_detected_agent = None, ot_fuse_session_id = None,
      ot_fuse_backing = None, ot_fuse_mountpoint = None\<rparr>"

definition cached_of_outcome :: "spawn_outcome \<Rightarrow> cached_result" where
  "cached_of_outcome s = \<lparr>cr_exit_code = ot_exit_code s, cr_stdout = ot_stdout s, cr_stderr = ot_stderr s\<rparr>"

section \<open>Running a process\<close>

text \<open>
  The operating system runs a program with arguments, directory and variables on a world: it fails
  to start, or it ends with its exit code, if it has one, and its output.
\<close>

type_synonym 'w spawner =
  "string \<Rightarrow> string list \<Rightarrow> string \<Rightarrow> (string \<times> string) list \<Rightarrow> 'w \<Rightarrow> (string + i32 option \<times> u8 list \<times> u8 list) \<times> 'w"

definition spawn_process_sync :: "'w spawner \<Rightarrow> spawn_request \<Rightarrow> 'w \<Rightarrow> (string + spawn_outcome) \<times> 'w" where
  "spawn_process_sync sys req w =
     (case sr_argv req of
        [] \<Rightarrow> (Inl ''spawn_process_sync: argv is empty'', w)
      | program # args \<Rightarrow>
          (case sys program args (sr_cwd req) (sr_env req) w of
             (Inl e, w) \<Rightarrow> (Inl (''failed to spawn: '' @ e), w)
           | (Inr (code, stdout, stderr), w) \<Rightarrow>
               (Inr \<lparr>ot_exit_code = (case code of None \<Rightarrow> - 1 | Some c \<Rightarrow> c), ot_stdout = stdout,
                     ot_stderr = stderr, ot_from_cache = False, ot_resource_watch = watch_default,
                     ot_detected_agent = None, ot_fuse_session_id = None, ot_fuse_backing = None,
                     ot_fuse_mountpoint = None\<rparr>, w)))"

text \<open>The base name of the program.\<close>

definition queue_lane_from_argv :: "string list \<Rightarrow> string" where
  "queue_lane_from_argv argv = last (split_on CHR ''/'' (case argv of [] \<Rightarrow> ''unknown'' | a # _ \<Rightarrow> a))"

section \<open>The FUSE guard\<close>

definition FUSE_READY_TIMEOUT :: duration where
  "FUSE_READY_TIMEOUT = from_secs 5"

definition FUSE_READY_POLL :: duration where
  "FUSE_READY_POLL = from_millis 50"

definition FUSE_READY_MARKER :: string where
  "FUSE_READY_MARKER = ''.sharecli-fuse-ready''"

definition fuse_session_id_for_command_key :: "string \<Rightarrow> string" where
  "fuse_session_id_for_command_key key = ''hv-'' @ (if 16 \<le> length key then take 16 key else key)"

datatype ready_error = MountFailed string | ReadyTimeout

text \<open>
  The poll with index \<open>i\<close> sees the probe file or not, and finds a message of the mounting thread
  or none. The loop ends only if time advances.
\<close>

partial_function (option) wait_fuse_mount_ready ::
  "(nat \<Rightarrow> bool) \<Rightarrow> (nat \<Rightarrow> string option) \<Rightarrow> duration \<Rightarrow> duration \<Rightarrow> nat \<Rightarrow> duration
     \<Rightarrow> ((ready_error + unit) \<times> duration) option" where
  "wait_fuse_mount_ready probe fail_rx timeout poll i waited =
     (if waited < timeout
      then if probe i then Some (Inr (), waited)
           else (case fail_rx i of
                   Some msg \<Rightarrow> Some (Inl (MountFailed msg), waited)
                 | None \<Rightarrow> wait_fuse_mount_ready probe fail_rx timeout poll (Suc i) (waited + poll))
      else Some (Inl ReadyTimeout, waited))"

text \<open>What a mount leaves on the host: marker files below backing directories, and mounts.\<close>

record fuse_host =
  fh_markers :: "string list"
  fh_mounts :: "string list"

text \<open>
  What an attempt to mount meets: whether the system has FUSE, the temporary directory, whether
  the marker can be written, the polls, and whether the marker can be removed. The mounting thread
  has mounted before the probe is seen.
\<close>

record mount_env =
  me_supported :: bool
  me_tempdir :: "string option"
  me_pid :: nat
  me_write_fails :: bool
  me_probe :: "nat \<Rightarrow> bool"
  me_fail_rx :: "nat \<Rightarrow> string option"
  me_remove_fails :: bool
  me_unmount_fails :: bool

record fuse_guard =
  fg_mountpoint :: "string option"
  fg_readiness_marker :: "string option"

definition no_op_guard :: fuse_guard where
  "no_op_guard = \<lparr>fg_mountpoint = None, fg_readiness_marker = None\<rparr>"

definition marker_path :: "mount_env \<Rightarrow> string \<Rightarrow> string" where
  "marker_path E backing = path_join backing (FUSE_READY_MARKER @ ''-'' @ show_nat (me_pid E))"

text \<open>Writing a file creates it or replaces its contents.\<close>

definition add_name :: "string \<Rightarrow> string list \<Rightarrow> string list" where
  "add_name n ns = (if n \<in> set ns then ns else ns @ [n])"

definition drop_marker :: "mount_env \<Rightarrow> string \<Rightarrow> fuse_host \<Rightarrow> fuse_host" where
  "drop_marker E marker h = (if me_remove_fails E then h else h\<lparr>fh_markers := removeAll marker (fh_markers h)\<rparr>)"

definition force_unmount :: "mount_env \<Rightarrow> string \<Rightarrow> fuse_host \<Rightarrow> fuse_host" where
  "force_unmount E mp h = (if me_unmount_fails E then h else h\<lparr>fh_mounts := removeAll mp (fh_mounts h)\<rparr>)"

definition try_mount :: "mount_env \<Rightarrow> string \<Rightarrow> fuse_host \<Rightarrow> fuse_guard \<times> fuse_host \<times> duration" where
  "try_mount E backing h =
     (if \<not> me_supported E then (no_op_guard, h, 0)
      else case me_tempdir E of
        None \<Rightarrow> (no_op_guard, h, 0)
      | Some mountpoint \<Rightarrow>
          if me_write_fails E then (no_op_guard, h, 0)
          else
            (let marker = marker_path E backing;
                 h = h\<lparr>fh_markers := add_name marker (fh_markers h)\<rparr>
             in case wait_fuse_mount_ready (me_probe E) (me_fail_rx E) FUSE_READY_TIMEOUT FUSE_READY_POLL 0 0 of
                  Some (Inr _, waited) \<Rightarrow>
                    (\<lparr>fg_mountpoint = Some mountpoint, fg_readiness_marker = Some marker\<rparr>,
                     h\<lparr>fh_mounts := add_name mountpoint (fh_mounts h)\<rparr>, waited)
                | Some (Inl _, waited) \<Rightarrow> (no_op_guard, drop_marker E marker (force_unmount E mountpoint h), waited)
                | None \<Rightarrow> (no_op_guard, h, 0)))"

definition drop_guard :: "mount_env \<Rightarrow> fuse_guard \<Rightarrow> fuse_host \<Rightarrow> fuse_host" where
  "drop_guard E g h =
     (let h = (case fg_mountpoint g of None \<Rightarrow> h | Some mp \<Rightarrow> force_unmount E mp h)
      in case fg_readiness_marker g of None \<Rightarrow> h | Some marker \<Rightarrow> drop_marker E marker h)"

section \<open>The engine\<close>

record hypervisor =
  hp_cache :: coalesce_cache
  hp_queue :: slot_queue
  hp_nocache_args :: "string list"
  hp_config :: hypervisor_config

definition hp_with_options :: "hypervisor_config \<Rightarrow> string list \<Rightarrow> hypervisor" where
  "hp_with_options config nocache_args =
     \<lparr>hp_cache = cc_with_options (hc_cache_root config) (hc_coalesce_ttl config) (hc_coalesce_debounce config),
      hp_queue = sq_new (hc_queue_root config) (hc_queue_max_concurrent config),
      hp_nocache_args = nocache_args, hp_config = config\<rparr>"

definition hp_new :: "string \<Rightarrow> hypervisor" where
  "hp_new cache_root =
     hp_with_options
       \<lparr>hc_cache_root = cache_root, hc_queue_root = path_join cache_root ''queue'', hc_queue_max_concurrent = 1,
        hc_coalesce_ttl = DEFAULT_TTL, hc_coalesce_debounce = 0, hc_cache_key_mode = Time, hc_semantic = False\<rparr>
       DEFAULT_NOCACHE_ARGS"

definition hp_from_config :: "hypervisor_config \<Rightarrow> hypervisor" where
  "hp_from_config config = hp_with_options config DEFAULT_NOCACHE_ARGS"

definition hp_from_config_with_gate :: "hypervisor_config \<Rightarrow> hypervisor" where
  "hp_from_config_with_gate config = hp_with_options config []"

definition set_nocache_args :: "string list \<Rightarrow> hypervisor \<Rightarrow> hypervisor" where
  "set_nocache_args flags hp = hp\<lparr>hp_nocache_args := flags\<rparr>"

text \<open>
  What a call meets: the answers of the gate, the host and its processes at each sample, the
  functions behind the key, and the environments of the cache, the queue and the mount.
\<close>

record 'w hp_env =
  he_gate :: "nat \<Rightarrow> thermal_decision"
  he_host :: "nat \<Rightarrow> host_view"
  he_procs :: "nat \<Rightarrow> proc_snapshot list"
  he_pats :: "runtime_pattern list"
  he_self :: u32
  he_sha256 :: "string \<Rightarrow> u8 list"
  he_git :: git_cmd
  he_is_dir :: "string \<Rightarrow> bool"
  he_canonicalize :: "string \<Rightarrow> string option"
  he_cache :: cache_env
  he_queue :: queue_env
  he_mount :: mount_env
  he_spawn :: "'w spawner"

text \<open>
  The state: how often the gate was polled and the host sampled, the state of the cache with its
  clock and the world of the processes, the waiting directories of the lanes, the meters of the
  queue, the hits for speculation, and the mounts.
\<close>

record 'w hp_state =
  hs_polls :: nat
  hs_samples :: nat
  hs_cache :: "'w cache_state"
  hs_lanes :: "string \<Rightarrow> string list"
  hs_slots :: slot_queue_meters
  hs_tracker :: speculation_tracker
  hs_fuse :: fuse_host

datatype run_error =
    Refused gate_error
  | WatchFailed watch_error
  | CacheFailed cache_error
  | QueueFailed queue_error

definition hs_tick :: "duration \<Rightarrow> 'w hp_state \<Rightarrow> 'w hp_state" where
  "hs_tick t s = s\<lparr>hs_cache := (hs_cache s)\<lparr>cs_now := cs_now (hs_cache s) + t\<rparr>\<rparr>"

definition hs_meters :: "(coalesce_meters \<Rightarrow> coalesce_meters) \<Rightarrow> 'w hp_state \<Rightarrow> 'w hp_state" where
  "hs_meters f s = s\<lparr>hs_cache := (hs_cache s)\<lparr>cs_meters := f (cs_meters (hs_cache s))\<rparr>\<rparr>"

text \<open>The gate, then the sample and the agent above this process.\<close>

definition enter ::
  "'w hp_env \<Rightarrow> 'w hp_state \<Rightarrow> (run_error + resource_watch_sample \<times> detected_agent option) \<times> 'w hp_state" where
  "enter E s =
     (case thermal_gate_check (he_gate E) (hs_polls s) of
        (Inl e, polls, slept) \<Rightarrow> (Inl (Refused e), hs_tick slept (s\<lparr>hs_polls := polls\<rparr>))
      | (Inr _, polls, slept) \<Rightarrow>
          (let s = hs_tick slept (s\<lparr>hs_polls := polls\<rparr>);
               i = hs_samples s;
               s = s\<lparr>hs_samples := Suc i\<rparr>
           in case watch_capture (he_host E i) of
                Inl e \<Rightarrow> (Inl (WatchFailed e), s)
              | Inr watch \<Rightarrow> (Inr (watch, detect_caller_agent (he_pats E) (he_procs E i) (he_self E)), s)))"

definition run_queued ::
  "hypervisor \<Rightarrow> 'w hp_env \<Rightarrow> spawn_request \<Rightarrow> string \<Rightarrow> 'w hp_state \<Rightarrow> (run_error + spawn_outcome) \<times> 'w hp_state" where
  "run_queued hp E req lane s =
     (case enter E s of
        (Inl e, s) \<Rightarrow> (Inl e, s)
      | (Inr (watch, agent), s) \<Rightarrow>
          (let s = hs_meters record_nocache_run s
           in case with_slot (hp_queue hp) ((he_queue E)\<lparr>qe_start := cs_now (hs_cache s)\<rparr>) (sr_queue_priority req)
                     (spawn_process_sync (he_spawn E) req)
                     \<lparr>ss_obs = 0, ss_elapsed = 0, ss_waiting = hs_lanes s lane, ss_meters = hs_slots s\<rparr>
                     (cs_world (hs_cache s)) of
                (res, q, w) \<Rightarrow>
                  (let s = hs_tick (ss_elapsed q)
                             (s\<lparr>hs_lanes := (hs_lanes s)(lane := ss_waiting q), hs_slots := ss_meters q,
                                hs_cache := (hs_cache s)\<lparr>cs_world := w\<rparr>\<rparr>)
                   in case res of
                        Inl e \<Rightarrow> (Inl (QueueFailed e), s)
                      | Inr ot \<Rightarrow>
                          (Inr (with_detected_agent agent (with_resource_watch watch
                             \<lparr>ot_exit_code = ot_exit_code ot, ot_stdout = ot_stdout ot, ot_stderr = ot_stderr ot,
                              ot_from_cache = False, ot_resource_watch = watch_default, ot_detected_agent = None,
                              ot_fuse_session_id = None, ot_fuse_backing = None, ot_fuse_mountpoint = None\<rparr>)), s))))"

definition coalesce_via_lock ::
  "hypervisor \<Rightarrow> 'w hp_env \<Rightarrow> string \<Rightarrow> spawn_request \<Rightarrow> 'w cache_state
     \<Rightarrow> (cache_error + cached_result \<times> coalesce_hit_kind) \<times> 'w cache_state" where
  "coalesce_via_lock hp E key effective_req =
     with_lock_detailed (hp_cache hp) (he_cache E) key
       (\<lambda>w. case spawn_process_sync (he_spawn E) effective_req w of
              (Inl e, w) \<Rightarrow> (Inl e, w)
            | (Inr ot, w) \<Rightarrow>
                (Inr \<lparr>cr_exit_code = ot_exit_code ot, cr_stdout = ot_stdout ot, cr_stderr = ot_stderr ot\<rparr>, w))"

definition request_key :: "hypervisor \<Rightarrow> 'w hp_env \<Rightarrow> spawn_request \<Rightarrow> string" where
  "request_key hp E req =
     (let argv_for_key =
            (if hc_semantic (hp_config hp)
             then semantic_normalize_argv (he_is_dir E) (he_canonicalize E) (sr_argv req) (sr_cwd req)
             else sr_argv req)
      in command_key_with_mode (he_sha256 E) (he_git E) (hc_cache_key_mode (hp_config hp)) argv_for_key
           (sr_cwd req) (sr_env req))"

definition note_hit :: "string \<Rightarrow> spawn_request \<Rightarrow> 'w hp_state \<Rightarrow> 'w hp_state" where
  "note_hit key req s =
     s\<lparr>hs_tracker := record_hit (cs_now (hs_cache s)) key (sr_argv req) (sr_cwd req) (sr_env req) (hs_tracker s)\<rparr>"

text \<open>The miss: mount, run under the lock with the mount point as the directory, and drop the guard.\<close>

definition run_miss_path ::
  "hypervisor \<Rightarrow> 'w hp_env \<Rightarrow> spawn_request \<Rightarrow> string \<Rightarrow> resource_watch_sample \<Rightarrow> detected_agent option
     \<Rightarrow> 'w hp_state \<Rightarrow> (run_error + spawn_outcome) \<times> 'w hp_state" where
  "run_miss_path hp E req key watch agent s =
     (let fuse_session = fuse_session_id_for_command_key key;
          (guard, h, waited) = try_mount (he_mount E) (sr_cwd req) (hs_fuse s);
          s = hs_tick waited (s\<lparr>hs_fuse := h\<rparr>);
          effective_req = (case fg_mountpoint guard of None \<Rightarrow> req | Some mp \<Rightarrow> req\<lparr>sr_cwd := mp\<rparr>)
      in case coalesce_via_lock hp E key effective_req (hs_cache s) of
           (Inl e, c) \<Rightarrow>
             (Inl (CacheFailed e), s\<lparr>hs_cache := c, hs_fuse := drop_guard (he_mount E) guard (hs_fuse s)\<rparr>)
         | (Inr (cached, hit_kind), c) \<Rightarrow>
             (let s = s\<lparr>hs_cache := c\<rparr>;
                  s = (if shared_from_cache hit_kind then note_hit key req s else s)
              in (Inr (with_detected_agent agent (with_resource_watch watch
                    \<lparr>ot_exit_code = cr_exit_code cached, ot_stdout = cr_stdout cached, ot_stderr = cr_stderr cached,
                     ot_from_cache = shared_from_cache hit_kind, ot_resource_watch = watch_default,
                     ot_detected_agent = None,
                     ot_fuse_session_id = map_option (\<lambda>_. fuse_session) (fg_mountpoint guard),
                     ot_fuse_backing = map_option (\<lambda>_. sr_cwd req) (fg_mountpoint guard),
                     ot_fuse_mountpoint = fg_mountpoint guard\<rparr>)),
                  s\<lparr>hs_fuse := drop_guard (he_mount E) guard (hs_fuse s)\<rparr>)))"

definition hp_run ::
  "hypervisor \<Rightarrow> 'w hp_env \<Rightarrow> spawn_request \<Rightarrow> 'w hp_state \<Rightarrow> (run_error + spawn_outcome) \<times> 'w hp_state" where
  "hp_run hp E req s =
     (case enter E s of
        (Inl e, s) \<Rightarrow> (Inl e, s)
      | (Inr (watch, agent), s) \<Rightarrow>
          if has_nocache_arg (sr_argv req) (hp_nocache_args hp)
          then run_queued hp E req (queue_lane_from_argv (sr_argv req)) s
          else
            (let key = request_key hp E req
             in case cs_lookup (hp_cache hp) (he_cache E) (hs_cache s) key of
                  Inl e \<Rightarrow> (Inl (CacheFailed e), s)
                | Inr (Some cached) \<Rightarrow>
                    (Inr (with_detected_agent agent (with_resource_watch watch (outcome_of_cached cached))),
                     note_hit key req (hs_meters record_coalesce_lookup_hit s))
                | Inr None \<Rightarrow> run_miss_path hp E req key watch agent s))"

section \<open>Lemmas\<close>

lemma wait_returns:
  assumes "0 < poll"
  shows "\<exists>r t. wait_fuse_mount_ready probe fail_rx timeout poll i waited = Some (r, t)
    \<and> t \<le> max waited (timeout + poll)
    \<and> (r = Inr () \<longrightarrow> (\<exists>k \<ge> i. probe k \<and> (\<forall>j. i \<le> j \<and> j < k \<longrightarrow> \<not> probe j \<and> fail_rx j = None)))"
proof (induction "timeout - waited" arbitrary: i waited rule: less_induct)
  case less
  note step = wait_fuse_mount_ready.simps [of probe fail_rx timeout poll i waited]
  show ?case
  proof (cases "waited < timeout \<and> \<not> probe i \<and> fail_rx i = None")
    case True
    then have "timeout - (waited + poll) < timeout - waited" using assms by arith
    from less [OF this, of "Suc i"] obtain r t where
      rt: "wait_fuse_mount_ready probe fail_rx timeout poll (Suc i) (waited + poll) = Some (r, t)"
        "t \<le> max (waited + poll) (timeout + poll)"
        "r = Inr () \<longrightarrow> (\<exists>k \<ge> Suc i. probe k \<and> (\<forall>j. Suc i \<le> j \<and> j < k \<longrightarrow> \<not> probe j \<and> fail_rx j = None))"
      by blast
    have "r = Inr () \<longrightarrow> (\<exists>k \<ge> i. probe k \<and> (\<forall>j. i \<le> j \<and> j < k \<longrightarrow> \<not> probe j \<and> fail_rx j = None))"
    proof
      assume "r = Inr ()"
      with rt(3) obtain k where k: "Suc i \<le> k" "probe k" "\<forall>j. Suc i \<le> j \<and> j < k \<longrightarrow> \<not> probe j \<and> fail_rx j = None"
        by blast
      have "\<not> probe j \<and> fail_rx j = None" if "i \<le> j \<and> j < k" for j
        using that True k(3) by (cases "j = i") auto
      with k show "\<exists>k \<ge> i. probe k \<and> (\<forall>j. i \<le> j \<and> j < k \<longrightarrow> \<not> probe j \<and> fail_rx j = None)"
        by (intro exI [of _ k]) auto
    qed
    moreover have "t \<le> max waited (timeout + poll)" using rt(2) True by simp
    ultimately show ?thesis using step True rt(1) by simp
  next
    case False
    then show ?thesis using step by (auto split: option.splits)
  qed
qed

lemma poll_pos: "0 < FUSE_READY_POLL"
  by (simp add: FUSE_READY_POLL_def time_defs)

lemma removeAll_add_name: "n \<notin> set ns \<Longrightarrow> removeAll n (add_name n ns) = ns"
  by (simp add: add_name_def)

text \<open>A mount and its drop leave the host as it was.\<close>

lemma mount_then_drop:
  assumes "try_mount E backing h = (g, h', t)"
    and "\<not> me_remove_fails E" and "\<not> me_unmount_fails E"
    and "marker_path E backing \<notin> set (fh_markers h)" and "\<forall>mp. me_tempdir E = Some mp \<longrightarrow> mp \<notin> set (fh_mounts h)"
  shows "drop_guard E g h' = h"
proof -
  obtain r u where w: "wait_fuse_mount_ready (me_probe E) (me_fail_rx E) FUSE_READY_TIMEOUT FUSE_READY_POLL 0 0 = Some (r, u)"
    using wait_returns [OF poll_pos] by blast
  show ?thesis
    using assms
    by (auto simp: try_mount_def w Let_def no_op_guard_def drop_guard_def drop_marker_def force_unmount_def
        removeAll_add_name split: if_splits option.splits sum.splits)
qed

lemma try_mount_ready:
  assumes "try_mount E backing h = (g, h', t)" and "fg_mountpoint g = Some mp"
  shows "me_tempdir E = Some mp \<and> (\<exists>k. me_probe E k) \<and> t \<le> FUSE_READY_TIMEOUT + FUSE_READY_POLL"
proof -
  obtain r u where w: "wait_fuse_mount_ready (me_probe E) (me_fail_rx E) FUSE_READY_TIMEOUT FUSE_READY_POLL 0 0 = Some (r, u)"
    "u \<le> FUSE_READY_TIMEOUT + FUSE_READY_POLL" "r = Inr () \<longrightarrow> (\<exists>k. me_probe E k)"
    using wait_returns [OF poll_pos, of "me_probe E" "me_fail_rx E" FUSE_READY_TIMEOUT 0 0] by auto
  show ?thesis
    using assms w(2,3)
    by (auto simp: try_mount_def w(1) Let_def no_op_guard_def split: if_splits option.splits sum.splits)
qed

text \<open>Entering changes the clock and the counters of polls and samples only.\<close>

lemma enter_state:
  assumes "enter E s = (r, s')"
  shows "\<exists>t p n. s' = hs_tick t (s\<lparr>hs_polls := p, hs_samples := n\<rparr>)"
proof -
  obtain x p t where g: "thermal_gate_check (he_gate E) (hs_polls s) = (x, p, t)" by (metis prod.collapse)
  have "s' = hs_tick t (s\<lparr>hs_polls := p, hs_samples := hs_samples s\<rparr>)
      \<or> s' = hs_tick t (s\<lparr>hs_polls := p, hs_samples := Suc (hs_samples s)\<rparr>)"
    using assms by (auto simp: enter_def g Let_def hs_tick_def split: sum.splits)
  then show ?thesis by blast
qed

lemma hs_tick_simps [simp]:
  "hs_fuse (hs_tick t s) = hs_fuse s" "hs_lanes (hs_tick t s) = hs_lanes s" "hs_tracker (hs_tick t s) = hs_tracker s"
  "hs_polls (hs_tick t s) = hs_polls s" "hs_samples (hs_tick t s) = hs_samples s" "hs_slots (hs_tick t s) = hs_slots s"
  "cs_dir (hs_cache (hs_tick t s)) = cs_dir (hs_cache s)" "cs_world (hs_cache (hs_tick t s)) = cs_world (hs_cache s)"
  "cs_meters (hs_cache (hs_tick t s)) = cs_meters (hs_cache s)" "cs_now (hs_cache (hs_tick t s)) = cs_now (hs_cache s) + t"
  by (simp_all add: hs_tick_def)

lemma hs_meters_simps [simp]:
  "hs_fuse (hs_meters f s) = hs_fuse s" "hs_lanes (hs_meters f s) = hs_lanes s"
  "cs_dir (hs_cache (hs_meters f s)) = cs_dir (hs_cache s)" "cs_world (hs_cache (hs_meters f s)) = cs_world (hs_cache s)"
  "cs_meters (hs_cache (hs_meters f s)) = f (cs_meters (hs_cache s))" "cs_now (hs_cache (hs_meters f s)) = cs_now (hs_cache s)"
  by (simp_all add: hs_meters_def)

lemma note_hit_simps [simp]:
  "hs_fuse (note_hit key req s) = hs_fuse s" "hs_cache (note_hit key req s) = hs_cache s"
  by (simp_all add: note_hit_def)

lemma enter_kept:
  assumes "enter E s = (r, s')"
  shows "hs_fuse s' = hs_fuse s" "hs_lanes s' = hs_lanes s" "cs_dir (hs_cache s') = cs_dir (hs_cache s)"
    "cs_world (hs_cache s') = cs_world (hs_cache s)" "cs_meters (hs_cache s') = cs_meters (hs_cache s)"
  using enter_state [OF assms] by auto

lemma spawn_shape:
  "spawn_process_sync sys req w = (Inr ot, w') \<Longrightarrow>
    \<not> ot_from_cache ot \<and> ot_fuse_session_id ot = None \<and> ot_fuse_backing ot = None \<and> ot_fuse_mountpoint ot = None"
  by (auto simp: spawn_process_sync_def split: list.splits prod.splits sum.splits)

text \<open>The outcome a spawn has for a request, and the request as it runs on a mount point.\<close>

definition same_output :: "spawn_outcome \<Rightarrow> spawn_outcome \<Rightarrow> bool" where
  "same_output a b \<longleftrightarrow> cached_of_outcome a = cached_of_outcome b"

definition on_mount :: "string option \<Rightarrow> spawn_request \<Rightarrow> spawn_request" where
  "on_mount mp req = (case mp of None \<Rightarrow> req | Some p \<Rightarrow> req\<lparr>sr_cwd := p\<rparr>)"

lemma run_queued_effect:
  assumes "run_queued hp E req lane s = (res, s')"
  shows "(cs_world (hs_cache s') = cs_world (hs_cache s)
        \<or> cs_world (hs_cache s') = snd (spawn_process_sync (he_spawn E) req (cs_world (hs_cache s))))
    \<and> cs_dir (hs_cache s') = cs_dir (hs_cache s) \<and> hs_fuse s' = hs_fuse s
    \<and> (\<forall>ot. res = Inr ot \<longrightarrow> \<not> ot_from_cache ot \<and> ot_fuse_session_id ot = None
         \<and> ot_fuse_backing ot = None \<and> ot_fuse_mountpoint ot = None
         \<and> (\<exists>ot'. spawn_process_sync (he_spawn E) req (cs_world (hs_cache s)) = (Inr ot', cs_world (hs_cache s'))
              \<and> same_output ot ot'))
    \<and> (\<forall>e. res = Inl (Refused e) \<or> (\<exists>x. res = Inl (WatchFailed x)) \<longrightarrow> cs_world (hs_cache s') = cs_world (hs_cache s))"
proof -
  obtain r s1 where en: "enter E s = (r, s1)" by fastforce
  note kept = enter_kept [OF en]
  show ?thesis
  proof (cases r)
    case (Inl e)
    with assms en kept show ?thesis by (auto simp: run_queued_def)
  next
    case (Inr wa)
    obtain watch agent where wa: "wa = (watch, agent)" by fastforce
    let ?s = "hs_meters record_nocache_run s1"
    obtain x q w where slot: "with_slot (hp_queue hp) ((he_queue E)\<lparr>qe_start := cs_now (hs_cache ?s)\<rparr>) (sr_queue_priority req)
        (spawn_process_sync (he_spawn E) req)
        \<lparr>ss_obs = 0, ss_elapsed = 0, ss_waiting = hs_lanes ?s lane, ss_meters = hs_slots ?s\<rparr>
        (cs_world (hs_cache ?s)) = (x, q, w)" by (metis prod.collapse)
    from with_slot_effect [OF slot] kept
    have eff: "w = cs_world (hs_cache s) \<or> w = snd (spawn_process_sync (he_spawn E) req (cs_world (hs_cache s)))"
      "\<forall>v. x = Inr v \<longrightarrow> spawn_process_sync (he_spawn E) req (cs_world (hs_cache s)) = (Inr v, w)" by simp_all
    have res: "res = (case x of Inl e \<Rightarrow> Inl (QueueFailed e) | Inr ot \<Rightarrow> Inr (with_detected_agent agent
          (with_resource_watch watch ((outcome_of_cached (cached_of_outcome ot))\<lparr>ot_from_cache := False\<rparr>))))"
      and s': "cs_world (hs_cache s') = w" "cs_dir (hs_cache s') = cs_dir (hs_cache s1)" "hs_fuse s' = hs_fuse s1"
      using assms
      by (simp_all only: run_queued_def en Inr wa prod.case sum.case Let_def slot)
        (auto simp: outcome_of_cached_def cached_of_outcome_def split: sum.splits)
    show ?thesis
    proof (cases x)
      case (Inl e)
      with res s' eff kept show ?thesis by auto
    next
      case (Inr ot)
      with res s' eff kept show ?thesis
        by (auto simp: with_detected_agent_def with_resource_watch_def same_output_def outcome_of_cached_def
            cached_of_outcome_def)
    qed
  qed
qed

lemma run_miss_path_effect:
  assumes "run_miss_path hp E req key watch agent s = (res, s')"
    and "try_mount (he_mount E) (sr_cwd req) (hs_fuse s) = (g, h, t)"
  shows "(cs_world (hs_cache s') = cs_world (hs_cache s)
        \<or> cs_world (hs_cache s') = snd (spawn_process_sync (he_spawn E) (on_mount (fg_mountpoint g) req) (cs_world (hs_cache s))))
    \<and> hs_fuse s' = drop_guard (he_mount E) g h
    \<and> (\<forall>e. res = Inl e \<longrightarrow> (\<exists>x. e = CacheFailed x))
    \<and> (\<forall>ot. res = Inr ot \<longrightarrow>
         ot_fuse_mountpoint ot = fg_mountpoint g
         \<and> ot_fuse_session_id ot = map_option (\<lambda>_. fuse_session_id_for_command_key key) (fg_mountpoint g)
         \<and> ot_fuse_backing ot = map_option (\<lambda>_. sr_cwd req) (fg_mountpoint g)
         \<and> (if ot_from_cache ot then cs_world (hs_cache s') = cs_world (hs_cache s)
            else \<exists>ot'. spawn_process_sync (he_spawn E) (on_mount (fg_mountpoint g) req) (cs_world (hs_cache s))
                          = (Inr ot', cs_world (hs_cache s')) \<and> same_output ot ot'))"
proof -
  let ?f = "\<lambda>w. case spawn_process_sync (he_spawn E) (on_mount (fg_mountpoint g) req) w of
              (Inl e, w) \<Rightarrow> (Inl e, w)
            | (Inr ot, w) \<Rightarrow>
                (Inr \<lparr>cr_exit_code = ot_exit_code ot, cr_stdout = ot_stdout ot, cr_stderr = ot_stderr ot\<rparr>, w)"
  let ?c = "hs_cache (hs_tick t (s\<lparr>hs_fuse := h\<rparr>))"
  obtain x c where lock: "with_lock_detailed (hp_cache hp) (he_cache E) key ?f ?c = (x, c)" by fastforce
  have via: "coalesce_via_lock hp E key (case fg_mountpoint g of None \<Rightarrow> req | Some mp \<Rightarrow> req\<lparr>sr_cwd := mp\<rparr>) ?c = (x, c)"
    using lock by (simp add: coalesce_via_lock_def on_mount_def)
  have world: "cs_world ?c = cs_world (hs_cache s)" by simp
  note eff = with_lock_detailed_effect [OF lock, unfolded world]
  have f: "snd (?f w) = snd (spawn_process_sync (he_spawn E) (on_mount (fg_mountpoint g) req) w)" for w
    by (auto split: prod.splits sum.splits)
  show ?thesis
  proof (cases x)
    case (Inl e)
    have "res = Inl (CacheFailed e)" "hs_cache s' = c" "hs_fuse s' = drop_guard (he_mount E) g h"
      using assms(1) via Inl by (auto simp: run_miss_path_def assms(2) Let_def)
    with conjunct1 [OF eff] show ?thesis unfolding f by simp
  next
    case (Inr ck)
    obtain r k where ck: "ck = (r, k)" by fastforce
    have s': "hs_cache s' = c" "hs_fuse s' = drop_guard (he_mount E) g h"
      using assms(1) via by (auto simp: run_miss_path_def assms(2) Let_def Inr ck split: if_splits)
    have ot: "res = Inr (with_detected_agent agent (with_resource_watch watch
        \<lparr>ot_exit_code = cr_exit_code r, ot_stdout = cr_stdout r, ot_stderr = cr_stderr r,
         ot_from_cache = shared_from_cache k, ot_resource_watch = watch_default, ot_detected_agent = None,
         ot_fuse_session_id = map_option (\<lambda>_. fuse_session_id_for_command_key key) (fg_mountpoint g),
         ot_fuse_backing = map_option (\<lambda>_. sr_cwd req) (fg_mountpoint g), ot_fuse_mountpoint = fg_mountpoint g\<rparr>))"
      using assms(1) via by (auto simp: run_miss_path_def assms(2) Let_def Inr ck)
    from eff have e: "if shared_from_cache k then cs_world c = cs_world (hs_cache s)
        else ?f (cs_world (hs_cache s)) = (Inr r, cs_world c)"
      and w: "cs_world c = cs_world (hs_cache s) \<or> cs_world c = snd (?f (cs_world (hs_cache s)))"
      by (auto simp: Inr ck)
    show ?thesis
    proof (cases "shared_from_cache k")
      case True
      with e show ?thesis unfolding s' ot by (simp add: with_detected_agent_def with_resource_watch_def)
    next
      case False
      with e obtain ot' where "spawn_process_sync (he_spawn E) (on_mount (fg_mountpoint g) req) (cs_world (hs_cache s))
          = (Inr ot', cs_world c)" "cached_of_outcome ot' = r"
        by (auto simp: cached_of_outcome_def split: prod.splits sum.splits)
      with False show ?thesis
        unfolding s' ot
        by (simp add: with_detected_agent_def with_resource_watch_def same_output_def) (simp add: cached_of_outcome_def)
    qed
  qed
qed

text \<open>What a run amounts to once the gate and the sample have let it pass.\<close>

lemma run_entered:
  assumes "enter E s = (Inr (watch, agent), s1)"
  shows "hp_run hp E req s =
    (if has_nocache_arg (sr_argv req) (hp_nocache_args hp)
     then run_queued hp E req (queue_lane_from_argv (sr_argv req)) s1
     else case cs_lookup (hp_cache hp) (he_cache E) (hs_cache s1) (request_key hp E req) of
            Inl e \<Rightarrow> (Inl (CacheFailed e), s1)
          | Inr (Some cached) \<Rightarrow>
              (Inr (with_detected_agent agent (with_resource_watch watch (outcome_of_cached cached))),
               note_hit (request_key hp E req) req (hs_meters record_coalesce_lookup_hit s1))
          | Inr None \<Rightarrow> run_miss_path hp E req (request_key hp E req) watch agent s1)"
  by (simp add: hp_run_def assms Let_def)

lemma run_not_entered: "enter E s = (Inl e, s1) \<Longrightarrow> hp_run hp E req s = (Inl e, s1)"
  by (simp add: hp_run_def)

lemma enter_Inl: "enter E s = (Inl e, s1) \<Longrightarrow> (\<exists>x. e = Refused x) \<or> (\<exists>x. e = WatchFailed x)"
  by (auto simp: enter_def Let_def split: prod.splits sum.splits)

lemma run_cases [consumes 1, case_names stopped queued broken hit miss]:
  assumes "hp_run hp E req s = (res, s')"
  obtains e s1 where "enter E s = (Inl e, s1)" "res = Inl e" "s' = s1"
  | watch agent s1 where "enter E s = (Inr (watch, agent), s1)" "has_nocache_arg (sr_argv req) (hp_nocache_args hp)"
      "run_queued hp E req (queue_lane_from_argv (sr_argv req)) s1 = (res, s')"
  | watch agent s1 e where "enter E s = (Inr (watch, agent), s1)" "\<not> has_nocache_arg (sr_argv req) (hp_nocache_args hp)"
      "res = Inl (CacheFailed e)" "s' = s1"
  | watch agent s1 c where "enter E s = (Inr (watch, agent), s1)" "\<not> has_nocache_arg (sr_argv req) (hp_nocache_args hp)"
      "res = Inr (with_detected_agent agent (with_resource_watch watch (outcome_of_cached c)))"
      "s' = note_hit (request_key hp E req) req (hs_meters record_coalesce_lookup_hit s1)"
  | watch agent s1 where "enter E s = (Inr (watch, agent), s1)" "\<not> has_nocache_arg (sr_argv req) (hp_nocache_args hp)"
      "run_miss_path hp E req (request_key hp E req) watch agent s1 = (res, s')"
proof -
  obtain r s1 where en: "enter E s = (r, s1)" by fastforce
  show ?thesis
  proof (cases r)
    case (Inl e)
    with en assms that(1) show ?thesis by (simp add: run_not_entered)
  next
    case (Inr wa)
    obtain watch agent where "wa = (watch, agent)" by fastforce
    with en Inr have en: "enter E s = (Inr (watch, agent), s1)" by simp
    show ?thesis
    proof (cases "has_nocache_arg (sr_argv req) (hp_nocache_args hp)")
      case True
      with assms that(2) [OF en] show ?thesis by (simp add: run_entered [OF en])
    next
      case False
      note run = assms [unfolded run_entered [OF en] if_not_P [OF False]]
      show ?thesis
      proof (cases "cs_lookup (hp_cache hp) (he_cache E) (hs_cache s1) (request_key hp E req)")
        case (Inl e)
        with run have "res = Inl (CacheFailed e)" "s' = s1" by auto
        then show ?thesis by (rule that(3) [OF en False])
      next
        case (Inr x)
        with run that(4,5) [OF en False] show ?thesis by (cases x) auto
      qed
    qed
  qed
qed

section \<open>Properties\<close>

text \<open>
  C17: a run starts the command at most once, in its own directory or on the mount point. It
  starts nothing when the gate refuses or the sample fails. An outcome reported as coming from
  the cache was not run, any other outcome is the output of the process that was started. A
  mutating command never touches the cache. The three FUSE fields are set together, and only
  when the mount was seen to be ready.
\<close>

theorem run_is_safe:
  assumes "hp_run hp E req s = (res, s')"
  shows "\<exists>mp. (\<forall>p. mp = Some p \<longrightarrow> me_tempdir (he_mount E) = Some p \<and> (\<exists>k. me_probe (he_mount E) k))
    \<and> (let spawn = spawn_process_sync (he_spawn E) (on_mount mp req); w = cs_world (hs_cache s); w' = cs_world (hs_cache s')
       in (w' = w \<or> w' = snd (spawn w))
        \<and> (\<forall>e. res = Inl (Refused e) \<longrightarrow> w' = w) \<and> (\<forall>e. res = Inl (WatchFailed e) \<longrightarrow> w' = w)
        \<and> (\<forall>ot. res = Inr ot \<longrightarrow>
             (if ot_from_cache ot then w' = w else \<exists>ot'. spawn w = (Inr ot', w') \<and> same_output ot ot')
             \<and> (if fuse_intercept_active ot
                then mp \<noteq> None \<and> ot_fuse_mountpoint ot = mp \<and> ot_fuse_backing ot = Some (sr_cwd req)
                else ot_fuse_mountpoint ot = None \<and> ot_fuse_backing ot = None)))
    \<and> (has_nocache_arg (sr_argv req) (hp_nocache_args hp) \<longrightarrow>
         cs_dir (hs_cache s') = cs_dir (hs_cache s) \<and> (\<forall>ot. res = Inr ot \<longrightarrow> \<not> ot_from_cache ot))"
  using assms
proof (cases rule: run_cases)
  case (stopped e s1)
  with enter_kept [OF stopped(1)] show ?thesis by (intro exI [of _ None]) (auto simp: Let_def on_mount_def)
next
  case (queued watch agent s1)
  note eff = run_queued_effect [OF queued(3)]
  show ?thesis
    using eff enter_kept [OF queued(1)]
    by (intro exI [of _ None]) (simp add: Let_def on_mount_def fuse_intercept_active_def)
next
  case (broken watch agent s1 e)
  with enter_kept [OF broken(1)] show ?thesis by (intro exI [of _ None]) (auto simp: Let_def on_mount_def)
next
  case (hit watch agent s1 c)
  with enter_kept [OF hit(1)] show ?thesis
    by (intro exI [of _ None])
      (auto simp: Let_def on_mount_def with_detected_agent_def with_resource_watch_def outcome_of_cached_def
        fuse_intercept_active_def)
next
  case (miss watch agent s1)
  obtain g h t where m: "try_mount (he_mount E) (sr_cwd req) (hs_fuse s1) = (g, h, t)" by (metis prod.collapse)
  note eff = run_miss_path_effect [OF miss(3) m]
  have ready: "\<forall>p. fg_mountpoint g = Some p \<longrightarrow> me_tempdir (he_mount E) = Some p \<and> (\<exists>k. me_probe (he_mount E) k)"
    using try_mount_ready [OF m] by blast
  show ?thesis
    using eff ready enter_kept [OF miss(1)] miss(2)
    by (intro exI [of _ "fg_mountpoint g"]) (simp add: Let_def fuse_intercept_active_def, cases "fg_mountpoint g", auto)
qed


text \<open>A gate that refuses, and one that lets pass at once.\<close>

lemma enter_refused:
  assumes "\<forall>i < THERMAL_MAX_RETRIES. he_gate E (hs_polls s + i) = Refuse"
  shows "\<exists>t. enter E s = (Inl (Refused ThermallyThrottled), hs_tick t (s\<lparr>hs_polls := hs_polls s + THERMAL_MAX_RETRIES\<rparr>))"
proof -
  have "thermal_gate_check (he_gate E) (hs_polls s) = (Inl ThermallyThrottled, hs_polls s + 5, from_secs 8)"
    using assms by (intro thermal_gate_check_refused) (simp add: THERMAL_MAX_RETRIES_def)
  then show ?thesis by (auto simp: enter_def THERMAL_MAX_RETRIES_def)
qed

lemma enter_passes:
  assumes "he_gate E (hs_polls s) \<noteq> Refuse" and "watch_capture (he_host E (hs_samples s)) = Inr watch"
  shows "enter E s = (Inr (watch, detect_caller_agent (he_pats E) (he_procs E (hs_samples s)) (he_self E)),
    s\<lparr>hs_polls := Suc (hs_polls s), hs_samples := Suc (hs_samples s)\<rparr>)"
proof -
  have "thermal_gate_check (he_gate E) (hs_polls s) = (Inr (), Suc (hs_polls s), 0)"
    using assms(1) by (cases "he_gate E (hs_polls s)") (simp_all add: thermal_gate_check_def thermal_gate_loop.simps)
  with assms(2) show ?thesis by (simp add: enter_def hs_tick_def Let_def)
qed

text \<open>
  When the gate stays at refuse the run ends with an error that says so after all retries;
  no process is started, and cache, lanes and mounts stay as they are.
\<close>

theorem refused_run:
  assumes "\<forall>i < THERMAL_MAX_RETRIES. he_gate E (hs_polls s + i) = Refuse"
  shows "\<exists>s'. hp_run hp E req s = (Inl (Refused ThermallyThrottled), s')
    \<and> hs_polls s' = hs_polls s + THERMAL_MAX_RETRIES \<and> cs_world (hs_cache s') = cs_world (hs_cache s)
    \<and> cs_dir (hs_cache s') = cs_dir (hs_cache s) \<and> hs_lanes s' = hs_lanes s \<and> hs_fuse s' = hs_fuse s"
proof -
  obtain t where "enter E s = (Inl (Refused ThermallyThrottled), hs_tick t (s\<lparr>hs_polls := hs_polls s + THERMAL_MAX_RETRIES\<rparr>))"
    using enter_refused [OF assms] by blast
  from run_not_entered [OF this] show ?thesis by simp
qed

text \<open>
  After a run that started the command and got exit code 0, the same request within the
  expiry time is answered from the cache with the same output, and nothing is started.
\<close>

theorem second_run_is_served:
  assumes run: "hp_run hp E req s = (Inr ot, s1)" and "\<not> ot_from_cache ot" and "ot_exit_code ot = 0"
    and cached: "\<not> has_nocache_arg (sr_argv req) (hp_nocache_args hp)"
    and "ce_fails (he_cache E) = no_faults"
    and "ce_from_slice (he_cache E) (ce_to_vec (he_cache E) (cached_of_outcome ot)) = Some (cached_of_outcome ot)"
    and "dt < cc_ttl (hp_cache hp)"
    and "he_gate E (hs_polls s1) \<noteq> Refuse" and "watch_capture (he_host E (hs_samples s1)) = Inr watch"
  shows "\<exists>ot' s2. hp_run hp E req (hs_tick dt s1) = (Inr ot', s2)
    \<and> ot_from_cache ot' \<and> same_output ot' ot \<and> cs_world (hs_cache s2) = cs_world (hs_cache s1)
    \<and> \<not> fuse_intercept_active ot'"
proof -
  let ?key = "request_key hp E req"
  have look: "cc_lookup (hp_cache hp) (ce_from_slice (he_cache E)) no_faults (cs_now (hs_cache s1) + dt)
      (cs_dir (hs_cache s1)) ?key = Inr (Some (cached_of_outcome ot))"
    using run
  proof (cases rule: run_cases)
    case (miss wa ag s0)
    obtain g h t where m: "try_mount (he_mount E) (sr_cwd req) (hs_fuse s0) = (g, h, t)" by (metis prod.collapse)
    let ?c = "hs_cache (hs_tick t (s0\<lparr>hs_fuse := h\<rparr>))"
    obtain x c where via: "coalesce_via_lock hp E ?key (case fg_mountpoint g of None \<Rightarrow> req | Some mp \<Rightarrow> req\<lparr>sr_cwd := mp\<rparr>) ?c = (x, c)"
      by fastforce
    have "\<exists>r k. x = Inr (r, k) \<and> hs_cache s1 = c \<and> cached_of_outcome ot = r \<and> ot_from_cache ot = shared_from_cache k"
      using miss(3) via
      by (cases x) (auto simp: run_miss_path_def m Let_def with_detected_agent_def with_resource_watch_def
          cached_of_outcome_def split: if_splits)
    then obtain r k where rk: "x = Inr (r, k)" "hs_cache s1 = c" "cached_of_outcome ot = r" "ot_from_cache ot = shared_from_cache k"
      by blast
    with assms(2) have "k = Miss" by (cases k) (simp_all add: shared_from_cache_def)
    moreover have "cr_exit_code r = 0" using rk(3) assms(3) by (auto simp: cached_of_outcome_def)
    ultimately show ?thesis
      using via rk assms(6,7) unfolding coalesce_via_lock_def
      by (intro miss_is_cached [of _ "he_cache E" _ _ ?c]) simp_all
  qed (use assms(2) cached in \<open>simp_all add: with_detected_agent_def with_resource_watch_def outcome_of_cached_def\<close>)
  have en: "enter E (hs_tick dt s1) = (Inr (watch, detect_caller_agent (he_pats E) (he_procs E (hs_samples s1)) (he_self E)),
      (hs_tick dt s1)\<lparr>hs_polls := Suc (hs_polls s1), hs_samples := Suc (hs_samples s1)\<rparr>)"
    using enter_passes [of E "hs_tick dt s1" watch] assms(8,9) by simp
  show ?thesis
    unfolding run_entered [OF en] if_not_P [OF cached]
    by (simp add: cs_lookup_def assms(5) look with_detected_agent_def with_resource_watch_def outcome_of_cached_def
        same_output_def cached_of_outcome_def fuse_intercept_active_def)
qed

text \<open>
  A result that a sibling stored while the caller was waiting for the lock is reported as coming
  from the cache together with a FUSE session, backing directory and mount point, although these
  fields are documented to be empty for cache hits.
\<close>

theorem shared_result_with_session:
  assumes "enter E s = (Inr (watch, agent), s1)"
    and "\<not> has_nocache_arg (sr_argv req) (hp_nocache_args hp)"
    and "cs_lookup (hp_cache hp) (he_cache E) (hs_cache s1) (request_key hp E req) = Inr None"
    and "try_mount (he_mount E) (sr_cwd req) (hs_fuse s1) = (g, h, t)" and "fg_mountpoint g = Some mp"
    and "coalesce_via_lock hp E (request_key hp E req) (req\<lparr>sr_cwd := mp\<rparr>) (hs_cache (hs_tick t (s1\<lparr>hs_fuse := h\<rparr>)))
           = (Inr (r, LockRecheck), c)"
  shows "\<exists>ot s'. hp_run hp E req s = (Inr ot, s') \<and> ot_from_cache ot \<and> fuse_intercept_active ot
    \<and> ot_fuse_mountpoint ot = Some mp \<and> cached_of_outcome ot = r"
  using assms
  by (simp add: run_entered run_miss_path_def Let_def shared_from_cache_def with_detected_agent_def
      with_resource_watch_def fuse_intercept_active_def cached_of_outcome_def)

section \<open>A small host\<close>

text \<open>
  A host on which everything works: every process prints its number, starting at the number of
  those before it. At a lock wait another process may have stored a result.
\<close>

definition demo_host :: host_view where
  "demo_host =
     \<lparr>hv_os = MacOsX, hv_entries = (\<lambda>_. Some 3), hv_read = (\<lambda>_. None), hv_netstat = Some (Some 0, Some []),
      hv_maxrss = Some 1, hv_memory = (\<lambda>_. None), hv_loadavg = [0]\<rparr>"

definition demo_sibling :: "bool \<Rightarrow> wait_point \<Rightarrow> cache_dir \<Rightarrow> cache_dir" where
  "demo_sibling stores p d =
     (if stores \<and> p = LockWait then d\<lparr>cd_files := [(''.json'', [9], 1)]\<rparr> else d)"

definition demo_hp_env :: "thermal_decision \<Rightarrow> bool \<Rightarrow> nat hp_env" where
  "demo_hp_env decision stores =
     \<lparr>he_gate = (\<lambda>_. decision), he_host = (\<lambda>_. demo_host), he_procs = (\<lambda>_. []), he_pats = [], he_self = 7,
      he_sha256 = (\<lambda>_. []), he_git = (\<lambda>_. None), he_is_dir = (\<lambda>_. False), he_canonicalize = (\<lambda>_. None),
      he_cache = \<lparr>ce_to_vec = cr_stdout, ce_from_slice = (\<lambda>b. Some \<lparr>cr_exit_code = 0, cr_stdout = b, cr_stderr = []\<rparr>),
                  ce_fails = no_faults, ce_answers = (\<lambda>_. Locked), ce_delays = (\<lambda>_. 0),
                  ce_meanwhile = demo_sibling stores, ce_run_time = 1\<rparr>,
      he_queue = \<lparr>qe_start = 0, qe_pid = 1, qe_seq = 0, qe_root_fails = False, qe_waiting_fails = False,
            qe_create_fails = False, qe_write_fails = False, qe_publish_fails = False,
            qe_remove_fails = False, qe_others = (\<lambda>_ ns. ns), qe_read_fails = (\<lambda>_. False),
            qe_slots = (\<lambda>_ _. SlotFree), qe_delay = (\<lambda>_. 0)\<rparr>,
      he_mount = \<lparr>me_supported = True, me_tempdir = Some ''/tmp/m'', me_pid = 7, me_write_fails = False,
                  me_probe = (\<lambda>_. True), me_fail_rx = (\<lambda>_. None), me_remove_fails = False, me_unmount_fails = False\<rparr>,
      he_spawn = (\<lambda>program args cwd env w. (Inr (Some 0, [of_nat w], []), Suc w))\<rparr>"

definition demo_state :: "nat hp_state" where
  "demo_state =
     \<lparr>hs_polls = 0, hs_samples = 0,
      hs_cache = \<lparr>cs_now = 0, cs_dir = \<lparr>cd_exists = False, cd_files = []\<rparr>, cs_meters = coalesce_meters_zero, cs_world = 0\<rparr>,
      hs_lanes = (\<lambda>_. []), hs_slots = slot_queue_meters_zero, hs_tracker = st_new,
      hs_fuse = \<lparr>fh_markers = [], fh_mounts = []\<rparr>\<rparr>"

definition demo_req :: spawn_request where
  "demo_req = sr_new None [''ls''] ''/w'' []"

lemma demo_capture: "watch_capture demo_host = Inr \<lparr>rw_fd_count = 3, rw_net_rx_bytes = 0, rw_net_tx_bytes = 0, rw_mem_rss_bytes = 1, rw_load_1m = 0\<rparr>"
  by (simp add: watch_capture_def demo_host_def sample_self_fds_def sample_host_net_def sample_host_net_macos_def
      str_lines_def sample_self_rss_bytes_def sample_host_load_1m_def)

lemma demo_key: "request_key (hp_new ''/c'') (demo_hp_env d b) demo_req = []"
  by (simp add: request_key_def demo_hp_env_def command_key_with_mode_def hex_encode_def Let_def)

lemma demo_nocache: "\<not> has_nocache_arg (sr_argv demo_req) (hp_nocache_args (hp_new ''/c''))"
  by (simp add: demo_req_def sr_new_def sr_from_operator_def hp_new_def hp_with_options_def has_nocache_arg_def
      DEFAULT_NOCACHE_ARGS_def)

lemma demo_mount:
  "try_mount (he_mount (demo_hp_env d b)) ''/w'' \<lparr>fh_markers = [], fh_mounts = []\<rparr> =
    (\<lparr>fg_mountpoint = Some ''/tmp/m'', fg_readiness_marker = Some (marker_path (he_mount (demo_hp_env d b)) ''/w'')\<rparr>,
     \<lparr>fh_markers = [marker_path (he_mount (demo_hp_env d b)) ''/w''], fh_mounts = [''/tmp/m'']\<rparr>, 0)"
proof -
  have "wait_fuse_mount_ready (\<lambda>_. True) f FUSE_READY_TIMEOUT FUSE_READY_POLL 0 0 = Some (Inr (), 0)" for f
    by (subst wait_fuse_mount_ready.simps) (simp add: FUSE_READY_TIMEOUT_def time_defs)
  then show ?thesis by (simp add: try_mount_def demo_hp_env_def Let_def add_name_def)
qed

lemma demo_enter:
  "enter (demo_hp_env Allow b) demo_state =
    (Inr (\<lparr>rw_fd_count = 3, rw_net_rx_bytes = 0, rw_net_tx_bytes = 0, rw_mem_rss_bytes = 1, rw_load_1m = 0\<rparr>, None),
     demo_state\<lparr>hs_polls := 1, hs_samples := 1\<rparr>)"
proof -
  have "detect_caller_agent [] [] 7 = None"
    by (simp add: detect_caller_agent_def walk_agent_ancestors_def by_pid_def walk_loop.simps)
  then show ?thesis
    using enter_passes [of "demo_hp_env Allow b" demo_state] demo_capture
    by (simp add: demo_hp_env_def demo_state_def)
qed

lemma demo_lock: "acquire_lock_with_deadline (\<lambda>_. Locked) (\<lambda>_. 0) LOCK_DEADLINE = (Inr (), 0)"
  by (simp add: acquire_lock_with_deadline_def acquire_loop.simps)

lemma no_faults_never [simp]: "\<not> no_faults t x"
  by (simp add: no_faults_def)

lemmas demo_cache_simps =
  coalesce_via_lock_def with_lock_detailed_def ensure_root_def open_lock_def demo_lock recheck_def cs_lookup_def
  lookup_no_faults cs_wait_def cs_record_def hp_new_def hp_with_options_def cc_with_options_def DEFAULT_TTL_def
  time_defs lock_path_def entry_path_def demo_sibling_def

lemma demo_miss:
  assumes "coalesce_via_lock (hp_new ''/c'') (demo_hp_env Allow False) [] (demo_req\<lparr>sr_cwd := ''/tmp/m''\<rparr>)
      (hs_cache (hs_tick 0 (demo_state\<lparr>hs_polls := 1, hs_samples := 1, hs_fuse := h\<rparr>))) = (x, c)"
  shows "x = Inr (\<lparr>cr_exit_code = 0, cr_stdout = [0], cr_stderr = []\<rparr>, Miss)"
proof -
  obtain d' where "cc_store (hp_cache (hp_new ''/c'')) cr_stdout no_faults (Suc 0)
      \<lparr>cd_exists = True, cd_files = [(lock_path [], [], 0)]\<rparr> [] \<lparr>cr_exit_code = 0, cr_stdout = [0], cr_stderr = []\<rparr> = (Inr (), d')"
    using store_no_faults by blast
  then show ?thesis
    using assms
    by (simp add: demo_cache_simps run_miss_def demo_hp_env_def demo_state_def demo_req_def sr_new_def
        sr_from_operator_def spawn_process_sync_def hs_tick_def Let_def)
qed

lemma demo_run:
  "\<exists>ot s1. hp_run (hp_new ''/c'') (demo_hp_env Allow False) demo_req demo_state = (Inr ot, s1)
    \<and> \<not> ot_from_cache ot \<and> cached_of_outcome ot = \<lparr>cr_exit_code = 0, cr_stdout = [0], cr_stderr = []\<rparr>"
proof -
  let ?h = "\<lparr>fh_markers = [marker_path (he_mount (demo_hp_env Allow False)) ''/w''], fh_mounts = [''/tmp/m'']\<rparr>"
  obtain x c where via: "coalesce_via_lock (hp_new ''/c'') (demo_hp_env Allow False) [] (demo_req\<lparr>sr_cwd := ''/tmp/m''\<rparr>)
      (hs_cache (hs_tick 0 (demo_state\<lparr>hs_polls := 1, hs_samples := 1, hs_fuse := ?h\<rparr>))) = (x, c)" by fastforce
  note x = demo_miss [OF via]
  have look: "cs_lookup (hp_cache (hp_new ''/c'')) (he_cache (demo_hp_env Allow False)) (hs_cache (demo_state\<lparr>hs_polls := 1, hs_samples := 1\<rparr>)) [] = Inr None"
    by (simp add: cs_lookup_def demo_hp_env_def demo_state_def lookup_no_faults)
  have m: "try_mount (he_mount (demo_hp_env Allow False)) (sr_cwd demo_req) (hs_fuse demo_state) =
      (\<lparr>fg_mountpoint = Some ''/tmp/m'', fg_readiness_marker = Some (marker_path (he_mount (demo_hp_env Allow False)) ''/w'')\<rparr>, ?h, 0)"
    using demo_mount [of Allow False] by (simp add: demo_state_def demo_req_def sr_new_def sr_from_operator_def)
  show ?thesis
    unfolding run_entered [OF demo_enter] if_not_P [OF demo_nocache] demo_key look
    using via x
    by (simp add: run_miss_path_def m Let_def shared_from_cache_def with_detected_agent_def with_resource_watch_def
        cached_of_outcome_def)
qed

section \<open>Witnesses\<close>

theorem run_is_safe_witness:
  "\<exists>ot s'. hp_run (hp_new ''/c'') (demo_hp_env Allow False) demo_req demo_state = (Inr ot, s')
     \<and> (\<exists>mp ot'. spawn_process_sync (he_spawn (demo_hp_env Allow False)) (on_mount mp demo_req) (cs_world (hs_cache demo_state))
            = (Inr ot', cs_world (hs_cache s')) \<and> same_output ot ot')"
proof -
  from demo_run obtain ot s1 where run: "hp_run (hp_new ''/c'') (demo_hp_env Allow False) demo_req demo_state = (Inr ot, s1)"
    "\<not> ot_from_cache ot" by blast
  from run_is_safe [OF run(1)] obtain mp where
    "\<exists>ot'. spawn_process_sync (he_spawn (demo_hp_env Allow False)) (on_mount mp demo_req) (cs_world (hs_cache demo_state))
        = (Inr ot', cs_world (hs_cache s1)) \<and> same_output ot ot'"
    unfolding Let_def using run(2) by (elim exE conjE) (simp, blast)
  with run(1) show ?thesis by blast
qed


theorem refused_run_witness:
  "fst (hp_run (hp_new ''/c'') (demo_hp_env Refuse False) demo_req demo_state) = Inl (Refused ThermallyThrottled)"
  using refused_run [of "demo_hp_env Refuse False" demo_state "hp_new ''/c''" demo_req]
  by (auto simp: demo_hp_env_def)

theorem second_run_is_served_witness:
  "\<exists>s1 ot' s2. hp_run (hp_new ''/c'') (demo_hp_env Allow False) demo_req (hs_tick 1 s1) = (Inr ot', s2) \<and> ot_from_cache ot'
     \<and> ot_stdout ot' = [0]"
proof -
  from demo_run obtain ot s1 where run: "hp_run (hp_new ''/c'') (demo_hp_env Allow False) demo_req demo_state = (Inr ot, s1)"
    "\<not> ot_from_cache ot" "cached_of_outcome ot = \<lparr>cr_exit_code = 0, cr_stdout = [0], cr_stderr = []\<rparr>" by blast
  from run(3) have "ot_exit_code ot = 0" by (simp add: cached_of_outcome_def)
  from second_run_is_served [OF run(1,2) this demo_nocache, of 1] run(3) demo_capture
  obtain ot' s2 where "hp_run (hp_new ''/c'') (demo_hp_env Allow False) demo_req (hs_tick 1 s1) = (Inr ot', s2)"
    "ot_from_cache ot'" "same_output ot' ot"
    by (auto simp: demo_hp_env_def hp_new_def hp_with_options_def cc_with_options_def DEFAULT_TTL_def time_defs)
  moreover from this(3) run(3) have "ot_stdout ot' = [0]" by (simp add: same_output_def cached_of_outcome_def)
  ultimately show ?thesis by blast
qed

theorem shared_result_with_session_witness:
  "\<exists>ot s'. hp_run (hp_new ''/c'') (demo_hp_env Allow True) demo_req demo_state = (Inr ot, s')
     \<and> ot_from_cache ot \<and> fuse_intercept_active ot"
proof -
  let ?E = "demo_hp_env Allow True"
  let ?s = "demo_state\<lparr>hs_polls := 1, hs_samples := 1\<rparr>"
  let ?h = "\<lparr>fh_markers = [marker_path (he_mount ?E) ''/w''], fh_mounts = [''/tmp/m'']\<rparr>"
  let ?g = "\<lparr>fg_mountpoint = Some ''/tmp/m'', fg_readiness_marker = Some (marker_path (he_mount ?E) ''/w'')\<rparr>"
  have look: "cs_lookup (hp_cache (hp_new ''/c'')) (he_cache ?E) (hs_cache ?s) (request_key (hp_new ''/c'') ?E demo_req) = Inr None"
    by (simp add: cs_lookup_def demo_hp_env_def demo_state_def lookup_no_faults)
  have m: "try_mount (he_mount ?E) (sr_cwd demo_req) (hs_fuse ?s) = (?g, ?h, 0)"
    using demo_mount [of Allow True] by (simp add: demo_state_def demo_req_def sr_new_def sr_from_operator_def)
  have via: "\<exists>c. coalesce_via_lock (hp_new ''/c'') ?E (request_key (hp_new ''/c'') ?E demo_req) (demo_req\<lparr>sr_cwd := ''/tmp/m''\<rparr>)
      (hs_cache (hs_tick 0 (?s\<lparr>hs_fuse := ?h\<rparr>))) = (Inr (\<lparr>cr_exit_code = 0, cr_stdout = [9], cr_stderr = []\<rparr>, LockRecheck), c)"
    unfolding demo_key
    by (simp add: demo_cache_simps demo_hp_env_def demo_state_def Let_def)
  then obtain c where "coalesce_via_lock (hp_new ''/c'') ?E (request_key (hp_new ''/c'') ?E demo_req) (demo_req\<lparr>sr_cwd := ''/tmp/m''\<rparr>)
      (hs_cache (hs_tick 0 (?s\<lparr>hs_fuse := ?h\<rparr>))) = (Inr (\<lparr>cr_exit_code = 0, cr_stdout = [9], cr_stderr = []\<rparr>, LockRecheck), c)" ..
  from shared_result_with_session [OF demo_enter demo_nocache look m _ this] show ?thesis by auto
qed

end
