(* ===== verification/MeshQueue.thy ===== *)
theory MeshQueue
  imports Paths "HOL-Library.Product_Lexorder"
begin

text \<open>
  The task queue of the mesh (\<open>crates/sharecli-mesh/src/task_queue.rs\<close> and \<open>operator_status.rs\<close>): a
  directory with the sub-directories \<open>tmp\<close>, \<open>new\<close> and \<open>cur\<close> that any number of processes use
  without a lock. The state is the three directories with their files. JSON encoding is a
  parameter, and so are the fresh ids and the clock. Every file operation can fail: which ones do
  is an argument. \<open>fs::write\<close> truncates first, so a write that fails leaves an empty file. The
  directories hold files only: an entry that is not a file is skipped by the code and is not part
  of the state.
\<close>

section \<open>Tasks and directories\<close>

type_synonym float_bits = u64

text \<open>The value of a floating point number that is not NaN, up to order: sign and magnitude.\<close>

definition float_order :: "float_bits \<Rightarrow> int" where
  "float_order b = (if b < 0x8000000000000000 then uint b else - uint (b - 0x8000000000000000))"

record 'v task_envelope =
  te_id :: string
  te_payload :: 'v
  te_priority :: u8
  te_created_at :: float_bits
  te_attempts :: u32
  te_owner :: "string option"

record 'v codec =
  to_json :: "'v task_envelope \<Rightarrow> string option"
  from_json :: "string \<Rightarrow> 'v task_envelope option"

type_synonym mail_dir = "(string \<times> string) list"

record maildir =
  md_tmp :: mail_dir
  md_new :: mail_dir
  md_cur :: mail_dir

datatype sub_dir = TmpDir | NewDir | CurDir

datatype io_kind = NotFound | OtherIo

datatype mail_op =
    MkDir sub_dir
  | WriteTmp string
  | Publish string
  | ListDir sub_dir
  | DirEnt sub_dir string
  | ReadTask sub_dir string
  | TakeTask string
  | WriteCur string
  | RemoveCur string
  | ReturnTask string

datatype mail_error = MailIo mail_op | Encode string

type_synonym mail_faults = "mail_op \<Rightarrow> io_kind option"

text \<open>\<open>rename\<close> of a file from one directory into another: it replaces a file of that name.\<close>

definition move_file :: "string \<Rightarrow> mail_dir \<Rightarrow> mail_dir \<Rightarrow> (mail_dir \<times> mail_dir) option" where
  "move_file n from to =
     (case map_of from n of
        None \<Rightarrow> None
      | Some c \<Rightarrow> Some (AList.delete n from, AList.update n c to))"

section \<open>Operations\<close>

fun mq_mkdirs :: "mail_faults \<Rightarrow> sub_dir list \<Rightarrow> mail_error + unit" where
  "mq_mkdirs fails [] = Inr ()"
| "mq_mkdirs fails (d # ds) = (if fails (MkDir d) \<noteq> None then Inl (MailIo (MkDir d)) else mq_mkdirs fails ds)"

definition mq_open :: "mail_faults \<Rightarrow> mail_error + unit" where
  "mq_open fails = mq_mkdirs fails [TmpDir, NewDir, CurDir]"

definition mq_enqueue ::
  "'v codec \<Rightarrow> mail_faults \<Rightarrow> string \<Rightarrow> float_bits \<Rightarrow> 'v \<Rightarrow> u8 \<Rightarrow> maildir \<Rightarrow> (mail_error + string) \<times> maildir" where
  "mq_enqueue J fails task_id now payload priority s =
     (case to_json J \<lparr>te_id = task_id, te_payload = payload, te_priority = min priority 9, te_created_at = now,
                      te_attempts = 0, te_owner = None\<rparr> of
        None \<Rightarrow> (Inl (Encode task_id), s)
      | Some bytes \<Rightarrow>
          if fails (WriteTmp task_id) \<noteq> None then
            (Inl (MailIo (WriteTmp task_id)), s\<lparr>md_tmp := AList.update task_id [] (md_tmp s)\<rparr>)
          else
            (let s = s\<lparr>md_tmp := AList.update task_id bytes (md_tmp s)\<rparr>
             in if fails (Publish task_id) \<noteq> None then (Inl (MailIo (Publish task_id)), s)
                else case move_file task_id (md_tmp s) (md_new s) of
                  None \<Rightarrow> (Inl (MailIo (Publish task_id)), s)
                | Some (t, n) \<Rightarrow> (Inr task_id, s\<lparr>md_tmp := t, md_new := n\<rparr>)))"

definition dir_files :: "sub_dir \<Rightarrow> maildir \<Rightarrow> mail_dir" where
  "dir_files d s = (case d of TmpDir \<Rightarrow> md_tmp s | NewDir \<Rightarrow> md_new s | CurDir \<Rightarrow> md_cur s)"

fun read_entries ::
  "'v codec \<Rightarrow> mail_faults \<Rightarrow> sub_dir \<Rightarrow> mail_dir \<Rightarrow> mail_error + 'v task_envelope list" where
  "read_entries J fails d [] = Inr []"
| "read_entries J fails d ((n, c) # es) =
     (if fails (DirEnt d n) \<noteq> None then Inl (MailIo (DirEnt d n))
      else case read_entries J fails d es of
        Inl e \<Rightarrow> Inl e
      | Inr results \<Rightarrow>
          if fails (ReadTask d n) \<noteq> None then Inr results
          else (case from_json J c of None \<Rightarrow> Inr results | Some env \<Rightarrow> Inr (env # results)))"

definition list_envelopes :: "'v codec \<Rightarrow> mail_faults \<Rightarrow> sub_dir \<Rightarrow> maildir \<Rightarrow> mail_error + 'v task_envelope list" where
  "list_envelopes J fails d s =
     (case fails (ListDir d) of
        Some NotFound \<Rightarrow> Inr []
      | Some OtherIo \<Rightarrow> Inl (MailIo (ListDir d))
      | None \<Rightarrow> read_entries J fails d (dir_files d s))"

definition claim_order :: "'v task_envelope \<Rightarrow> u8 \<times> int" where
  "claim_order e = (te_priority e, float_order (te_created_at e))"

definition claimed_envelope :: "string option \<Rightarrow> 'v task_envelope \<Rightarrow> 'v task_envelope" where
  "claimed_envelope owner e =
     (let e = e\<lparr>te_attempts := sat_add (te_attempts e) 1\<rparr>
      in case owner of None \<Rightarrow> e | Some o' \<Rightarrow> e\<lparr>te_owner := Some o'\<rparr>)"

fun claim_loop ::
  "'v codec \<Rightarrow> mail_faults \<Rightarrow> string option \<Rightarrow> 'v task_envelope list \<Rightarrow> maildir
     \<Rightarrow> (mail_error + 'v task_envelope option) \<times> maildir" where
  "claim_loop J fails owner [] s = (Inr None, s)"
| "claim_loop J fails owner (e # es) s =
     (case fails (TakeTask (te_id e)) of
        Some NotFound \<Rightarrow> claim_loop J fails owner es s
      | Some OtherIo \<Rightarrow> (Inl (MailIo (TakeTask (te_id e))), s)
      | None \<Rightarrow>
          (case move_file (te_id e) (md_new s) (md_cur s) of
             None \<Rightarrow> claim_loop J fails owner es s
           | Some (n, c) \<Rightarrow>
               (let s = s\<lparr>md_new := n, md_cur := c\<rparr>; env = claimed_envelope owner e
                in case to_json J env of
                     None \<Rightarrow> (Inl (Encode (te_id e)), s)
                   | Some bytes \<Rightarrow>
                       if fails (WriteCur (te_id e)) \<noteq> None
                       then (Inl (MailIo (WriteCur (te_id e))), s\<lparr>md_cur := AList.update (te_id e) [] (md_cur s)\<rparr>)
                       else (Inr (Some env), s\<lparr>md_cur := AList.update (te_id e) bytes (md_cur s)\<rparr>))))"

definition mq_claim ::
  "'v codec \<Rightarrow> mail_faults \<Rightarrow> string option \<Rightarrow> maildir \<Rightarrow> (mail_error + 'v task_envelope option) \<times> maildir" where
  "mq_claim J fails owner s =
     (case list_envelopes J fails NewDir s of
        Inl e \<Rightarrow> (Inl e, s)
      | Inr candidates \<Rightarrow>
          if candidates = [] then (Inr None, s)
          else claim_loop J fails owner (sort_key claim_order candidates) s)"

definition mq_ack :: "mail_faults \<Rightarrow> string \<Rightarrow> maildir \<Rightarrow> (mail_error + unit) \<times> maildir" where
  "mq_ack fails task_id s =
     (case fails (RemoveCur task_id) of
        Some NotFound \<Rightarrow> (Inr (), s)
      | Some OtherIo \<Rightarrow> (Inl (MailIo (RemoveCur task_id)), s)
      | None \<Rightarrow> (Inr (), s\<lparr>md_cur := AList.delete task_id (md_cur s)\<rparr>))"

definition mq_return :: "mail_faults \<Rightarrow> string \<Rightarrow> maildir \<Rightarrow> (mail_error + bool) \<times> maildir" where
  "mq_return fails n s =
     (case fails (ReturnTask n) of
        Some NotFound \<Rightarrow> (Inr False, s)
      | Some OtherIo \<Rightarrow> (Inl (MailIo (ReturnTask n)), s)
      | None \<Rightarrow>
          (case move_file n (md_cur s) (md_new s) of
             None \<Rightarrow> (Inr False, s)
           | Some (c, nw) \<Rightarrow> (Inr True, s\<lparr>md_cur := c, md_new := nw\<rparr>)))"

definition mq_nack :: "mail_faults \<Rightarrow> string \<Rightarrow> maildir \<Rightarrow> (mail_error + unit) \<times> maildir" where
  "mq_nack fails task_id s =
     (case mq_return fails task_id s of (Inl e, s) \<Rightarrow> (Inl e, s) | (Inr _, s) \<Rightarrow> (Inr (), s))"

definition mq_list_pending :: "'v codec \<Rightarrow> mail_faults \<Rightarrow> maildir \<Rightarrow> mail_error + 'v task_envelope list" where
  "mq_list_pending J fails s =
     (case list_envelopes J fails NewDir s of
        Inl e \<Rightarrow> Inl e
      | Inr out \<Rightarrow>
          (case list_envelopes J fails CurDir s of Inl e \<Rightarrow> Inl e | Inr flying \<Rightarrow> Inr (out @ flying)))"

fun reclaim_loop ::
  "'v codec \<Rightarrow> mail_faults \<Rightarrow> string \<Rightarrow> mail_dir \<Rightarrow> nat \<Rightarrow> maildir \<Rightarrow> (mail_error + nat) \<times> maildir" where
  "reclaim_loop J fails owner [] reclaimed s = (Inr reclaimed, s)"
| "reclaim_loop J fails owner ((n, c) # es) reclaimed s =
     (if fails (DirEnt CurDir n) \<noteq> None then (Inl (MailIo (DirEnt CurDir n)), s)
      else if fails (ReadTask CurDir n) \<noteq> None then reclaim_loop J fails owner es reclaimed s
      else case from_json J c of
        None \<Rightarrow> reclaim_loop J fails owner es reclaimed s
      | Some env \<Rightarrow>
          if te_owner env \<noteq> Some owner then reclaim_loop J fails owner es reclaimed s
          else (case mq_return fails n s of
                  (Inl e, s) \<Rightarrow> (Inl e, s)
                | (Inr True, s) \<Rightarrow> reclaim_loop J fails owner es (Suc reclaimed) s
                | (Inr False, s) \<Rightarrow> reclaim_loop J fails owner es reclaimed s))"

definition mq_reclaim_owner ::
  "'v codec \<Rightarrow> mail_faults \<Rightarrow> string \<Rightarrow> maildir \<Rightarrow> (mail_error + nat) \<times> maildir" where
  "mq_reclaim_owner J fails owner s =
     (if fails (ListDir CurDir) \<noteq> None then (Inl (MailIo (ListDir CurDir)), s)
      else reclaim_loop J fails owner (md_cur s) 0 s)"

record maildir_status =
  mst_path :: string
  mst_ready :: nat
  mst_in_flight :: nat
  mst_pending :: nat

definition mq_status :: "'v codec \<Rightarrow> mail_faults \<Rightarrow> string \<Rightarrow> maildir \<Rightarrow> mail_error + maildir_status" where
  "mq_status J fails path s =
     (case list_envelopes J fails NewDir s of
        Inl e \<Rightarrow> Inl e
      | Inr ready \<Rightarrow>
          (case list_envelopes J fails CurDir s of
             Inl e \<Rightarrow> Inl e
           | Inr in_flight \<Rightarrow>
               Inr \<lparr>mst_path = path, mst_ready = length ready, mst_in_flight = length in_flight,
                    mst_pending = length ready + length in_flight\<rparr>))"

text \<open>The environment variables and the home directory are arguments.\<close>

definition default_mesh_queue_path :: "string option \<Rightarrow> string option \<Rightarrow> string" where
  "default_mesh_queue_path xdg_state_home home =
     (let at_home =
            (case home of
               None \<Rightarrow> ''.local/state/sharecli/mesh/queue''
             | Some h \<Rightarrow> path_join h ''.local/state/sharecli/mesh/queue'')
      in case xdg_state_home of
           Some xdg \<Rightarrow> if xdg \<noteq> [] then path_join xdg ''sharecli/mesh/queue'' else at_home
         | None \<Rightarrow> at_home)"

definition resolve_mesh_queue_path :: "string option \<Rightarrow> string option \<Rightarrow> string option \<Rightarrow> string" where
  "resolve_mesh_queue_path mesh_queue xdg_state_home home =
     (case mesh_queue of
        Some raw \<Rightarrow> if raw \<noteq> [] then raw else default_mesh_queue_path xdg_state_home home
      | None \<Rightarrow> default_mesh_queue_path xdg_state_home home)"

fun count_entries :: "mail_faults \<Rightarrow> sub_dir \<Rightarrow> mail_dir \<Rightarrow> mail_error + nat" where
  "count_entries fails d [] = Inr 0"
| "count_entries fails d ((n, c) # es) =
     (if fails (DirEnt d n) \<noteq> None then Inl (MailIo (DirEnt d n))
      else case count_entries fails d es of Inl e \<Rightarrow> Inl e | Inr k \<Rightarrow> Inr (Suc k))"

text \<open>A sub-directory that is missing is given as none.\<close>

definition count_queue_files :: "mail_faults \<Rightarrow> sub_dir \<Rightarrow> mail_dir option \<Rightarrow> mail_error + nat" where
  "count_queue_files fails d files =
     (case files of
        None \<Rightarrow> Inr 0
      | Some es \<Rightarrow> if fails (ListDir d) \<noteq> None then Inl (MailIo (ListDir d)) else count_entries fails d es)"

definition mq_probe ::
  "mail_faults \<Rightarrow> string \<Rightarrow> bool \<Rightarrow> mail_dir option \<Rightarrow> mail_dir option \<Rightarrow> mail_error + maildir_status option" where
  "mq_probe fails path root_is_dir new cur =
     (if \<not> root_is_dir then Inr None
      else if new = None \<and> cur = None then Inr None
      else case count_queue_files fails NewDir new of
        Inl e \<Rightarrow> Inl e
      | Inr ready \<Rightarrow>
          (case count_queue_files fails CurDir cur of
             Inl e \<Rightarrow> Inl e
           | Inr in_flight \<Rightarrow>
               Inr (Some \<lparr>mst_path = path, mst_ready = ready, mst_in_flight = in_flight, mst_pending = ready + in_flight\<rparr>)))"

definition mesh_format_status_section :: "maildir_status \<Rightarrow> string" where
  "mesh_format_status_section st =
     nl @ ''=== Mesh Maildir Queue ==='' @ nl @ nl
     @ ''Path:      '' @ mst_path st @ nl
     @ ''Ready:     '' @ show_nat (mst_ready st) @ nl
     @ ''In-flight: '' @ show_nat (mst_in_flight st) @ nl
     @ ''Pending:   '' @ show_nat (mst_pending st) @ nl"

section \<open>Calls and what they keep\<close>

datatype 'v mail_call =
    Enqueue string float_bits 'v u8
  | Claim "string option"
  | Ack string
  | Nack string
  | Reclaim string

datatype 'v mail_reply =
    Queued string
  | Claimed "'v task_envelope option"
  | Acked
  | Nacked
  | Reclaimed nat

definition reply :: "('a \<Rightarrow> 'v mail_reply) \<Rightarrow> (mail_error + 'a) \<times> maildir \<Rightarrow> (mail_error + 'v mail_reply) \<times> maildir" where
  "reply f r = (case r of (Inl e, s) \<Rightarrow> (Inl e, s) | (Inr x, s) \<Rightarrow> (Inr (f x), s))"

fun mq_call :: "'v codec \<Rightarrow> mail_faults \<Rightarrow> 'v mail_call \<Rightarrow> maildir \<Rightarrow> (mail_error + 'v mail_reply) \<times> maildir" where
  "mq_call J fails (Enqueue i now payload priority) s = reply Queued (mq_enqueue J fails i now payload priority s)"
| "mq_call J fails (Claim owner) s = reply Claimed (mq_claim J fails owner s)"
| "mq_call J fails (Ack i) s = reply (\<lambda>_. Acked) (mq_ack fails i s)"
| "mq_call J fails (Nack i) s = reply (\<lambda>_. Nacked) (mq_nack fails i s)"
| "mq_call J fails (Reclaim owner) s = reply Reclaimed (mq_reclaim_owner J fails owner s)"

text \<open>A task as its producer gave it, and the tasks of the directories.\<close>

type_synonym 'v task = "'v \<times> u8 \<times> float_bits"

definition task_of :: "'v task_envelope \<Rightarrow> 'v task" where
  "task_of e = (te_payload e, te_priority e, te_created_at e)"

definition tasks_in :: "'v codec \<Rightarrow> mail_dir \<Rightarrow> string \<rightharpoonup> 'v task" where
  "tasks_in J d n = (case map_of d n of None \<Rightarrow> None | Some c \<Rightarrow> map_option task_of (from_json J c))"

definition pending :: "'v codec \<Rightarrow> maildir \<Rightarrow> string \<rightharpoonup> 'v task" where
  "pending J s = tasks_in J (md_new s) ++ tasks_in J (md_cur s)"

text \<open>Files are tasks under their own ids, and no id is in both directories.\<close>

definition dir_ok :: "'v codec \<Rightarrow> mail_dir \<Rightarrow> bool" where
  "dir_ok J d \<longleftrightarrow>
     distinct (map fst d) \<and> (\<forall>n c. map_of d n = Some c \<longrightarrow> (\<exists>e. from_json J c = Some e \<and> te_id e = n))"

definition apart :: "mail_dir \<Rightarrow> mail_dir \<Rightarrow> bool" where
  "apart a b \<longleftrightarrow> dom (map_of a) \<inter> dom (map_of b) = {}"

definition mail_inv :: "'v codec \<Rightarrow> maildir \<Rightarrow> bool" where
  "mail_inv J s \<longleftrightarrow> dir_ok J (md_new s) \<and> dir_ok J (md_cur s) \<and> apart (md_new s) (md_cur s)"

definition codec_ok :: "'v codec \<Rightarrow> bool" where
  "codec_ok J \<longleftrightarrow> (\<forall>e c. to_json J e = Some c \<longrightarrow> from_json J c = Some e)"

section \<open>Lemmas\<close>

lemmas dir_simps = AList.delete_conv' AList.update_conv' AList.distinct_delete AList.distinct_update

lemma pending_at: "pending J s n = (case tasks_in J (md_cur s) n of Some x \<Rightarrow> Some x | None \<Rightarrow> tasks_in J (md_new s) n)"
  by (simp add: pending_def map_add_def)

lemma tasks_in_update: "tasks_in J (AList.update n c d) = (tasks_in J d)(n := map_option task_of (from_json J c))"
  by (auto simp: tasks_in_def dir_simps fun_eq_iff)

lemma tasks_in_delete: "tasks_in J (AList.delete n d) = (tasks_in J d)(n := None)"
  by (auto simp: tasks_in_def dir_simps fun_eq_iff)

lemma dir_ok_update: "dir_ok J d \<Longrightarrow> from_json J c = Some e \<Longrightarrow> te_id e = n \<Longrightarrow> dir_ok J (AList.update n c d)"
  by (auto simp: dir_ok_def dir_simps)

lemma dir_ok_delete: "dir_ok J d \<Longrightarrow> dir_ok J (AList.delete n d)"
  by (auto simp: dir_ok_def dir_simps)

lemma apart_lemmas:
  "apart a b \<Longrightarrow> apart b a"
  "apart a b \<Longrightarrow> apart (AList.delete n a) b"
  "apart a b \<Longrightarrow> map_of b n = None \<Longrightarrow> apart (AList.update n c a) b"
  "apart a b \<Longrightarrow> map_of a n \<noteq> None \<Longrightarrow> map_of b n = None"
  "apart a b \<Longrightarrow> apart a (AList.delete n b)"
  by (auto simp: apart_def dir_simps)

text \<open>Moving a task between the directories keeps what is pending.\<close>

lemma move_file_ok:
  assumes "move_file n a b = Some (a', b')" and "dir_ok J a" and "dir_ok J b" and "apart a b"
  shows "dir_ok J a'" "dir_ok J b'" "apart a' b'" "apart b' a'" "map_of b' n = map_of a n"
    and "tasks_in J a' ++ tasks_in J b' = tasks_in J a ++ tasks_in J b"
    and "tasks_in J b' ++ tasks_in J a' = tasks_in J b ++ tasks_in J a"
proof -
  obtain c where c: "map_of a n = Some c" "a' = AList.delete n a" "b' = AList.update n c b"
    using assms(1) by (auto simp: move_file_def split: option.splits)
  then obtain e where e: "from_json J c = Some e" "te_id e = n" using assms(2) unfolding dir_ok_def by blast
  have bn: "map_of b n = None" using apart_lemmas(4) [OF assms(4)] c(1) by simp
  show "dir_ok J a'" "dir_ok J b'" using assms(2,3) e by (simp_all add: c dir_ok_delete dir_ok_update)
  show "map_of b' n = map_of a n" using c by (simp add: dir_simps)
  show "apart b' a'" using assms(4) by (simp add: c apart_lemmas(1-3) dir_simps)
  then show "apart a' b'" by (rule apart_lemmas(1))
  have t: "tasks_in J a n = Some (task_of e)" "tasks_in J b n = None" using c(1) e bn by (simp_all add: tasks_in_def)
  show "tasks_in J a' ++ tasks_in J b' = tasks_in J a ++ tasks_in J b"
    "tasks_in J b' ++ tasks_in J a' = tasks_in J b ++ tasks_in J a"
    using t e by (auto simp: c(2,3) tasks_in_update tasks_in_delete map_add_def fun_eq_iff split: option.splits)
qed

lemma mq_return_ok:
  assumes "mq_return fails n s = (res, s')" and "mail_inv J s"
  shows "mail_inv J s' \<and> pending J s' = pending J s"
proof (cases "s' = s")
  case False
  with assms(1) obtain c nw where m: "move_file n (md_cur s) (md_new s) = Some (c, nw)" and s': "s' = s\<lparr>md_cur := c, md_new := nw\<rparr>"
    by (auto simp: mq_return_def split: option.splits io_kind.splits)
  have "apart (md_cur s) (md_new s)" using assms(2) by (simp add: mail_inv_def apart_lemmas(1))
  from move_file_ok [OF m _ _ this, of J] assms(2) show ?thesis
    by (auto simp: s' mail_inv_def pending_def)
qed (use assms in simp)

lemma reclaim_loop_ok:
  "reclaim_loop J fails owner es k s = (res, s') \<Longrightarrow> mail_inv J s \<Longrightarrow> mail_inv J s' \<and> pending J s' = pending J s"
proof (induction J fails owner es k s rule: reclaim_loop.induct)
  case (2 J fails owner n c es k s)
  obtain r s1 where ret: "mq_return fails n s = (r, s1)" by fastforce
  note ok = mq_return_ok [OF ret "2.prems"(2)]
  show ?case
    using 2 ok by (auto simp: ret split: if_splits option.splits sum.splits bool.splits)
qed simp

lemma claimed_envelope_keeps: "te_id (claimed_envelope owner e) = te_id e" "task_of (claimed_envelope owner e) = task_of e"
  by (auto simp: claimed_envelope_def task_of_def Let_def split: option.splits)

text \<open>A candidate is a task as the file of its id has it, as long as the file is there.\<close>

definition candidate :: "'v codec \<Rightarrow> maildir \<Rightarrow> 'v task_envelope \<Rightarrow> bool" where
  "candidate J s e \<longleftrightarrow> (\<forall>c. map_of (md_new s) (te_id e) = Some c \<longrightarrow> from_json J c = Some e)"

lemma claim_loop_ok:
  assumes "codec_ok J" and "\<forall>i. fails (WriteCur i) = None"
  shows "claim_loop J fails owner es s = (res, s') \<Longrightarrow> mail_inv J s \<Longrightarrow> \<forall>e \<in> set es. candidate J s e \<Longrightarrow>
    mail_inv J s' \<and> pending J s' = pending J s
    \<and> (\<forall>e. res = Inr (Some e) \<longrightarrow> map_of (md_new s) (te_id e) \<noteq> None \<and> map_of (md_new s') (te_id e) = None
         \<and> map_of (md_cur s') (te_id e) = to_json J e)"
proof (induction es arbitrary: s)
  case (Cons e es)
  show ?case
  proof (cases "fails (TakeTask (te_id e)) = None \<and> map_of (md_new s) (te_id e) \<noteq> None")
    case True
    then obtain n c where m: "move_file (te_id e) (md_new s) (md_cur s) = Some (n, c)"
      by (auto simp: move_file_def)
    from move_file_ok [OF m, of J] Cons.prems(2)
    have ok: "dir_ok J n" "dir_ok J c" "apart n c" "map_of c (te_id e) = map_of (md_new s) (te_id e)"
      "tasks_in J n ++ tasks_in J c = pending J s"
      by (simp_all add: mail_inv_def pending_def)
    have gone: "map_of n (te_id e) = None" using m by (auto simp: move_file_def dir_simps split: option.splits)
    obtain b where b: "map_of (md_new s) (te_id e) = Some b" "from_json J b = Some e"
      using True Cons.prems(3) by (auto simp: candidate_def)
    show ?thesis
    proof (cases "to_json J (claimed_envelope owner e)")
      case None
      then have "res = Inl (Encode (te_id e))" "s' = s\<lparr>md_new := n, md_cur := c\<rparr>"
        using Cons.prems(1) True m by simp_all
      with ok show ?thesis by (simp add: mail_inv_def pending_def)
    next
      case (Some bytes)
      then have s': "res = Inr (Some (claimed_envelope owner e))"
        "s' = s\<lparr>md_new := n, md_cur := AList.update (te_id e) bytes c\<rparr>"
        using Cons.prems(1) True m assms(2) by simp_all
      have j: "from_json J bytes = Some (claimed_envelope owner e)" using assms(1) Some by (simp add: codec_ok_def)
      have "mail_inv J s'"
        using ok dir_ok_update [OF ok(2) j] gone
        by (auto simp: s' mail_inv_def claimed_envelope_keeps intro: apart_lemmas(1,3))
      moreover have "tasks_in J c (te_id e) = Some (task_of e)" using ok(4) b by (simp add: tasks_in_def)
      then have "tasks_in J (AList.update (te_id e) bytes c) = tasks_in J c"
        by (auto simp: tasks_in_update j claimed_envelope_keeps fun_eq_iff)
      then have "pending J s' = pending J s" using ok(5) by (simp add: s' pending_def)
      ultimately show ?thesis using b gone Some by (auto simp: s' claimed_envelope_keeps dir_simps)
    qed
  next
    case False
    then have "move_file (te_id e) (md_new s) (md_cur s) = None \<or> fails (TakeTask (te_id e)) \<noteq> None"
      by (auto simp: move_file_def)
    then show ?thesis
      using Cons by (auto split: option.splits io_kind.splits)
  qed
qed auto

lemma read_entries_parsed: "read_entries J fails d es = Inr out \<Longrightarrow> e \<in> set out \<Longrightarrow> \<exists>n c. (n, c) \<in> set es \<and> from_json J c = Some e"
  by (induction J fails d es arbitrary: out rule: read_entries.induct) (auto split: if_splits sum.splits option.splits; blast)+

lemma listed_candidate:
  assumes "list_envelopes J fails NewDir s = Inr out" and "e \<in> set out" and "mail_inv J s"
  shows "candidate J s e"
proof -
  have "\<exists>n c. (n, c) \<in> set (md_new s) \<and> from_json J c = Some e"
    using assms(1,2) by (auto simp: list_envelopes_def dir_files_def split: option.splits io_kind.splits dest: read_entries_parsed)
  then obtain n c where c: "(n, c) \<in> set (md_new s)" "from_json J c = Some e" by blast
  have ok: "dir_ok J (md_new s)" using assms(3) by (simp add: mail_inv_def)
  then have m: "map_of (md_new s) n = Some c" using c(1) by (simp add: dir_ok_def)
  then have "te_id e = n" using ok c(2) unfolding dir_ok_def by fastforce
  then show ?thesis using m c(2) by (simp add: candidate_def)
qed

lemma mq_claim_ok:
  assumes "codec_ok J" and "\<forall>i. fails (WriteCur i) = None" and "mail_inv J s" and "mq_claim J fails owner s = (res, s')"
  shows "mail_inv J s' \<and> pending J s' = pending J s
    \<and> (\<forall>e. res = Inr (Some e) \<longrightarrow> map_of (md_new s) (te_id e) \<noteq> None \<and> map_of (md_new s') (te_id e) = None
         \<and> map_of (md_cur s') (te_id e) = to_json J e)"
proof (cases "list_envelopes J fails NewDir s")
  case (Inr out)
  show ?thesis
  proof (cases "out = []")
    case False
    then have "claim_loop J fails owner (sort_key claim_order out) s = (res, s')"
      using assms(4) Inr by (simp add: mq_claim_def)
    from claim_loop_ok [OF assms(1,2) this assms(3)] listed_candidate [OF Inr _ assms(3)] show ?thesis by simp
  qed (use assms(3,4) Inr in \<open>auto simp: mq_claim_def\<close>)
qed (use assms(3,4) in \<open>auto simp: mq_claim_def\<close>)

lemma mq_enqueue_ok:
  assumes "codec_ok J" and "mail_inv J s" and "pending J s i = None" and "mq_enqueue J fails i now payload priority s = (res, s')"
  shows "mail_inv J s' \<and> (case res of Inl _ \<Rightarrow> md_new s' = md_new s \<and> md_cur s' = md_cur s
    | Inr j \<Rightarrow> j = i \<and> pending J s' = (pending J s)(i \<mapsto> (payload, min priority 9, now)) \<and> md_cur s' = md_cur s)"
proof (cases "md_new s' = md_new s \<and> md_cur s' = md_cur s \<and> isl res")
  case False
  define env where "env = \<lparr>te_id = i, te_payload = payload, te_priority = min priority 9, te_created_at = now,
    te_attempts = 0, te_owner = None\<rparr>"
  from False assms(4) obtain bytes where b: "to_json J env = Some bytes" "res = Inr i" "md_cur s' = md_cur s"
    "md_new s' = AList.update i bytes (md_new s)"
    unfolding env_def
    by (auto simp: mq_enqueue_def move_file_def Let_def dir_simps split: option.splits if_splits)
  have j: "from_json J bytes = Some env" using assms(1) b(1) by (simp add: codec_ok_def)
  have id: "te_id env = i" "task_of env = (payload, min priority 9, now)" by (simp_all add: env_def task_of_def)
  have dn: "dir_ok J (md_new s)" and dc: "dir_ok J (md_cur s)" and ap: "apart (md_new s) (md_cur s)"
    using assms(2) by (simp_all add: mail_inv_def)
  have t: "tasks_in J (md_cur s) i = None" using assms(3) by (simp add: pending_at split: option.splits)
  have "map_of (md_cur s) i = None"
    using t dc unfolding tasks_in_def dir_ok_def by (cases "map_of (md_cur s) i") fastforce+
  then have "mail_inv J s'"
    using dc ap dir_ok_update [OF dn j id(1)] by (simp add: mail_inv_def b apart_lemmas)
  moreover have "pending J s' = (pending J s)(i \<mapsto> (payload, min priority 9, now))"
    using t by (auto simp: fun_eq_iff pending_at b(3,4) tasks_in_update j id split: option.splits)
  ultimately show ?thesis by (simp add: b)
qed (use assms(2) in \<open>auto simp: mail_inv_def split: sum.splits\<close>)

lemma mq_ack_ok:
  assumes "mail_inv J s" and "mq_ack fails i s = (res, s')"
  shows "mail_inv J s'" "s' = s \<or> s' = s\<lparr>md_cur := AList.delete i (md_cur s)\<rparr>"
  using assms by (auto simp: mq_ack_def mail_inv_def dir_ok_delete split: option.splits io_kind.splits intro: apart_lemmas(5))

lemma mq_ack_pending:
  assumes "mail_inv J s" and "mq_ack fails i s = (res, s')"
  shows "pending J s' j = pending J s j \<or> j = i \<and> pending J s' j = None"
proof (cases "s' = s")
  case False
  then have s': "s' = s\<lparr>md_cur := AList.delete i (md_cur s)\<rparr>" using mq_ack_ok(2) [OF assms] by simp
  show ?thesis
  proof (cases "j = i \<and> map_of (md_cur s) i \<noteq> None")
    case True
    then have "map_of (md_new s) i = None"
      using assms(1) apart_lemmas(4) [OF apart_lemmas(1)] by (auto simp: mail_inv_def)
    then show ?thesis using True by (simp add: s' pending_at tasks_in_delete) (simp add: tasks_in_def)
  next
    case False
    then have "tasks_in J (AList.delete i (md_cur s)) j = tasks_in J (md_cur s) j"
      by (auto simp: tasks_in_delete tasks_in_def)
    then show ?thesis by (simp add: s' pending_at split: option.split)
  qed
qed simp

text \<open>What one call does to the pending tasks.\<close>

definition task_queued :: "'v mail_call \<Rightarrow> mail_error + 'v mail_reply \<Rightarrow> string \<Rightarrow> 'v task option" where
  "task_queued call res j =
     (case (call, res) of
        (Enqueue i now payload priority, Inr _) \<Rightarrow> if i = j then Some (payload, min priority 9, now) else None
      | _ \<Rightarrow> None)"

fun id_queued :: "'v mail_call \<Rightarrow> string list" where
  "id_queued (Enqueue i now payload priority) = [i]"
| "id_queued _ = []"

lemma mq_call_ok:
  assumes "codec_ok J" and "mail_inv J s" and "\<forall>i. fails (WriteCur i) = None"
    and "\<forall>i \<in> set (id_queued call). pending J s i = None" and "mq_call J fails call s = (res, s')"
  shows "mail_inv J s' \<and> (\<forall>j. pending J s' j = (case task_queued call res j of Some t \<Rightarrow> Some t | None \<Rightarrow> pending J s j)
    \<or> call = Ack j \<and> pending J s' j = None)"
proof (cases call)
  case (Enqueue i now p pr)
  obtain r s1 where e: "mq_enqueue J fails i now p pr s = (r, s1)" by fastforce
  have "r = Inl x \<Longrightarrow> md_new s1 = md_new s \<Longrightarrow> md_cur s1 = md_cur s \<Longrightarrow> pending J s1 = pending J s" for x by (simp add: pending_def)
  with mq_enqueue_ok [OF assms(1,2) _ e] assms(4,5) Enqueue e show ?thesis
    by (auto simp: reply_def task_queued_def split: sum.splits prod.splits)
next
  case (Claim owner)
  obtain r s1 where e: "mq_claim J fails owner s = (r, s1)" by fastforce
  from mq_claim_ok [OF assms(1,3,2) e] assms(5) Claim e show ?thesis
    by (auto simp: reply_def task_queued_def split: sum.splits)
next
  case (Ack i)
  obtain r s1 where e: "mq_ack fails i s = (r, s1)" by fastforce
  from mq_ack_ok(1) [OF assms(2) e] mq_ack_pending [OF assms(2) e] assms(5) Ack e show ?thesis
    by (auto simp: reply_def task_queued_def split: sum.splits)
next
  case (Nack i)
  obtain r s1 where e: "mq_return fails i s = (r, s1)" by fastforce
  from mq_return_ok [OF e assms(2)] assms(5) Nack e show ?thesis
    by (auto simp: reply_def mq_nack_def task_queued_def split: sum.splits)
next
  case (Reclaim owner)
  obtain r s1 where e: "mq_reclaim_owner J fails owner s = (r, s1)" by fastforce
  then have "mail_inv J s1 \<and> pending J s1 = pending J s"
    using assms(2) reclaim_loop_ok [of J fails owner "md_cur s" 0 s r s1] by (auto simp: mq_reclaim_owner_def split: if_splits)
  then show ?thesis using assms(5) Reclaim e
    by (auto simp: reply_def task_queued_def split: sum.splits)
qed

text \<open>Calls in a row, each with its own failures.\<close>

type_synonym 'v mail_calls = "(mail_faults \<times> 'v mail_call) list"

fun mq_calls :: "'v codec \<Rightarrow> 'v mail_calls \<Rightarrow> maildir \<Rightarrow> (mail_error + 'v mail_reply) list \<times> maildir" where
  "mq_calls J [] s = ([], s)"
| "mq_calls J ((fails, call) # cs) s =
     (case mq_call J fails call s of (res, s1) \<Rightarrow> (case mq_calls J cs s1 of (rs, s2) \<Rightarrow> (res # rs, s2)))"

fun tasks_queued :: "'v mail_calls \<Rightarrow> (mail_error + 'v mail_reply) list \<Rightarrow> string \<Rightarrow> 'v task option" where
  "tasks_queued ((fails, call) # cs) (res # rs) j =
     (case tasks_queued cs rs j of Some t \<Rightarrow> Some t | None \<Rightarrow> task_queued call res j)"
| "tasks_queued _ _ j = None"

definition ids_queued :: "'v mail_calls \<Rightarrow> string list" where
  "ids_queued cs = concat (map (\<lambda>(fails, call). id_queued call) cs)"

lemma task_queued_none: "j \<notin> set (id_queued call) \<Longrightarrow> task_queued call res j = None"
  by (cases call) (auto simp: task_queued_def split: sum.splits)

lemma tasks_queued_none: "j \<notin> set (ids_queued cs) \<Longrightarrow> tasks_queued cs rs j = None"
  by (induction cs rs j rule: tasks_queued.induct) (auto simp: ids_queued_def task_queued_none)

lemma mq_calls_ok:
  assumes "codec_ok J"
  shows "mq_calls J cs s = (rs, s') \<Longrightarrow> mail_inv J s \<Longrightarrow> \<forall>(fails, call) \<in> set cs. \<forall>i. fails (WriteCur i) = None
    \<Longrightarrow> distinct (ids_queued cs) \<Longrightarrow> \<forall>i \<in> set (ids_queued cs). pending J s i = None
    \<Longrightarrow> mail_inv J s' \<and> (\<forall>j. pending J s' j = (case tasks_queued cs rs j of Some t \<Rightarrow> Some t | None \<Rightarrow> pending J s j)
          \<or> (\<exists>fails. (fails, Ack j) \<in> set cs) \<and> pending J s' j = None)"
proof (induction cs arbitrary: s rs)
  case (Cons fc cs)
  obtain fails call where fc: "fc = (fails, call)" by fastforce
  obtain r s1 where c: "mq_call J fails call s = (r, s1)" by fastforce
  obtain rs1 where cs: "mq_calls J cs s1 = (rs1, s')" and rs: "rs = r # rs1"
    using Cons.prems(1) by (auto simp: fc c split: prod.splits)
  have ids: "ids_queued (fc # cs) = id_queued call @ ids_queued cs" by (simp add: ids_queued_def fc)
  have one: "mail_inv J s1" "\<And>j. pending J s1 j = (case task_queued call r j of Some t \<Rightarrow> Some t | None \<Rightarrow> pending J s j)
    \<or> call = Ack j \<and> pending J s1 j = None"
    using mq_call_ok [OF assms Cons.prems(2) _ _ c] Cons.prems(3,5) unfolding ids by (auto simp: fc)
  have fresh: "\<forall>i \<in> set (ids_queued cs). pending J s1 i = None"
  proof
    fix i assume i: "i \<in> set (ids_queued cs)"
    then have "task_queued call r i = None" "pending J s i = None"
      using Cons.prems(4,5) task_queued_none [of i call r] unfolding ids by auto
    then show "pending J s1 i = None" using one(2) [of i] by auto
  qed
  have "\<forall>(fails, call) \<in> set cs. \<forall>i. fails (WriteCur i) = None" "distinct (ids_queued cs)"
    using Cons.prems(3,4) unfolding ids by simp_all
  note more = Cons.IH [OF cs one(1) this fresh]
  have "pending J s' j = (case tasks_queued (fc # cs) rs j of Some t \<Rightarrow> Some t | None \<Rightarrow> pending J s j)
    \<or> (\<exists>fails. (fails, Ack j) \<in> set (fc # cs)) \<and> pending J s' j = None" for j
    using one(2) [of j] more [THEN conjunct2, rule_format, of j] by (auto simp: fc rs split: option.splits)
  then show ?case using more by blast
qed (simp split: option.splits)

section \<open>Claimers at the same time\<close>

text \<open>
  Several processes run \<open>claim\<close>, \<open>ack\<close> and \<open>nack\<close> on one queue. A process of
  \<open>claim\<close> lists the ready tasks, then renames them one by one until one is there, then writes
  the file again: each of these is one step, and steps of different processes interleave. A
  process can end at any step. \<open>reclaim_owner\<close> is a relation of its own: a step takes one file
  of the owner back.
\<close>

datatype 'v phase =
    Idle
  | Choosing "string option" "'v task_envelope list"
  | Writing "'v task_envelope"
  | Holding "'v task_envelope"

record 'v mesh =
  mesh_dir :: maildir
  mesh_at :: "nat \<Rightarrow> 'v phase"

abbreviation no_faults :: mail_faults where
  "no_faults \<equiv> (\<lambda>_. None)"

inductive claim_step :: "'v codec \<Rightarrow> 'v mesh \<Rightarrow> 'v mesh \<Rightarrow> bool" for J where
  step_list: "mesh_at m p = Idle \<Longrightarrow> list_envelopes J no_faults NewDir (mesh_dir m) = Inr es
    \<Longrightarrow> claim_step J m (m\<lparr>mesh_at := (mesh_at m)(p := Choosing owner (sort_key claim_order es))\<rparr>)"
| step_take: "mesh_at m p = Choosing owner (e # es) \<Longrightarrow> move_file (te_id e) (md_new (mesh_dir m)) (md_cur (mesh_dir m)) = Some (n, c)
    \<Longrightarrow> claim_step J m (m\<lparr>mesh_dir := (mesh_dir m)\<lparr>md_new := n, md_cur := c\<rparr>,
                          mesh_at := (mesh_at m)(p := Writing (claimed_envelope owner e))\<rparr>)"
| step_miss: "mesh_at m p = Choosing owner (e # es) \<Longrightarrow> move_file (te_id e) (md_new (mesh_dir m)) (md_cur (mesh_dir m)) = None
    \<Longrightarrow> claim_step J m (m\<lparr>mesh_at := (mesh_at m)(p := Choosing owner es)\<rparr>)"
| step_write: "mesh_at m p = Writing e \<Longrightarrow> to_json J e = Some bytes
    \<Longrightarrow> claim_step J m (m\<lparr>mesh_dir := (mesh_dir m)\<lparr>md_cur := AList.update (te_id e) bytes (md_cur (mesh_dir m))\<rparr>,
                          mesh_at := (mesh_at m)(p := Holding e)\<rparr>)"
| step_end: "claim_step J m (m\<lparr>mesh_at := (mesh_at m)(p := Idle)\<rparr>)"
| step_publish: "map_of (md_new (mesh_dir m)) i = None \<Longrightarrow> map_of (md_cur (mesh_dir m)) i = None
    \<Longrightarrow> claim_step J m (m\<lparr>mesh_dir := (mesh_dir m)\<lparr>md_new := AList.update i bytes (md_new (mesh_dir m))\<rparr>\<rparr>)"
| step_ack: "mesh_at m p = Holding e \<Longrightarrow> mq_ack fails (te_id e) (mesh_dir m) = (res, d)
    \<Longrightarrow> claim_step J m (m\<lparr>mesh_dir := d, mesh_at := (mesh_at m)(p := Idle)\<rparr>)"
| step_nack: "mesh_at m p = Holding e \<Longrightarrow> mq_nack fails (te_id e) (mesh_dir m) = (res, d)
    \<Longrightarrow> claim_step J m (m\<lparr>mesh_dir := d, mesh_at := (mesh_at m)(p := Idle)\<rparr>)"

inductive reclaim_step :: "'v codec \<Rightarrow> string \<Rightarrow> 'v mesh \<Rightarrow> 'v mesh \<Rightarrow> bool" for J where
  "map_of (md_cur (mesh_dir m)) n = Some c \<Longrightarrow> from_json J c = Some e \<Longrightarrow> te_owner e = Some owner
    \<Longrightarrow> mq_return no_faults n (mesh_dir m) = (Inr True, d) \<Longrightarrow> reclaim_step J owner m (m\<lparr>mesh_dir := d\<rparr>)"

fun held_id :: "'v phase \<Rightarrow> string option" where
  "held_id (Writing e) = Some (te_id e)"
| "held_id (Holding e) = Some (te_id e)"
| "held_id _ = None"

text \<open>What is held is in flight, once; and a held file is as its holder wrote it.\<close>

definition claims_ok :: "'v codec \<Rightarrow> 'v mesh \<Rightarrow> bool" where
  "claims_ok J m \<longleftrightarrow>
     apart (md_new (mesh_dir m)) (md_cur (mesh_dir m))
     \<and> (\<forall>p i. held_id (mesh_at m p) = Some i \<longrightarrow> map_of (md_cur (mesh_dir m)) i \<noteq> None)
     \<and> (\<forall>p q i. held_id (mesh_at m p) = Some i \<and> held_id (mesh_at m q) = Some i \<longrightarrow> p = q)
     \<and> (\<forall>p e. mesh_at m p = Holding e \<longrightarrow> map_of (md_cur (mesh_dir m)) (te_id e) = to_json J e)"

lemma claims_okD:
  assumes "claims_ok J m"
  shows "apart (md_new (mesh_dir m)) (md_cur (mesh_dir m))"
    and "held_id (mesh_at m p) = Some i \<Longrightarrow> map_of (md_cur (mesh_dir m)) i \<noteq> None"
    and "held_id (mesh_at m p) = Some i \<Longrightarrow> map_of (md_new (mesh_dir m)) i = None"
    and "held_id (mesh_at m p) = Some i \<Longrightarrow> held_id (mesh_at m q) = Some i \<Longrightarrow> p = q"
    and "mesh_at m p = Holding e \<Longrightarrow> map_of (md_cur (mesh_dir m)) (te_id e) = to_json J e"
  using assms apart_lemmas(4) [OF apart_lemmas(1)] unfolding claims_ok_def by blast+

text \<open>The one lemma for the steps of a process: the others hold the same and their files are not touched.\<close>

lemma claims_okI:
  assumes ok: "claims_ok J m" and ap: "apart (md_new d) (md_cur d)"
    and others: "\<And>q i. q \<noteq> p \<Longrightarrow> held_id (mesh_at m q) = Some i \<Longrightarrow> map_of (md_cur d) i = map_of (md_cur (mesh_dir m)) i"
    and own: "\<And>i. held_id ph = Some i \<Longrightarrow> map_of (md_cur d) i \<noteq> None \<and> (\<forall>q. q \<noteq> p \<longrightarrow> held_id (mesh_at m q) \<noteq> Some i)"
    and holding: "\<And>e. ph = Holding e \<Longrightarrow> map_of (md_cur d) (te_id e) = to_json J e"
  shows "claims_ok J (m\<lparr>mesh_dir := d, mesh_at := (mesh_at m)(p := ph)\<rparr>)"
proof -
  have "mesh_at m q = Holding e \<Longrightarrow> held_id (mesh_at m q) = Some (te_id e)" for q e by simp
  then show ?thesis
    using assms claims_okD(2,4,5) [OF ok] unfolding claims_ok_def by (auto split: if_splits)
qed

lemma claims_ok_quiet:
  assumes "claims_ok J m" and "held_id ph = None"
  shows "claims_ok J (m\<lparr>mesh_at := (mesh_at m)(p := ph)\<rparr>)"
proof -
  have "claims_ok J (m\<lparr>mesh_dir := mesh_dir m, mesh_at := (mesh_at m)(p := ph)\<rparr>)"
    by (rule claims_okI [OF assms(1)]) (use assms claims_okD(1) [OF assms(1)] in auto)
  then show ?thesis by simp
qed

lemma move_file_cases:
  assumes "move_file n a b = Some (a', b')"
  obtains c where "map_of a n = Some c" "a' = AList.delete n a" "b' = AList.update n c b"
  using assms by (auto simp: move_file_def split: option.splits)

lemma mq_return_cases:
  assumes "mq_return fails n d = (res, d')"
  obtains "d' = d" | c where "map_of (md_cur d) n = Some c"
    "d' = d\<lparr>md_cur := AList.delete n (md_cur d), md_new := AList.update n c (md_new d)\<rparr>"
proof (cases "d' = d")
  case False
  with assms obtain c nw where "move_file n (md_cur d) (md_new d) = Some (c, nw)" "d' = d\<lparr>md_cur := c, md_new := nw\<rparr>"
    by (auto simp: mq_return_def split: option.splits io_kind.splits)
  then show ?thesis by (auto elim!: move_file_cases intro: that(2))
qed (rule that(1))

lemma claim_step_ok: "claim_step J m m' \<Longrightarrow> claims_ok J m \<Longrightarrow> claims_ok J m'"
proof (induction rule: claim_step.induct)
  case (step_take m p owner e es n c)
  note D = claims_okD [OF step_take.prems]
  from step_take(2) obtain b where b: "map_of (md_new (mesh_dir m)) (te_id e) = Some b"
    "n = AList.delete (te_id e) (md_new (mesh_dir m))" "c = AList.update (te_id e) b (md_cur (mesh_dir m))"
    by (rule move_file_cases)
  have free: "held_id (mesh_at m q) \<noteq> Some (te_id e)" for q using D(3) [of q] b(1) by auto
  show ?case
  proof (rule claims_okI [OF step_take.prems])
    have "apart n (md_cur (mesh_dir m))" using D(1) by (simp add: b(2) apart_lemmas(2))
    then show "apart (md_new ((mesh_dir m)\<lparr>md_new := n, md_cur := c\<rparr>)) (md_cur ((mesh_dir m)\<lparr>md_new := n, md_cur := c\<rparr>))"
      using apart_lemmas(1) [OF apart_lemmas(3) [OF apart_lemmas(1)]] by (simp add: b(2,3) dir_simps)
  qed (use free in \<open>auto simp: b(3) dir_simps claimed_envelope_keeps\<close>)
next
  case (step_write m p e bytes)
  note D = claims_okD [OF step_write.prems]
  have held: "held_id (mesh_at m p) = Some (te_id e)" using step_write by simp
  have "apart (md_new (mesh_dir m)) (AList.update (te_id e) bytes (md_cur (mesh_dir m)))"
    using apart_lemmas(1) [OF apart_lemmas(3) [OF apart_lemmas(1) [OF D(1)] D(3) [OF held]]] .
  then show ?case
    using D(4) [OF held] step_write(2) by (intro claims_okI [OF step_write.prems]) (auto simp: dir_simps)
next
  case (step_publish m i bytes)
  note D = claims_okD [OF step_publish.prems]
  have "apart (AList.update i bytes (md_new (mesh_dir m))) (md_cur (mesh_dir m))"
    using D(1) step_publish by (simp add: apart_lemmas)
  then show ?case
    using step_publish.prems unfolding claims_ok_def by simp
next
  case (step_ack m p e fails res d)
  note D = claims_okD [OF step_ack.prems]
  have held: "held_id (mesh_at m p) = Some (te_id e)" using step_ack by simp
  have d: "d = mesh_dir m \<or> d = (mesh_dir m)\<lparr>md_cur := AList.delete (te_id e) (md_cur (mesh_dir m))\<rparr>"
    using step_ack(2) by (auto simp: mq_ack_def split: option.splits io_kind.splits)
  show ?case
    using d D(1) D(4) [OF held] by (intro claims_okI [OF step_ack.prems]) (auto simp: dir_simps intro: apart_lemmas(5))
next
  case (step_nack m p e fails res d)
  note D = claims_okD [OF step_nack.prems]
  have held: "held_id (mesh_at m p) = Some (te_id e)" using step_nack by simp
  have "\<exists>r. mq_return fails (te_id e) (mesh_dir m) = (r, d)"
    using step_nack(2) by (auto simp: mq_nack_def split: prod.splits sum.splits)
  then obtain r where r: "mq_return fails (te_id e) (mesh_dir m) = (r, d)" ..
  have d: "apart (md_new d) (md_cur d) \<and> (\<forall>i. i \<noteq> te_id e \<longrightarrow> map_of (md_cur d) i = map_of (md_cur (mesh_dir m)) i)"
    using r
  proof (rule mq_return_cases)
    fix c assume d: "d = (mesh_dir m)\<lparr>md_cur := AList.delete (te_id e) (md_cur (mesh_dir m)),
      md_new := AList.update (te_id e) c (md_new (mesh_dir m))\<rparr>"
    have "apart (md_new (mesh_dir m)) (AList.delete (te_id e) (md_cur (mesh_dir m)))" using D(1) by (rule apart_lemmas(5))
    then show ?thesis using apart_lemmas(3) by (simp add: d dir_simps)
  qed (use D(1) in simp)
  have "q \<noteq> p \<Longrightarrow> held_id (mesh_at m q) = Some i \<Longrightarrow> map_of (md_cur d) i = map_of (md_cur (mesh_dir m)) i" for q i
    using D(4) [OF held, of q] d by (cases "i = te_id e") auto
  then show ?case using d by (intro claims_okI [OF step_nack.prems]) simp_all
next
  case (step_list m p es owner)
  show ?case by (rule claims_ok_quiet [OF step_list.prems]) simp
next
  case (step_miss m p owner e es)
  show ?case by (rule claims_ok_quiet [OF step_miss.prems]) simp
next
  case (step_end m p)
  show ?case by (rule claims_ok_quiet [OF step_end.prems]) simp
qed

lemma claim_steps_ok: "(claim_step J)\<^sup>*\<^sup>* m m' \<Longrightarrow> claims_ok J m \<Longrightarrow> claims_ok J m'"
  by (induction rule: rtranclp_induct) (auto intro: claim_step_ok)

section \<open>Properties\<close>

definition table_codec :: "(string \<times> 'v task_envelope) list \<Rightarrow> 'v codec" where
  "table_codec tbl = \<lparr>to_json = map_of (map (\<lambda>(c, e). (e, c)) tbl), from_json = map_of tbl\<rparr>"

lemma table_codec_ok: "distinct (map fst tbl) \<Longrightarrow> codec_ok (table_codec tbl)"
  by (auto simp: table_codec_def codec_ok_def dest!: map_of_SomeD)

definition demo_task :: "u32 \<Rightarrow> string option \<Rightarrow> string task_envelope" where
  "demo_task k owner = \<lparr>te_id = ''t1'', te_payload = ''build'', te_priority = 3, te_created_at = 0, te_attempts = k, te_owner = owner\<rparr>"

definition demo_json :: "string codec" where
  "demo_json = table_codec [(''j0'', demo_task 0 None), (''j1'', demo_task 1 (Some ''a'')),
     (''j2'', demo_task 2 (Some ''a'')), (''j3'', demo_task 2 (Some ''b''))]"

definition empty_queue :: maildir where
  "empty_queue = \<lparr>md_tmp = [], md_new = [], md_cur = []\<rparr>"

lemma demo_json_ok: "codec_ok demo_json"
  unfolding demo_json_def by (rule table_codec_ok) simp

lemma demo_json_simps:
  "to_json demo_json (demo_task 0 None) = Some ''j0''" "to_json demo_json (demo_task 1 (Some ''a'')) = Some ''j1''"
  "to_json demo_json (demo_task 2 (Some ''a'')) = Some ''j2''" "to_json demo_json (demo_task 2 (Some ''b'')) = Some ''j3''"
  "from_json demo_json ''j0'' = Some (demo_task 0 None)" "from_json demo_json ''j1'' = Some (demo_task 1 (Some ''a''))"
  "from_json demo_json ''j2'' = Some (demo_task 2 (Some ''a''))" "from_json demo_json [] = None"
  by (simp_all add: demo_json_def table_codec_def demo_task_def)

lemma empty_queue_ok: "mail_inv J empty_queue" "pending J empty_queue i = None"
  by (simp_all add: mail_inv_def empty_queue_def dir_ok_def apart_def pending_def tasks_in_def)



lemma read_entries_no_faults: "read_entries J no_faults d es = Inr (List.map_filter (\<lambda>(n, c). from_json J c) es)"
  by (induction es) (auto simp: List.map_filter_simps split: option.splits)

lemma read_entries_in: "e \<in> set (List.map_filter (\<lambda>(n, c). from_json J c) es) \<longleftrightarrow> (\<exists>n c. (n, c) \<in> set es \<and> from_json J c = Some e)"
  by (induction es) (auto simp: List.map_filter_simps split: option.splits)

lemma read_entries_error: "read_entries J fails d es = Inl err \<Longrightarrow> \<exists>n. err = MailIo (DirEnt d n)"
  by (induction J fails d es rule: read_entries.induct) (auto split: if_splits sum.splits option.splits)

text \<open>The tasks of a directory and its files.\<close>

lemma dir_ok_files:
  assumes "dir_ok J d"
  shows "e \<in> set (List.map_filter (\<lambda>(n, c). from_json J c) d) \<longleftrightarrow> (\<exists>c. map_of d (te_id e) = Some c \<and> from_json J c = Some e)"
proof
  assume "e \<in> set (List.map_filter (\<lambda>(n, c). from_json J c) d)"
  then obtain n c where "(n, c) \<in> set d" "from_json J c = Some e" by (auto simp: read_entries_in)
  moreover from this have "map_of d n = Some c" using assms by (simp add: dir_ok_def)
  moreover from calculation have "te_id e = n" using assms unfolding dir_ok_def by fastforce
  ultimately show "\<exists>c. map_of d (te_id e) = Some c \<and> from_json J c = Some e" by blast
qed (auto simp: read_entries_in dest: map_of_SomeD)

lemma dir_ok_nonempty:
  assumes "dir_ok J d" and "List.map_filter (\<lambda>(n, c). from_json J c) d = []"
  shows "d = []"
proof (cases d)
  case (Cons x xs)
  then have "map_of d (fst x) = Some (snd x)" by (cases x) simp
  then obtain e where "from_json J (snd x) = Some e" using assms(1) unfolding dir_ok_def by blast
  then have False using assms(2) by (cases x) (simp add: Cons List.map_filter_simps)
  then show ?thesis ..
qed

text \<open>
  Without failures a claim on a queue with ready tasks takes one that is first by priority and
  then by time, hands it out with one more attempt and with its new owner, and moves exactly its
  file; it returns nothing only when nothing is ready.
\<close>

theorem claim_takes_best:
  assumes "mail_inv J s"
    and "\<forall>n c e. map_of (md_new s) n = Some c \<and> from_json J c = Some e \<longrightarrow> to_json J (claimed_envelope owner e) \<noteq> None"
  shows "case mq_claim J no_faults owner s of
      (Inr (Some env), s') \<Rightarrow> \<exists>e c. map_of (md_new s) (te_id e) = Some c \<and> from_json J c = Some e \<and> env = claimed_envelope owner e
        \<and> (\<forall>n c' e'. map_of (md_new s) n = Some c' \<and> from_json J c' = Some e' \<longrightarrow> claim_order e \<le> claim_order e')
        \<and> md_new s' = AList.delete (te_id e) (md_new s)
        \<and> md_cur s' = AList.update (te_id e) (the (to_json J env)) (md_cur s)
    | (Inr None, s') \<Rightarrow> md_new s = [] \<and> s' = s
    | (Inl _, _) \<Rightarrow> False"
proof -
  let ?out = "List.map_filter (\<lambda>(n, c). from_json J c) (md_new s)"
  have ok: "dir_ok J (md_new s)" using assms(1) by (simp add: mail_inv_def)
  have listed: "list_envelopes J no_faults NewDir s = Inr ?out"
    by (simp add: list_envelopes_def dir_files_def read_entries_no_faults)
  show ?thesis
  proof (cases "?out = []")
    case True
    then show ?thesis using dir_ok_nonempty [OF ok] by (simp add: mq_claim_def listed)
  next
    case False
    then obtain e es where es: "sort_key claim_order ?out = e # es" by (cases "sort_key claim_order ?out") (auto dest: arg_cong [of _ _ set])
    then have e: "e \<in> set ?out" by (metis list.set_intros(1) set_sort)
    then obtain c where c: "map_of (md_new s) (te_id e) = Some c" "from_json J c = Some e" using dir_ok_files [OF ok] by blast
    have best: "claim_order e \<le> claim_order e'" if "map_of (md_new s) n = Some c'" "from_json J c' = Some e'" for n c' e'
    proof -
      have "e' \<in> set (e # es)" using that by (metis es set_sort read_entries_in map_of_SomeD)
      moreover have "sorted (map claim_order (e # es))" by (metis es sorted_sort_key)
      ultimately show ?thesis by auto
    qed
    obtain b where b: "to_json J (claimed_envelope owner e) = Some b" using assms(2) c by blast
    have "mq_claim J no_faults owner s = (Inr (Some (claimed_envelope owner e)),
        s\<lparr>md_new := AList.delete (te_id e) (md_new s), md_cur := AList.update (te_id e) b (md_cur s)\<rparr>)"
      using False by (simp add: mq_claim_def listed es move_file_def c b)
    then show ?thesis using c best b by (simp, intro exI [of _ e] exI [of _ c]) (auto intro: best)
  qed
qed

definition demo_queue :: maildir where
  "demo_queue = \<lparr>md_tmp = [], md_new = [(''t1'', ''j1'')], md_cur = []\<rparr>"

lemma demo_queue_ok: "mail_inv demo_json demo_queue"
  by (simp add: mail_inv_def demo_queue_def dir_ok_def apart_def demo_json_simps demo_task_def)

theorem claim_takes_best_witness:
  "\<exists>s'. mq_claim demo_json no_faults (Some ''b'') demo_queue = (Inr (Some (demo_task 2 (Some ''b''))), s') \<and> md_new s' = []"
proof -
  have env: "claimed_envelope (Some ''b'') (demo_task 1 (Some ''a'')) = demo_task 2 (Some ''b'')"
    by (simp add: claimed_envelope_def demo_task_def sat_add_def)
  have "\<forall>n c e. map_of (md_new demo_queue) n = Some c \<and> from_json demo_json c = Some e
      \<longrightarrow> to_json demo_json (claimed_envelope (Some ''b'') e) \<noteq> None"
    by (auto simp: demo_queue_def demo_json_simps env split: if_splits)
  from claim_takes_best [OF demo_queue_ok this] show ?thesis
    by (auto simp: demo_queue_def demo_json_simps env split: prod.splits sum.splits option.splits if_splits)
qed


text \<open>
  C20: However the processes that claim, acknowledge and return tasks interleave, and whichever of
  them end half way, two of them never hold one task, and the file of a task that is held is in
  \<open>cur\<close> as its holder wrote it and not in \<open>new\<close>.
\<close>

theorem claims_exclusive:
  assumes "claims_ok J m" and "(claim_step J)\<^sup>*\<^sup>* m m'" and "mesh_at m' p = Holding e"
  shows "map_of (md_cur (mesh_dir m')) (te_id e) = to_json J e \<and> map_of (md_new (mesh_dir m')) (te_id e) = None
    \<and> (\<forall>q e'. q \<noteq> p \<and> mesh_at m' q = Holding e' \<longrightarrow> te_id e' \<noteq> te_id e)"
proof -
  note D = claims_okD [OF claim_steps_ok [OF assms(2,1)]]
  show ?thesis using D(3-5) [of p] assms(3) by (metis held_id.simps(2))
qed

definition demo_mesh :: "string mesh" where
  "demo_mesh = \<lparr>mesh_dir = demo_queue, mesh_at = (\<lambda>_. Idle)\<rparr>"

lemma demo_mesh_ok: "claims_ok demo_json demo_mesh"
  by (simp add: claims_ok_def demo_mesh_def demo_queue_def apart_def)

lemma demo_claimed:
  "claimed_envelope None (demo_task 1 (Some ''a'')) = demo_task 2 (Some ''a'')"
  "claimed_envelope (Some ''b'') (demo_task 1 (Some ''a'')) = demo_task 2 (Some ''b'')"
  "te_id (demo_task k w) = ''t1''" "te_owner (demo_task k w) = w"
  by (simp_all add: claimed_envelope_def demo_task_def sat_add_def)

text \<open>A process on an idle slot claims the one ready task: three steps.\<close>

lemma demo_list:
  assumes "mesh_at m p = Idle" and "md_new (mesh_dir m) = [(''t1'', ''j1'')]"
  shows "claim_step demo_json m (m\<lparr>mesh_at := (mesh_at m)(p := Choosing owner [demo_task 1 (Some ''a'')])\<rparr>)"
  using step_list [OF assms(1), of demo_json "[demo_task 1 (Some ''a'')]" owner] assms(2)
  by (simp add: list_envelopes_def dir_files_def demo_json_simps)

lemma demo_take:
  assumes "mesh_at m p = Choosing owner [demo_task 1 (Some ''a'')]" and "md_new (mesh_dir m) = [(''t1'', ''j1'')]"
  shows "claim_step demo_json m (m\<lparr>mesh_dir := (mesh_dir m)\<lparr>md_new := [], md_cur := AList.update ''t1'' ''j1'' (md_cur (mesh_dir m))\<rparr>,
    mesh_at := (mesh_at m)(p := Writing (claimed_envelope owner (demo_task 1 (Some ''a''))))\<rparr>)"
  by (rule step_take [OF assms(1)]) (simp add: move_file_def demo_claimed assms(2))

theorem claims_exclusive_witness:
  "\<exists>m'. (claim_step demo_json)\<^sup>*\<^sup>* demo_mesh m' \<and> mesh_at m' 0 = Holding (demo_task 2 (Some ''b''))
     \<and> map_of (md_cur (mesh_dir m')) ''t1'' = Some ''j3'' \<and> map_of (md_new (mesh_dir m')) ''t1'' = None"
proof -
  define m1 where "m1 = demo_mesh\<lparr>mesh_at := (mesh_at demo_mesh)(0 := Choosing (Some ''b'') [demo_task 1 (Some ''a'')])\<rparr>"
  define m2 where "m2 = m1\<lparr>mesh_dir := (mesh_dir m1)\<lparr>md_new := [], md_cur := AList.update ''t1'' ''j1'' (md_cur (mesh_dir m1))\<rparr>,
    mesh_at := (mesh_at m1)(0 := Writing (demo_task 2 (Some ''b'')))\<rparr>"
  define m3 where "m3 = m2\<lparr>mesh_dir := (mesh_dir m2)\<lparr>md_cur := AList.update ''t1'' ''j3'' (md_cur (mesh_dir m2))\<rparr>,
    mesh_at := (mesh_at m2)(0 := Holding (demo_task 2 (Some ''b'')))\<rparr>"
  have "claim_step demo_json demo_mesh m1"
    unfolding m1_def by (rule demo_list) (simp_all add: demo_mesh_def demo_queue_def)
  moreover have "claim_step demo_json m1 m2"
    using demo_take [of m1 0 "Some ''b''"] by (simp add: m1_def m2_def demo_mesh_def demo_queue_def demo_claimed)
  moreover have "claim_step demo_json m2 m3"
    using step_write [of m2 0 "demo_task 2 (Some ''b'')" demo_json "''j3''"] by (simp add: m2_def m3_def demo_json_simps demo_claimed)
  ultimately have r: "(claim_step demo_json)\<^sup>*\<^sup>* demo_mesh m3"
    by (meson converse_rtranclp_into_rtranclp rtranclp.rtrancl_refl)
  have h: "mesh_at m3 0 = Holding (demo_task 2 (Some ''b''))" by (simp add: m3_def)
  show ?thesis using claims_exclusive [OF demo_mesh_ok r h] r h by (auto simp: demo_claimed demo_json_simps)
qed

text \<open>
  C21: \<open>reclaim_owner\<close> breaks this. \<open>nack\<close> leaves the owner in the file, and \<open>claim\<close> renames
  the file before it writes the new owner. A reclaim for the old owner between the two puts the
  file back, the write makes it a second time, and another process claims the task as well: from a
  queue with one task, two processes hold it.
\<close>

theorem reclaim_hands_task_out_twice:
  "\<exists>m1 m2 m3. (claim_step demo_json)\<^sup>*\<^sup>* demo_mesh m1 \<and> reclaim_step demo_json ''a'' m1 m2 \<and> (claim_step demo_json)\<^sup>*\<^sup>* m2 m3
     \<and> mesh_at m3 0 = Holding (demo_task 2 (Some ''a'')) \<and> mesh_at m3 1 = Holding (demo_task 2 (Some ''b''))"
proof -
  let ?e = "demo_task 1 (Some ''a'')"
  let ?m = "\<lambda>n c p q. \<lparr>mesh_dir = \<lparr>md_tmp = [], md_new = n, md_cur = c\<rparr>, mesh_at = (\<lambda>_. Idle)(0 := p, 1 := q)\<rparr>"
  let ?j = "[(''t1'', ''j1'')]"
  let ?w = "Writing (demo_task 2 (Some ''a''))" and ?h = "Holding (demo_task 2 (Some ''a''))"
  have s1: "claim_step demo_json demo_mesh (?m ?j [] (Choosing None [?e]) Idle)"
    using demo_list [of demo_mesh 0 None] by (simp add: demo_mesh_def demo_queue_def fun_upd_idem)
  have s2: "claim_step demo_json (?m ?j [] (Choosing None [?e]) Idle) (?m [] ?j ?w Idle)"
    using demo_take [of "?m ?j [] (Choosing None [?e]) Idle" 0 None] by (simp add: demo_claimed fun_upd_twist)
  have r: "reclaim_step demo_json ''a'' (?m [] ?j ?w Idle) (?m ?j [] ?w Idle)"
    using reclaim_step.intros [of "?m [] ?j ?w Idle" "''t1''" "''j1''" demo_json ?e "''a''" "\<lparr>md_tmp = [], md_new = ?j, md_cur = []\<rparr>"]
    by (simp add: demo_json_simps demo_claimed mq_return_def move_file_def)
  have s3: "claim_step demo_json (?m ?j [] ?w Idle) (?m ?j [(''t1'', ''j2'')] ?h Idle)"
    using step_write [of "?m ?j [] ?w Idle" 0 "demo_task 2 (Some ''a'')" demo_json "''j2''"]
    by (simp add: demo_json_simps demo_claimed fun_upd_twist)
  have s4: "claim_step demo_json (?m ?j [(''t1'', ''j2'')] ?h Idle) (?m ?j [(''t1'', ''j2'')] ?h (Choosing (Some ''b'') [?e]))"
    using demo_list [of "?m ?j [(''t1'', ''j2'')] ?h Idle" 1 "Some ''b''"] by simp
  have s5: "claim_step demo_json (?m ?j [(''t1'', ''j2'')] ?h (Choosing (Some ''b'') [?e])) (?m [] ?j ?h (Writing (demo_task 2 (Some ''b''))))"
    using demo_take [of "?m ?j [(''t1'', ''j2'')] ?h (Choosing (Some ''b'') [?e])" 1 "Some ''b''"] by (simp add: demo_claimed)
  have s6: "claim_step demo_json (?m [] ?j ?h (Writing (demo_task 2 (Some ''b'')))) (?m [] [(''t1'', ''j3'')] ?h (Holding (demo_task 2 (Some ''b''))))"
    using step_write [of "?m [] ?j ?h (Writing (demo_task 2 (Some ''b'')))" 1 "demo_task 2 (Some ''b'')" demo_json "''j3''"]
    by (simp add: demo_json_simps demo_claimed)
  have before: "(claim_step demo_json)\<^sup>*\<^sup>* demo_mesh (?m [] ?j ?w Idle)"
    using s1 s2 by (meson rtranclp.rtrancl_refl rtranclp.rtrancl_into_rtrancl)
  have after: "(claim_step demo_json)\<^sup>*\<^sup>* (?m ?j [] ?w Idle) (?m [] [(''t1'', ''j3'')] ?h (Holding (demo_task 2 (Some ''b''))))"
    using s3 s4 s5 s6 by (meson rtranclp.rtrancl_refl rtranclp.rtrancl_into_rtrancl)
  show ?thesis by (intro exI conjI, rule before, rule r, rule after) simp_all
qed

lemma torn_claim_loop:
  assumes "from_json J [] = None"
  shows "claim_loop J fails owner es d = (Inl (MailIo (WriteCur i)), d') \<Longrightarrow> mail_inv J d
    \<Longrightarrow> pending J d i \<noteq> None \<and> pending J d' i = None \<and> map_of (md_cur d') i = Some []"
proof (induction es arbitrary: d)
  case (Cons e es)
  show ?case
  proof (cases "fails (TakeTask (te_id e)) = None \<and> move_file (te_id e) (md_new d) (md_cur d) \<noteq> None")
    case True
    then obtain n c where m: "move_file (te_id e) (md_new d) (md_cur d) = Some (n, c)" by auto
    obtain b where b: "map_of (md_new d) (te_id e) = Some b" "n = AList.delete (te_id e) (md_new d)"
      using m by (rule move_file_cases)
    have d': "i = te_id e" "d' = d\<lparr>md_new := n, md_cur := AList.update i [] c\<rparr>"
      using Cons.prems(1) True m by (auto simp: Let_def split: option.splits if_splits)
    have "\<exists>e'. from_json J b = Some e'" using Cons.prems(2) b(1) unfolding mail_inv_def dir_ok_def by blast
    then have "tasks_in J (md_new d) i \<noteq> None" using b(1) by (auto simp: tasks_in_def d'(1))
    then have "pending J d i \<noteq> None" by (auto simp: pending_at split: option.split)
    moreover have "pending J d' i = None" using b(2) assms by (simp add: pending_at d' tasks_in_update tasks_in_delete)
    ultimately show ?thesis by (simp add: d'(2) dir_simps)
  next
    case False
    then have "claim_loop J fails owner es d = (Inl (MailIo (WriteCur i)), d')"
      using Cons.prems(1) by (auto split: option.splits io_kind.splits)
    then show ?thesis using Cons by blast
  qed
qed simp

text \<open>
  \<open>claim\<close> overwrites the file in \<open>cur\<close> in place. When the write fails after it has
  truncated the file, the task is gone: it was pending before and is not pending afterwards,
  although tasks left in \<open>cur\<close> are said to stay visible.
\<close>

theorem torn_claim_hides_task:
  assumes "mail_inv J s" and "from_json J [] = None" and "mq_claim J fails owner s = (Inl (MailIo (WriteCur i)), s')"
  shows "pending J s i \<noteq> None \<and> pending J s' i = None \<and> map_of (md_cur s') i = Some []"
proof (cases "list_envelopes J fails NewDir s")
  case (Inl err)
  then have "err \<noteq> MailIo (WriteCur i)"
    by (auto simp: list_envelopes_def split: option.splits io_kind.splits dest: read_entries_error)
  then show ?thesis using assms(3) Inl by (simp add: mq_claim_def)
next
  case (Inr out)
  then have "claim_loop J fails owner (sort_key claim_order out) s = (Inl (MailIo (WriteCur i)), s')"
    using assms(3) by (auto simp: mq_claim_def split: if_splits)
  then show ?thesis by (rule torn_claim_loop [OF assms(2) _ assms(1)])
qed

theorem torn_claim_hides_task_witness:
  "\<exists>s'. mq_claim demo_json (\<lambda>op. if op = WriteCur ''t1'' then Some OtherIo else None) (Some ''b'') demo_queue
       = (Inl (MailIo (WriteCur ''t1'')), s') \<and> pending demo_json s' ''t1'' = None"
proof -
  let ?f = "\<lambda>op. if op = WriteCur ''t1'' then Some OtherIo else None"
  have "\<exists>s'. mq_claim demo_json ?f (Some ''b'') demo_queue = (Inl (MailIo (WriteCur ''t1'')), s')"
    by (simp add: mq_claim_def list_envelopes_def dir_files_def demo_queue_def demo_json_simps demo_claimed move_file_def Let_def)
  then obtain s' where "mq_claim demo_json ?f (Some ''b'') demo_queue = (Inl (MailIo (WriteCur ''t1'')), s')" ..
  with torn_claim_hides_task [OF demo_queue_ok demo_json_simps(8) this] show ?thesis by blast
qed

end
