(* ===== verification/Resilience.thy ===== *)
theory Resilience
  imports Prelude
begin

text \<open>
  The small control modules of the command line tool: delays between attempts
  (\<open>src/backoff.rs\<close>, \<open>src/retry.rs\<close>), the sliding window of the HTTP server
  (\<open>src/rate_limiter.rs\<close>, \<open>src/serve_rate_limit.rs\<close>), the restart limit
  (\<open>src/watchdog.rs\<close>), the bounded queue (\<open>src/bounded_queue.rs\<close>) and the debouncer
  (\<open>src/debounce.rs\<close>). The clock is an argument: an instant is a number of nanoseconds, which
  may lie before the start of the clock.
\<close>

section \<open>Delays\<close>

text \<open>\<open>u128\<close> arithmetic: the operations saturate, and the conversion to \<open>u64\<close> truncates.\<close>

definition u128_max :: nat where
  "u128_max = 2 ^ 128 - 1"

definition u128_mul :: "nat \<Rightarrow> nat \<Rightarrow> nat" where
  "u128_mul a b = min (a * b) u128_max"

definition u128_pow :: "nat \<Rightarrow> nat \<Rightarrow> nat" where
  "u128_pow a n = min (a ^ n) u128_max"

definition as_u64 :: "nat \<Rightarrow> nat" where
  "as_u64 n = n mod 2 ^ 64"

datatype backoff_strategy = Fixed | Linear | Exponential

record backoff =
  bo_strategy :: backoff_strategy
  bo_base :: duration
  bo_max :: duration

definition delay_for :: "backoff \<Rightarrow> u32 \<Rightarrow> duration" where
  "delay_for b attempt =
     (let base = as_millis (bo_base b);
          mx = as_millis (bo_max b);
          raw = (case bo_strategy b of
                   Fixed \<Rightarrow> base
                 | Linear \<Rightarrow> u128_mul base (unat attempt + 1)
                 | Exponential \<Rightarrow> u128_mul base (u128_pow 2 (unat attempt)));
          capped = as_u64 (min raw mx)
      in from_millis capped)"

record retry_policy =
  max_attempts :: u32
  base_delay :: duration
  max_delay :: duration

definition default_retry_policy :: retry_policy where
  "default_retry_policy = \<lparr>max_attempts = 3, base_delay = from_millis 100, max_delay = from_secs 5\<rparr>"

definition should_retry :: "u32 \<Rightarrow> retry_policy \<Rightarrow> bool" where
  "should_retry attempt policy \<longleftrightarrow> attempt < max_attempts policy"

definition compute_delay :: "u32 \<Rightarrow> retry_policy \<Rightarrow> duration" where
  "compute_delay attempt policy =
     (let base = as_millis (base_delay policy);
          pow = u128_pow 2 (unat attempt);
          multiplied = u128_mul base pow;
          capped = as_u64 (min multiplied (as_millis (max_delay policy)))
      in from_millis capped)"

lemma unat_next: "a < b \<Longrightarrow> unat (a + 1) = Suc (unat a)" for a b :: "'a::len word"
proof -
  assume "a < b"
  then have "Suc (unat a) < 2 ^ LENGTH('a)" using unat_bound [of b] unfolding word_less_nat_alt by linarith
  then show ?thesis by (simp add: unat_word_ariths)
qed

text \<open>The action is a function on its own state; the result is the number of calls.\<close>

function retry_loop :: "u32 \<Rightarrow> ('s \<Rightarrow> bool \<times> 's) \<Rightarrow> u32 \<Rightarrow> 's \<Rightarrow> u32 \<times> 's" where
  "retry_loop limit f attempt s =
     (if attempt < limit
      then (case f s of (True, s') \<Rightarrow> (attempt + 1, s') | (False, s') \<Rightarrow> retry_loop limit f (attempt + 1) s')
      else (attempt, s))"
  by pat_completeness auto
termination
  by (relation "measure (\<lambda>(limit, f, attempt, s). unat limit - unat attempt)")
    (auto simp: unat_next word_less_nat_alt)

definition retry_until_success :: "retry_policy \<Rightarrow> ('s \<Rightarrow> bool \<times> 's) \<Rightarrow> 's \<Rightarrow> u32 \<times> 's" where
  "retry_until_success policy f s = retry_loop (max_attempts policy) f 0 s"

section \<open>Rate limit\<close>

type_synonym instant = int

record rate_limiter =
  max_per_window :: nat
  rl_window :: duration
  rl_hits :: "instant list"

definition rl_new :: "nat \<Rightarrow> duration \<Rightarrow> rate_limiter" where
  "rl_new mx w = \<lparr>max_per_window = mx, rl_window = w, rl_hits = []\<rparr>"

definition rl_try_acquire :: "instant \<Rightarrow> rate_limiter \<Rightarrow> bool \<times> rate_limiter" where
  "rl_try_acquire now rl =
     (let cutoff = now - int (rl_window rl);
          hits = filter (\<lambda>t. t > cutoff) (rl_hits rl)
      in if length hits < max_per_window rl
         then (True, rl\<lparr>rl_hits := hits @ [now]\<rparr>)
         else (False, rl\<lparr>rl_hits := hits\<rparr>))"

definition rl_available :: "rate_limiter \<Rightarrow> nat" where
  "rl_available rl = max_per_window rl - length (rl_hits rl)"

definition rl_reset :: "rate_limiter \<Rightarrow> rate_limiter" where
  "rl_reset rl = rl\<lparr>rl_hits := []\<rparr>"

fun min_hit :: "instant list \<Rightarrow> instant option" where
  "min_hit [] = None"
| "min_hit (t # ts) = (case min_hit ts of None \<Rightarrow> Some t | Some u \<Rightarrow> Some (min t u))"

definition rl_retry_after_secs :: "instant \<Rightarrow> rate_limiter \<Rightarrow> nat" where
  "rl_retry_after_secs now rl =
     (if length (rl_hits rl) < max_per_window rl then 0
      else
        let cutoff = now - int (rl_window rl)
        in case min_hit (filter (\<lambda>t. t > cutoff) (rl_hits rl)) of
             Some t \<Rightarrow> as_secs (rl_window rl - nat (now - t))
           | None \<Rightarrow> 0)"

definition is_probe_path :: "string \<Rightarrow> bool" where
  "is_probe_path path \<longleftrightarrow> path = ''/healthz'' \<or> path = ''/readyz''"

record serve_rate_limit =
  srl_limiter :: rate_limiter
  srl_window :: duration
  srl_max_per_window :: nat

definition srl_new :: "nat \<Rightarrow> duration \<Rightarrow> serve_rate_limit" where
  "srl_new mx w = \<lparr>srl_limiter = rl_new mx w, srl_window = w, srl_max_per_window = mx\<rparr>"

text \<open>The two environment variables and the two fields of the configuration are arguments.\<close>

definition srl_from_env_or_config ::
  "string option \<Rightarrow> string option \<Rightarrow> nat option \<Rightarrow> nat option \<Rightarrow> serve_rate_limit option" where
  "srl_from_env_or_config env_max env_window cfg_max cfg_window =
     (let parsed = (\<lambda>v. case v of None \<Rightarrow> None | Some s \<Rightarrow> parse_uint (2 ^ 64) s);
          orr = (\<lambda>a b. case a of None \<Rightarrow> b | Some x \<Rightarrow> Some x)
      in case orr (parsed env_max) cfg_max of
           None \<Rightarrow> None
         | Some mx \<Rightarrow>
             if mx = 0 then None
             else
               let window_secs = (case orr (parsed env_window) cfg_window of None \<Rightarrow> 60 | Some w \<Rightarrow> w)
               in Some (srl_new mx (from_secs window_secs)))"

definition srl_try_acquire :: "instant \<Rightarrow> serve_rate_limit \<Rightarrow> bool \<times> serve_rate_limit" where
  "srl_try_acquire now l =
     (case rl_try_acquire now (srl_limiter l) of (ok, rl) \<Rightarrow> (ok, l\<lparr>srl_limiter := rl\<rparr>))"

definition srl_retry_after_secs :: "instant \<Rightarrow> serve_rate_limit \<Rightarrow> nat" where
  "srl_retry_after_secs now l = max (rl_retry_after_secs now (srl_limiter l)) 1"

section \<open>Debouncer\<close>

record debouncer =
  last_call :: instant
  quiet_period :: duration

definition db_new :: "instant \<Rightarrow> duration \<Rightarrow> debouncer" where
  "db_new now q = \<lparr>last_call = now - int (from_secs (60 * 365 * 100)), quiet_period = q\<rparr>"

definition db_touch :: "instant \<Rightarrow> debouncer \<Rightarrow> debouncer" where
  "db_touch now d = d\<lparr>last_call := now\<rparr>"

text \<open>\<open>duration_since\<close> is zero for a later instant.\<close>

definition db_should_fire :: "instant \<Rightarrow> debouncer \<Rightarrow> bool" where
  "db_should_fire now d \<longleftrightarrow> nat (now - last_call d) \<ge> quiet_period d"

definition db_remaining :: "instant \<Rightarrow> debouncer \<Rightarrow> duration" where
  "db_remaining now d =
     (let elapsed = nat (now - last_call d)
      in if elapsed \<ge> quiet_period d then 0 else quiet_period d - elapsed)"

section \<open>Bounded queue\<close>

record 'a bounded_queue =
  bq_items :: "'a list"
  bq_capacity :: nat

text \<open>The constructor panics for a capacity of zero.\<close>

definition bq_new :: "nat \<Rightarrow> 'a bounded_queue option" where
  "bq_new capacity = (if capacity > 0 then Some \<lparr>bq_items = [], bq_capacity = capacity\<rparr> else None)"

definition bq_push :: "'a \<Rightarrow> 'a bounded_queue \<Rightarrow> ('a + unit) \<times> 'a bounded_queue" where
  "bq_push x q = (if length (bq_items q) \<ge> bq_capacity q then (Inl x, q) else (Inr (), q\<lparr>bq_items := bq_items q @ [x]\<rparr>))"

definition bq_pop :: "'a bounded_queue \<Rightarrow> 'a option \<times> 'a bounded_queue" where
  "bq_pop q = (case bq_items q of [] \<Rightarrow> (None, q) | x # xs \<Rightarrow> (Some x, q\<lparr>bq_items := xs\<rparr>))"

definition bq_is_full :: "'a bounded_queue \<Rightarrow> bool" where
  "bq_is_full q \<longleftrightarrow> length (bq_items q) \<ge> bq_capacity q"

section \<open>Watchdog\<close>

datatype watchdog_state = Running | Stopped | MaxRestartsExceeded

definition wd_can_restart :: "watchdog_state \<Rightarrow> bool" where
  "wd_can_restart st \<longleftrightarrow> st = Running \<or> st = Stopped"

record watchdog_entry =
  wd_name :: string
  restart_count :: u32
  max_restarts :: u32
  wd_state :: watchdog_state

definition wd_entry_new :: "string \<Rightarrow> u32 \<Rightarrow> watchdog_entry" where
  "wd_entry_new name mx = \<lparr>wd_name = name, restart_count = 0, max_restarts = mx, wd_state = Running\<rparr>"

definition wd_entry_on_exit :: "watchdog_entry \<Rightarrow> watchdog_state \<times> watchdog_entry" where
  "wd_entry_on_exit e =
     (if restart_count e \<ge> max_restarts e
      then (MaxRestartsExceeded, e\<lparr>wd_state := MaxRestartsExceeded\<rparr>)
      else (Running, e\<lparr>restart_count := sat_add (restart_count e) 1, wd_state := Running\<rparr>))"

type_synonym watchdog = "string \<rightharpoonup> watchdog_entry"

definition wd_register :: "string \<Rightarrow> u32 \<Rightarrow> watchdog \<Rightarrow> watchdog_entry \<times> watchdog" where
  "wd_register name mx w = (let e = wd_entry_new name mx in (e, w(name \<mapsto> e)))"

definition wd_on_exit :: "string \<Rightarrow> watchdog \<Rightarrow> watchdog_state option \<times> watchdog" where
  "wd_on_exit name w =
     (case w name of
        None \<Rightarrow> (None, w)
      | Some e \<Rightarrow> (case wd_entry_on_exit e of (st, e') \<Rightarrow> (Some st, w(name \<mapsto> e'))))"

definition wd_state_of :: "string \<Rightarrow> watchdog \<Rightarrow> watchdog_state option" where
  "wd_state_of name w = map_option wd_state (w name)"

section \<open>Lemmas\<close>

definition millis_fit :: "duration \<Rightarrow> bool" where
  "millis_fit d \<longleftrightarrow> as_millis d < 2 ^ 64"

text \<open>
  The saturation is invisible as soon as the limit fits: below it the product is exact, above it
  both are above the limit.
\<close>

lemma u128_limit: "m < 2 ^ 64 \<Longrightarrow> min (u128_mul a b) m = min (a * b) m"
  by (simp add: u128_mul_def u128_max_def min_def)

lemma u128_pow_limit:
  assumes "m < 2 ^ 64"
  shows "min (u128_mul a (u128_pow 2 n)) m = min (a * 2 ^ n) m"
proof (cases "a = 0 \<or> (2::nat) ^ n \<le> u128_max")
  case False
  then have "m < u128_max" "u128_max \<le> a * u128_max" "u128_max \<le> a * 2 ^ n"
    using assms mult_le_mono [of 1 a u128_max "2 ^ n"] by (simp_all add: u128_max_def)
  then show ?thesis using False by (simp add: u128_mul_def u128_pow_def)
next
  case True
  then have "a * u128_pow 2 n = a * 2 ^ n" by (auto simp: u128_pow_def)
  then show ?thesis using u128_limit [OF assms, of a "u128_pow 2 n"] by metis
qed

text \<open>The factor of the delay on each strategy.\<close>

definition backoff_factor :: "backoff_strategy \<Rightarrow> nat \<Rightarrow> nat" where
  "backoff_factor st n = (case st of Fixed \<Rightarrow> 1 | Linear \<Rightarrow> n + 1 | Exponential \<Rightarrow> 2 ^ n)"

lemma backoff_factor_mono: "m \<le> n \<Longrightarrow> backoff_factor st m \<le> backoff_factor st n"
  by (cases st) (simp_all add: backoff_factor_def)

lemma delay_for_exact:
  assumes "millis_fit (bo_max b)"
  shows "delay_for b n = from_millis (min (as_millis (bo_base b) * backoff_factor (bo_strategy b) (unat n)) (as_millis (bo_max b)))"
proof -
  have fit: "as_millis (bo_max b) < 2 ^ 64" using assms by (simp add: millis_fit_def)
  have "as_u64 (min k (as_millis (bo_max b))) = min k (as_millis (bo_max b))" for k
    using fit by (simp add: as_u64_def)
  then show ?thesis
    using u128_limit [OF fit] u128_pow_limit [OF fit]
    by (cases "bo_strategy b") (simp_all add: delay_for_def backoff_factor_def Let_def)
qed

text \<open>The retry policy and the exponential strategy agree.\<close>

lemma compute_delay_is_backoff:
  "compute_delay n p = delay_for \<lparr>bo_strategy = Exponential, bo_base = base_delay p, bo_max = max_delay p\<rparr> n"
  by (simp add: compute_delay_def delay_for_def Let_def)

text \<open>The number of calls is at most the limit, and less only after a success.\<close>

lemma retry_loop_bound:
  "a \<le> limit \<Longrightarrow> fst (retry_loop limit f a s) \<le> limit
    \<and> (fst (retry_loop limit f a s) = limit \<or> (\<exists>s0. f s0 = (True, snd (retry_loop limit f a s))))"
proof (induction limit f a s rule: retry_loop.induct)
  case (1 limit f attempt s)
  obtain ok s' where f: "f s = (ok, s')" by fastforce
  have "attempt + 1 \<le> limit" if "attempt < limit"
    using that unat_next [OF that] by (simp add: word_le_nat_alt word_less_nat_alt)
  with 1 f show ?case
    by (cases "attempt < limit"; cases ok) auto
qed

section \<open>The sliding window\<close>

text \<open>Calls at given instants: which of them were admitted.\<close>

fun rl_calls :: "instant list \<Rightarrow> rate_limiter \<Rightarrow> (instant \<times> bool) list \<times> rate_limiter" where
  "rl_calls [] rl = ([], rl)"
| "rl_calls (t # ts) rl = (case rl_try_acquire t rl of (ok, rl') \<Rightarrow> (case rl_calls ts rl' of (rs, rl'') \<Rightarrow> ((t, ok) # rs, rl'')))"

definition admitted :: "(instant \<times> bool) list \<Rightarrow> instant list" where
  "admitted rs = map fst (filter snd rs)"

definition within :: "instant \<Rightarrow> duration \<Rightarrow> instant list \<Rightarrow> nat" where
  "within a w ts = length (filter (\<lambda>t. a < t \<and> t \<le> a + int w) ts)"

text \<open>The hits of the state stand for all calls admitted so far, as far as a later call can see them.\<close>

definition tracks :: "rate_limiter \<Rightarrow> instant list \<Rightarrow> instant \<Rightarrow> bool" where
  "tracks rl adm since \<longleftrightarrow>
     (\<forall>now \<ge> since. filter (\<lambda>t. t > now - int (rl_window rl)) (rl_hits rl) = filter (\<lambda>t. t > now - int (rl_window rl)) adm)
     \<and> (\<forall>t \<in> set adm. t \<le> since)
     \<and> (\<forall>a. within a (rl_window rl) adm \<le> max_per_window rl)"

lemma length_filter_imp: "(\<And>x. x \<in> set xs \<Longrightarrow> P x \<Longrightarrow> Q x) \<Longrightarrow> length (filter P xs) \<le> length (filter Q xs)"
  by (induction xs) auto

lemma rl_try_acquire_tracks:
  assumes "tracks rl adm since" and "since \<le> now" and "rl_try_acquire now rl = (ok, rl')"
  shows "tracks rl' (if ok then adm @ [now] else adm) now"
    and "ok \<longleftrightarrow> length (filter (\<lambda>t. t > now - int (rl_window rl)) adm) < max_per_window rl"
    and "rl_window rl' = rl_window rl" "max_per_window rl' = max_per_window rl"
proof -
  let ?w = "rl_window rl" and ?cut = "now - int (rl_window rl)"
  have same: "filter (\<lambda>t. t > ?cut) (rl_hits rl) = filter (\<lambda>t. t > ?cut) adm"
    using assms(1,2) by (simp add: tracks_def)
  show ok: "ok \<longleftrightarrow> length (filter (\<lambda>t. t > ?cut) adm) < max_per_window rl"
    and keep: "rl_window rl' = ?w" "max_per_window rl' = max_per_window rl"
    using assms(3) same by (auto simp: rl_try_acquire_def Let_def split: if_splits)
  have hits: "rl_hits rl' = filter (\<lambda>t. t > ?cut) adm @ (if ok then [now] else [])"
    using assms(3) same by (auto simp: rl_try_acquire_def Let_def split: if_splits)
  have later: "filter (\<lambda>t. t > later - int ?w) (filter (\<lambda>t. t > ?cut) adm) = filter (\<lambda>t. t > later - int ?w) adm"
    if "later \<ge> now" for later
    using that by (auto intro!: filter_cong)
  have bound: "within a ?w (adm @ [now]) \<le> max_per_window rl" if ok for a
  proof (cases "a < now \<and> now \<le> a + int ?w")
    case True
    then have "within a ?w adm \<le> length (filter (\<lambda>t. t > ?cut) adm)"
      unfolding within_def by (intro length_filter_imp) auto
    then show ?thesis using ok that True by (simp add: within_def)
  next
    case False
    then have "within a ?w (adm @ [now]) = within a ?w adm" by (auto simp: within_def)
    then show ?thesis using assms(1) by (simp add: tracks_def)
  qed
  show "tracks rl' (if ok then adm @ [now] else adm) now"
    unfolding tracks_def keep hits
  proof (intro conjI allI impI ballI)
    show "filter (\<lambda>t. t > n - int ?w) (filter (\<lambda>t. t > ?cut) adm @ (if ok then [now] else []))
      = filter (\<lambda>t. t > n - int ?w) (if ok then adm @ [now] else adm)" if "n \<ge> now" for n
      using later [OF that] by simp
    show "t \<le> now" if "t \<in> set (if ok then adm @ [now] else adm)" for t
      using that assms(1,2) by (auto simp: tracks_def split: if_splits)
    show "within a ?w (if ok then adm @ [now] else adm) \<le> max_per_window rl" for a
      using bound [of a] assms(1) by (simp add: tracks_def)
  qed
qed

lemma rl_calls_tracks:
  assumes "tracks rl adm since" and "sorted (since # ts)" and "rl_calls ts rl = (rs, rl')"
  shows "tracks rl' (adm @ admitted rs) (last (since # ts)) \<and> rl_window rl' = rl_window rl \<and> max_per_window rl' = max_per_window rl
    \<and> length rs = length ts
    \<and> (\<forall>i < length ts. snd (rs ! i) \<longleftrightarrow>
         length (filter (\<lambda>u. u > ts ! i - int (rl_window rl)) (adm @ admitted (take i rs))) < max_per_window rl)"
  using assms
proof (induction ts arbitrary: rl adm since rs)
  case (Cons t ts)
  obtain ok rl1 where a: "rl_try_acquire t rl = (ok, rl1)" by fastforce
  obtain rs1 where c: "rl_calls ts rl1 = (rs1, rl')" and rs: "rs = (t, ok) # rs1"
    using Cons.prems(3) by (auto simp: a split: prod.splits)
  have le: "since \<le> t" "sorted (t # ts)" using Cons.prems(2) by simp_all
  note one = rl_try_acquire_tracks [OF Cons.prems(1) le(1) a]
  note many = Cons.IH [OF one(1) le(2) c]
  have adm: "adm @ admitted ((t, ok) # xs) = (if ok then adm @ [t] else adm) @ admitted xs" for xs
    by (simp add: admitted_def)
  have "snd (rs ! i) \<longleftrightarrow> length (filter (\<lambda>u. u > (t # ts) ! i - int (rl_window rl)) (adm @ admitted (take i rs))) < max_per_window rl"
    if "i < Suc (length ts)" for i
  proof (cases i)
    case 0
    then show ?thesis using one(2) by (simp add: rs admitted_def)
  next
    case (Suc j)
    then have "snd (rs1 ! j) \<longleftrightarrow> length (filter (\<lambda>u. u > ts ! j - int (rl_window rl)) ((if ok then adm @ [t] else adm) @ admitted (take j rs1))) < max_per_window rl"
      using many that one(3,4) by simp
    then show ?thesis unfolding rs Suc by (simp only: take_Suc_Cons adm nth_Cons_Suc)
  qed
  then show ?case using many one(3,4) by (simp only: rs adm) simp
qed (simp add: admitted_def)

lemma rl_new_tracks: "tracks (rl_new mx w) [] t"
  by (simp add: tracks_def rl_new_def within_def)

text \<open>
  After a refused call the oldest hit leaves the window within the announced number of whole
  seconds and one more.
\<close>

lemma min_hit_in: "min_hit ts = Some t \<Longrightarrow> t \<in> set ts"
  by (induction ts arbitrary: t) (auto split: option.splits if_splits simp: min_def)

lemma min_hit_None: "min_hit ts = None \<longleftrightarrow> ts = []"
  by (cases ts) (auto split: option.splits)

lemma retry_after_enough:
  assumes "rl_try_acquire now rl0 = (False, rl)" and "length (rl_hits rl) = max_per_window rl" and "max_per_window rl > 0"
    and "\<forall>t \<in> set (rl_hits rl). t \<le> now" and "later \<ge> now + int (from_secs (rl_retry_after_secs now rl + 1))"
  shows "fst (rl_try_acquire later rl)"
proof -
  let ?w = "rl_window rl"
  have fresh: "filter (\<lambda>t. t > now - int ?w) (rl_hits rl) = rl_hits rl"
    using assms(1) by (auto simp: rl_try_acquire_def Let_def split: if_splits)
  have ne: "rl_hits rl \<noteq> []" using assms(2,3) by auto
  then obtain t where t: "min_hit (rl_hits rl) = Some t" using min_hit_None by (metis option.exhaust)
  then have in': "t \<in> set (rl_hits rl)" by (rule min_hit_in)
  have "rl_retry_after_secs now rl = as_secs (?w - nat (now - t))"
    using assms(2) by (simp add: rl_retry_after_secs_def Let_def fresh t)
  then have "?w - nat (now - t) < from_secs (rl_retry_after_secs now rl + 1)"
    by (simp add: as_secs_def from_secs_def)
  then have "int ?w < int (nat (now - t)) + int (from_secs (rl_retry_after_secs now rl + 1))" by linarith
  moreover have "t \<le> now" using assms(4) in' by blast
  ultimately have old: "\<not> t > later - int ?w" using assms(5) by linarith
  have "length (filter (\<lambda>u. u > later - int ?w) (rl_hits rl)) < length (rl_hits rl)"
    using in' old by (rule length_filter_less)
  then show ?thesis using assms(2) by (simp add: rl_try_acquire_def Let_def)
qed

section \<open>Properties\<close>

text \<open>
  C26: Over any calls at instants that do not go back, at most \<open>max_per_window\<close> calls are admitted
  in every window of the configured length, wherever it starts; and a call is refused only when
  that many were admitted within the window that ends with it.
\<close>

theorem rate_limit_window:
  assumes "sorted ts" and "rl_calls ts (rl_new mx w) = (rs, rl)"
  shows "within a w (admitted rs) \<le> mx
    \<and> (\<forall>i < length ts. snd (rs ! i) \<longleftrightarrow> length (filter (\<lambda>u. u > ts ! i - int w) (admitted (take i rs))) < mx)"
proof -
  have "\<exists>t. sorted (t # ts)" using assms(1) by (cases ts) auto
  then obtain t where t: "sorted (t # ts)" ..
  from rl_calls_tracks [OF rl_new_tracks t assms(2)] show ?thesis
    unfolding tracks_def by (auto simp: rl_new_def)
qed

theorem rate_limit_window_witness:
  "let rs = fst (rl_calls [0, 1, 2, 11] (rl_new 2 10)) in rs = [(0, True), (1, True), (2, False), (11, True)] \<and> within 0 10 (admitted rs) \<le> 2"
proof -
  have r: "rl_calls [0, 1, 2, 11] (rl_new 2 10) = ([(0, True), (1, True), (2, False), (11, True)], (rl_new 2 10)\<lparr>rl_hits := [11]\<rparr>)"
    by (simp add: rl_try_acquire_def rl_new_def Let_def)
  show ?thesis using rate_limit_window [OF _ r, of 0] unfolding r by simp
qed



fun wd_exits :: "nat \<Rightarrow> string \<Rightarrow> watchdog \<Rightarrow> watchdog_state option list \<times> watchdog" where
  "wd_exits 0 name w = ([], w)"
| "wd_exits (Suc n) name w = (case wd_on_exit name w of (r, w1) \<Rightarrow> (case wd_exits n name w1 of (rs, w2) \<Rightarrow> (r # rs, w2)))"

lemma wd_exits_from:
  "w name = Some e \<Longrightarrow> restart_count e \<le> max_restarts e \<Longrightarrow>
   fst (wd_exits n name w) = replicate (min n (unat (max_restarts e) - unat (restart_count e))) (Some Running)
     @ replicate (n - (unat (max_restarts e) - unat (restart_count e))) (Some MaxRestartsExceeded)"
proof (induction n arbitrary: w e)
  case (Suc n)
  show ?case
  proof (cases "restart_count e < max_restarts e")
    case True
    have "unat (restart_count e) < 2 ^ 32 - 1" using True unat_bound [of "max_restarts e"] unfolding word_less_nat_alt by simp
    then have up: "sat_add (restart_count e) 1 = restart_count e + 1" by (simp add: sat_add_def)
    let ?e = "e\<lparr>restart_count := restart_count e + 1, wd_state := Running\<rparr>"
    have w: "wd_on_exit name w = (Some Running, w(name \<mapsto> ?e))"
      using Suc.prems True up by (simp add: wd_on_exit_def wd_entry_on_exit_def)
    have un: "unat (restart_count e + 1) = Suc (unat (restart_count e))" using True by (rule unat_next)
    have le: "restart_count e + 1 \<le> max_restarts e" using True un by (simp add: word_le_nat_alt word_less_nat_alt)
    have "fst (wd_exits n name (w(name \<mapsto> ?e))) = replicate (min n (unat (max_restarts e) - unat (restart_count e + 1))) (Some Running)
     @ replicate (n - (unat (max_restarts e) - unat (restart_count e + 1))) (Some MaxRestartsExceeded)"
      using Suc.IH [of "w(name \<mapsto> ?e)" ?e, OF fun_upd_same] le by (simp del: fun_upd_apply)
    moreover obtain d where "unat (max_restarts e) - unat (restart_count e) = Suc d" "unat (max_restarts e) - unat (restart_count e + 1) = d"
      using True un by (metis Suc_diff_Suc word_less_nat_alt)
    ultimately show ?thesis by (simp add: w case_prod_beta del: fun_upd_apply)
  next
    case False
    then have eq: "restart_count e = max_restarts e" using Suc.prems(2) by simp
    let ?e = "e\<lparr>wd_state := MaxRestartsExceeded\<rparr>"
    have "wd_on_exit name w = (Some MaxRestartsExceeded, w(name \<mapsto> ?e))"
      using Suc.prems(1) eq by (simp add: wd_on_exit_def wd_entry_on_exit_def)
    then show ?thesis
      using Suc.IH [of "w(name \<mapsto> ?e)" ?e, OF fun_upd_same] eq by (simp add: case_prod_beta del: fun_upd_apply)
  qed
qed simp

text \<open>
  A watched process is restarted as often as its limit allows and no more: of any number of
  exits exactly the first \<open>max_restarts\<close> are answered with a restart, all later ones with the end
  of it.
\<close>

theorem watchdog_limits_restarts:
  "fst (wd_exits n name (snd (wd_register name mx w)))
     = replicate (min n (unat mx)) (Some Running) @ replicate (n - unat mx) (Some MaxRestartsExceeded)"
  using wd_exits_from [of "snd (wd_register name mx w)" name "wd_entry_new name mx" n]
  by (simp add: wd_register_def wd_entry_new_def Let_def)

datatype 'a queue_op = Push 'a | Pop

text \<open>The queue together with what was accepted and what was popped.\<close>

definition bq_step :: "'a bounded_queue \<times> 'a list \<times> 'a list \<Rightarrow> 'a queue_op \<Rightarrow> 'a bounded_queue \<times> 'a list \<times> 'a list" where
  "bq_step st x = (case st of (q, acc, out) \<Rightarrow>
     (case x of
        Push v \<Rightarrow> (case bq_push v q of (Inl _, q') \<Rightarrow> (q', acc, out) | (Inr _, q') \<Rightarrow> (q', acc @ [v], out))
      | Pop \<Rightarrow> (case bq_pop q of (None, q') \<Rightarrow> (q', acc, out) | (Some v, q') \<Rightarrow> (q', acc, out @ [v]))))"

definition bq_ok :: "nat \<Rightarrow> 'a bounded_queue \<times> 'a list \<times> 'a list \<Rightarrow> bool" where
  "bq_ok n st \<longleftrightarrow> (case st of (q, acc, out) \<Rightarrow> out @ bq_items q = acc \<and> length (bq_items q) \<le> n \<and> bq_capacity q = n)"

interpretation fifo: machine bq_step "bq_ok n" for n
  by unfold_locales (auto simp: bq_step_def bq_ok_def bq_push_def bq_pop_def split: queue_op.splits list.splits if_splits)

text \<open>
  The bounded queue is a first-in first-out queue that never holds more than its capacity:
  the values popped so far followed by those in the queue are the values whose push was accepted,
  in their order, and a push is refused, with its value given back, only by a full queue.
\<close>

theorem bounded_queue_is_fifo:
  assumes "bq_new n = Some q0" and "foldl bq_step (q0, [], []) ops = (q, acc, out)"
  shows "out @ bq_items q = acc \<and> length (bq_items q) \<le> n \<and> (bq_push v q = (Inl v', q') \<longrightarrow> v' = v \<and> q' = q \<and> length (bq_items q) = n)"
proof -
  have "bq_ok n (q0, [], [])" using assms(1) by (auto simp: bq_ok_def bq_new_def split: if_splits)
  then have "bq_ok n (q, acc, out)" using fifo.run_inv [of n "(q0, [], [])" ops] by (simp add: assms(2))
  then show ?thesis by (auto simp: bq_ok_def bq_push_def split: if_splits)
qed

theorem bounded_queue_is_fifo_witness:
  "\<exists>q. foldl bq_step (\<lparr>bq_items = [], bq_capacity = 2\<rparr>, [], []) [Push (1::nat), Push 2, Push 3, Pop] = (q, [1, 2], [1])
     \<and> [1] @ bq_items q = [1, 2]"
proof -
  have q0: "bq_new 2 = Some \<lparr>bq_items = [] :: nat list, bq_capacity = 2\<rparr>" by (simp add: bq_new_def)
  have r: "foldl bq_step (\<lparr>bq_items = [], bq_capacity = 2\<rparr>, [], []) [Push (1::nat), Push 2, Push 3, Pop]
    = (\<lparr>bq_items = [2], bq_capacity = 2\<rparr>, [1, 2], [1])"
    by (simp add: bq_step_def bq_push_def bq_pop_def)
  show ?thesis using bounded_queue_is_fifo [OF q0 r] r by blast
qed

end
