(* ===== verification/ServeLock.thy ===== *)
theory ServeLock
  imports Paths
begin

text \<open>
  The single-instance guard of \<open>serve\<close>: \<open>src/serve_lock.rs\<close>, its variant in
  \<open>crates/sharecli-ipc/src/serve_lock.rs\<close>, and the start of \<open>src/commands/serve/run.rs\<close>. The
  state is what the guard sees of the file system for one service: the inode that the path of the
  lock file names, the bytes and the lock of every inode, and the side file. An open file has a
  position of its own. JSON coding and \<open>kill\<close> are parameters, and every file operation can fail.
\<close>

section \<open>State and decisions\<close>

record serve_info =
  si_pid :: u32
  si_service :: string
  si_url :: string
  si_started_at_unix :: u64

datatype serve_state = ServeFree | ServeRunning serve_info bool

datatype on_conflict = OnPrompt | OnAttach | OnReplace | OnAbort

datatype decision = DoServe | DoAttach | DoReplace | DoAbort

fun decide :: "serve_state \<Rightarrow> on_conflict \<Rightarrow> decision" where
  "decide ServeFree policy = DoServe"
| "decide (ServeRunning info True) policy = DoServe"
| "decide (ServeRunning info False) policy =
     (case policy of OnAttach \<Rightarrow> DoAttach | OnReplace \<Rightarrow> DoReplace | OnAbort \<Rightarrow> DoAbort | OnPrompt \<Rightarrow> DoAbort)"

definition lock_dir :: "string option \<Rightarrow> string \<Rightarrow> string" where
  "lock_dir xdg_runtime_dir temp_dir = (case xdg_runtime_dir of Some d \<Rightarrow> d | None \<Rightarrow> temp_dir)"

definition safe_service :: "string \<Rightarrow> string" where
  "safe_service service = map (\<lambda>c. if c = CHR ''/'' \<or> c = CHR 0x5C \<or> c = CHR '':'' then CHR ''_'' else c) service"

definition pidfile_path :: "string option \<Rightarrow> string \<Rightarrow> string \<Rightarrow> string" where
  "pidfile_path xdg tmp service = path_join (lock_dir xdg tmp) (safe_service service @ ''.serve.lock'')"

datatype kill_answer = KillOk | KillPerm | KillNone

text \<open>The two variants differ in the conversion of the process id to a signed one.\<close>

definition cli_pid_alive :: "(int \<Rightarrow> kill_answer) \<Rightarrow> u32 \<Rightarrow> bool" where
  "cli_pid_alive kill pid = (case kill (sint pid) of KillOk \<Rightarrow> True | KillPerm \<Rightarrow> True | KillNone \<Rightarrow> False)"

definition ipc_pid_alive :: "(int \<Rightarrow> kill_answer) \<Rightarrow> u32 \<Rightarrow> bool" where
  "ipc_pid_alive kill pid =
     (if uint pid \<ge> 2 ^ 31 then False
      else if uint pid \<le> 0 then False
      else case kill (uint pid) of KillOk \<Rightarrow> True | KillPerm \<Rightarrow> True | KillNone \<Rightarrow> False)"

section \<open>Files\<close>

type_synonym inode = nat

type_synonym opened = nat

record lock_fs =
  lf_entry :: "inode option"
  lf_bytes :: "inode \<Rightarrow> string"
  lf_holder :: "inode \<Rightarrow> opened option"
  lf_side :: "string option"
  lf_next :: nat

record open_file =
  of_id :: opened
  of_inode :: inode
  of_pos :: nat

datatype lock_op = OpMkDir | OpOpen | OpRead | OpReadSide | OpTruncate | OpWrite | OpWriteSide

datatype lock_error = LockIo lock_op | LockEncode | LockParse

record info_codec =
  info_to :: "serve_info \<Rightarrow> string option"
  info_from :: "string \<Rightarrow> serve_info option"

text \<open>\<open>write\<close> at a position: a gap behind the end of the file is filled with zero bytes.\<close>

definition write_at :: "nat \<Rightarrow> string \<Rightarrow> string \<Rightarrow> string" where
  "write_at pos bytes content =
     take pos content @ replicate (pos - length content) CHR 0x00 @ bytes @ drop (pos + length bytes) content"

text \<open>\<open>open\<close> with \<open>create\<close> and without \<open>truncate\<close>.\<close>

definition open_create :: "lock_fs \<Rightarrow> open_file \<times> lock_fs" where
  "open_create fs =
     (case lf_entry fs of
        Some i \<Rightarrow> (\<lparr>of_id = lf_next fs, of_inode = i, of_pos = 0\<rparr>, fs\<lparr>lf_next := Suc (lf_next fs)\<rparr>)
      | None \<Rightarrow>
          (\<lparr>of_id = lf_next fs, of_inode = lf_next fs, of_pos = 0\<rparr>,
           fs\<lparr>lf_entry := Some (lf_next fs), lf_bytes := (lf_bytes fs)(lf_next fs := []),
              lf_holder := (lf_holder fs)(lf_next fs := None), lf_next := Suc (lf_next fs)\<rparr>))"

definition try_lock_exclusive :: "open_file \<Rightarrow> lock_fs \<Rightarrow> bool \<times> lock_fs" where
  "try_lock_exclusive f fs =
     (case lf_holder fs (of_inode f) of
        Some _ \<Rightarrow> (False, fs)
      | None \<Rightarrow> (True, fs\<lparr>lf_holder := (lf_holder fs)(of_inode f := Some (of_id f))\<rparr>))"

definition unlock_file :: "open_file \<Rightarrow> lock_fs \<Rightarrow> lock_fs" where
  "unlock_file f fs =
     (if lf_holder fs (of_inode f) = Some (of_id f)
      then fs\<lparr>lf_holder := (lf_holder fs)(of_inode f := None)\<rparr> else fs)"

definition read_rest :: "open_file \<Rightarrow> lock_fs \<Rightarrow> string \<times> open_file" where
  "read_rest f fs =
     (drop (of_pos f) (lf_bytes fs (of_inode f)), f\<lparr>of_pos := max (of_pos f) (length (lf_bytes fs (of_inode f)))\<rparr>)"

definition set_len_zero :: "open_file \<Rightarrow> lock_fs \<Rightarrow> lock_fs" where
  "set_len_zero f fs = fs\<lparr>lf_bytes := (lf_bytes fs)(of_inode f := [])\<rparr>"

definition write_all :: "string \<Rightarrow> open_file \<Rightarrow> lock_fs \<Rightarrow> open_file \<times> lock_fs" where
  "write_all bytes f fs =
     (f\<lparr>of_pos := of_pos f + length bytes\<rparr>,
      fs\<lparr>lf_bytes := (lf_bytes fs)(of_inode f := write_at (of_pos f) bytes (lf_bytes fs (of_inode f)))\<rparr>)"

section \<open>Probe\<close>

text \<open>
  Reading the locked file fails only where locks are mandatory; then the side file is read. The
  shared lock is given back at once.
\<close>

definition lock_probe ::
  "info_codec \<Rightarrow> (u32 \<Rightarrow> bool) \<Rightarrow> (lock_op \<Rightarrow> bool) \<Rightarrow> lock_fs \<Rightarrow> lock_error + serve_state" where
  "lock_probe J pid_alive fails fs =
     (if fails OpOpen then Inl (LockIo OpOpen)
      else case lf_entry fs of
        None \<Rightarrow> Inr ServeFree
      | Some i \<Rightarrow>
          (let exclusively_held = lf_holder fs i \<noteq> None;
               buf = (if \<not> fails OpRead then Inr (lf_bytes fs i)
                      else if exclusively_held
                      then (if fails OpReadSide then Inl (LockIo OpReadSide)
                            else case lf_side fs of None \<Rightarrow> Inl (LockIo OpReadSide) | Some b \<Rightarrow> Inr b)
                      else Inl (LockIo OpRead))
           in case buf of
                Inl e \<Rightarrow> Inl e
              | Inr b \<Rightarrow>
                  (case info_from J (str_trim b) of
                     None \<Rightarrow> if \<not> exclusively_held then Inr ServeFree else Inl LockParse
                   | Some info \<Rightarrow>
                       (let alive = exclusively_held \<or> pid_alive (si_pid info)
                        in Inr (ServeRunning info (\<not> alive))))))"

section \<open>The lock\<close>

record serve_lock =
  sl_file :: open_file
  sl_info :: serve_info

text \<open>A file that is closed on an error path loses its lock.\<close>

definition publish_info ::
  "info_codec \<Rightarrow> (lock_op \<Rightarrow> bool) \<Rightarrow> serve_info \<Rightarrow> open_file \<Rightarrow> lock_fs \<Rightarrow> (lock_error + serve_lock option) \<times> lock_fs" where
  "publish_info J fails info f fs =
     (if fails OpTruncate then (Inl (LockIo OpTruncate), unlock_file f fs)
      else
        let fs = set_len_zero f fs
        in case info_to J info of
             None \<Rightarrow> (Inl LockEncode, unlock_file f fs)
           | Some bytes \<Rightarrow>
               if fails OpWrite then (Inl (LockIo OpWrite), unlock_file f fs)
               else (case write_all bytes f fs of
                       (f, fs) \<Rightarrow>
                         (let fs = (if fails OpWriteSide then fs else fs\<lparr>lf_side := Some bytes\<rparr>)
                          in (Inr (Some \<lparr>sl_file = f, sl_info = info\<rparr>), fs))))"

definition cli_try_acquire ::
  "info_codec \<Rightarrow> (lock_op \<Rightarrow> bool) \<Rightarrow> serve_info \<Rightarrow> lock_fs \<Rightarrow> (lock_error + serve_lock option) \<times> lock_fs" where
  "cli_try_acquire J fails info fs =
     (if fails OpMkDir then (Inl (LockIo OpMkDir), fs)
      else if fails OpOpen then (Inl (LockIo OpOpen), fs)
      else (case open_create fs of (f, fs) \<Rightarrow>
        (case try_lock_exclusive f fs of
           (False, fs) \<Rightarrow> (Inr None, fs)
         | (True, fs) \<Rightarrow> publish_info J fails info f fs)))"

definition ipc_try_acquire ::
  "info_codec \<Rightarrow> (u32 \<Rightarrow> bool) \<Rightarrow> (lock_op \<Rightarrow> bool) \<Rightarrow> serve_info \<Rightarrow> lock_fs \<Rightarrow> (lock_error + serve_lock option) \<times> lock_fs" where
  "ipc_try_acquire J pid_alive fails info fs =
     (if fails OpMkDir then (Inl (LockIo OpMkDir), fs)
      else if fails OpOpen then (Inl (LockIo OpOpen), fs)
      else (case open_create fs of (f, fs) \<Rightarrow>
        (case try_lock_exclusive f fs of
           (False, fs) \<Rightarrow> (Inr None, fs)
         | (True, fs) \<Rightarrow>
             if fails OpRead then publish_info J fails info f fs
             else (case read_rest (f\<lparr>of_pos := 0\<rparr>) fs of (existing, f) \<Rightarrow>
               (case info_from J (str_trim existing) of
                  Some prev \<Rightarrow>
                    if pid_alive (si_pid prev) then (Inr None, unlock_file f fs)
                    else publish_info J fails info f fs
                | None \<Rightarrow> publish_info J fails info f fs)))))"

definition drop_lock :: "serve_lock \<Rightarrow> lock_fs \<Rightarrow> lock_fs" where
  "drop_lock l fs = (unlock_file (sl_file l) fs)\<lparr>lf_side := None, lf_entry := None\<rparr>"

section \<open>Starting the server\<close>

datatype serve_start = StartAttached string | StartAborted string | StartDenied | StartFailed lock_error | StartServing serve_lock

text \<open>The attached and the aborted case have a running server; the other branch is unreachable.\<close>

fun running_url :: "serve_state \<Rightarrow> string option" where
  "running_url (ServeRunning info stale) = Some (si_url info)"
| "running_url ServeFree = None"

definition serve_run ::
  "info_codec \<Rightarrow> (u32 \<Rightarrow> bool) \<Rightarrow> (lock_op \<Rightarrow> bool) \<Rightarrow> on_conflict \<Rightarrow> serve_info \<Rightarrow> lock_fs \<Rightarrow> serve_start option \<times> lock_fs" where
  "serve_run J pid_alive fails policy info fs =
     (case lock_probe J pid_alive fails fs of
        Inl e \<Rightarrow> (Some (StartFailed e), fs)
      | Inr st \<Rightarrow>
          (case decide st policy of
             DoAttach \<Rightarrow> (map_option StartAttached (running_url st), fs)
           | DoAbort \<Rightarrow> (map_option StartAborted (running_url st), fs)
           | _ \<Rightarrow>
               (case cli_try_acquire J fails info fs of
                  (Inl e, fs) \<Rightarrow> (Some (StartFailed e), fs)
                | (Inr None, fs) \<Rightarrow> (Some StartDenied, fs)
                | (Inr (Some l), fs) \<Rightarrow> (Some (StartServing l), fs))))"

section \<open>Lemmas\<close>

text \<open>What the code relies on of JSON: a round trip, and no value in an empty text or after a zero byte.\<close>

definition json_like :: "info_codec \<Rightarrow> bool" where
  "json_like J \<longleftrightarrow> (\<forall>info b. info_to J info = Some b \<longrightarrow> info_from J (str_trim b) = Some info)
     \<and> info_from J [] = None \<and> (\<forall>s. info_from J (CHR 0x00 # s) = None)"

abbreviation all_well :: "lock_op \<Rightarrow> bool" where
  "all_well \<equiv> (\<lambda>_. False)"

lemma write_at_start: "write_at 0 b [] = b"
  by (simp add: write_at_def)

lemma write_at_gap: "write_at n b [] = replicate n CHR 0x00 @ b"
  by (simp add: write_at_def)

lemma str_trim_zero: "\<exists>r. str_trim (CHR 0x00 # s) = CHR 0x00 # r"
proof -
  have z: "\<not> is_whitespace CHR 0x00" by (simp add: is_whitespace_def)
  then have "trim_start (CHR 0x00 # s) = CHR 0x00 # s" by (simp add: trim_start_def)
  moreover have "\<exists>r. rev (dropWhile is_whitespace (rev (CHR 0x00 # s))) = CHR 0x00 # r"
    using z by (cases "\<exists>x \<in> set s. \<not> is_whitespace x") (simp_all add: dropWhile_append, metis rev_rev_ident)
  ultimately show ?thesis by (simp add: str_trim_def)
qed

lemma open_create_entry:
  assumes "open_create fs = (f, fs1)"
  shows "lf_entry fs1 = Some (of_inode f)" "of_pos f = 0"
    and "lf_entry fs = Some i \<Longrightarrow> of_inode f = i \<and> lf_holder fs1 = lf_holder fs \<and> lf_bytes fs1 = lf_bytes fs"
  using assms by (auto simp: open_create_def split: option.splits)

lemma publish_info_done:
  assumes "publish_info J fails info f fs = (Inr r, fs')"
  obtains b where "info_to J info = Some b" "r = Some \<lparr>sl_file = f\<lparr>of_pos := of_pos f + length b\<rparr>, sl_info = info\<rparr>"
    "lf_entry fs' = lf_entry fs" "lf_holder fs' = lf_holder fs"
    "lf_bytes fs' = (lf_bytes fs)(of_inode f := replicate (of_pos f) CHR 0x00 @ b)"
    "\<not> fails OpWriteSide \<Longrightarrow> lf_side fs' = Some b"
proof -
  from assms obtain b where b: "info_to J info = Some b" and t: "\<not> fails OpTruncate" "\<not> fails OpWrite"
    by (auto simp: publish_info_def Let_def split: if_splits option.splits)
  show thesis
    using assms b t
    by (intro that [of b]) (auto simp: publish_info_def set_len_zero_def write_all_def write_at_gap Let_def split: if_splits)
qed

lemma cli_try_acquire_done:
  assumes "cli_try_acquire J fails info fs = (Inr (Some l), fs')"
  obtains i b where "info_to J info = Some b" "sl_info l = info" "of_inode (sl_file l) = i"
    "lf_entry fs' = Some i" "lf_holder fs' i = Some (of_id (sl_file l))" "lf_bytes fs' i = b"
    "\<not> fails OpWriteSide \<Longrightarrow> lf_side fs' = Some b" "\<And>j. lf_entry fs = Some j \<Longrightarrow> j = i \<and> lf_holder fs j = None"
proof -
  obtain f fs1 where o: "open_create fs = (f, fs1)" by fastforce
  obtain fs2 where t: "try_lock_exclusive f fs1 = (True, fs2)" and p: "publish_info J fails info f fs2 = (Inr (Some l), fs')"
    using assms by (auto simp: cli_try_acquire_def o split: if_splits prod.splits bool.splits)
  have h: "lf_holder fs1 (of_inode f) = None" "fs2 = fs1\<lparr>lf_holder := (lf_holder fs1)(of_inode f := Some (of_id f))\<rparr>"
    using t by (auto simp: try_lock_exclusive_def split: option.splits)
  note o' = open_create_entry [OF o]
  from p obtain b where b: "info_to J info = Some b" "l = \<lparr>sl_file = f\<lparr>of_pos := of_pos f + length b\<rparr>, sl_info = info\<rparr>"
    "lf_entry fs' = lf_entry fs2" "lf_holder fs' = lf_holder fs2"
    "lf_bytes fs' = (lf_bytes fs2)(of_inode f := replicate (of_pos f) CHR 0x00 @ b)"
    "\<not> fails OpWriteSide \<Longrightarrow> lf_side fs' = Some b"
    by (rule publish_info_done) blast
  show thesis
    using b h o' by (intro that [of b "of_inode f"]) auto
qed

lemma lock_probe_held:
  assumes "lf_entry fs = Some i" "lf_holder fs i \<noteq> None" "info_from J (str_trim (lf_bytes fs i)) = Some info"
    and "\<not> fails OpOpen" and "fails OpRead \<Longrightarrow> \<not> fails OpReadSide \<and> lf_side fs = Some (lf_bytes fs i)"
  shows "lock_probe J pid_alive fails fs = Inr (ServeRunning info False)"
  using assms by (auto simp: lock_probe_def)

lemma cli_try_acquire_held:
  assumes "lf_entry fs = Some i" "lf_holder fs i \<noteq> None"
  shows "fst (cli_try_acquire J all_well info fs) = Inr None \<and> lf_holder (snd (cli_try_acquire J all_well info fs)) = lf_holder fs"
  using assms by (auto simp: cli_try_acquire_def open_create_def try_lock_exclusive_def split: option.splits)

section \<open>Properties\<close>


definition demo_info :: "u32 \<Rightarrow> serve_info" where
  "demo_info pid = \<lparr>si_pid = pid, si_service = ''sharecli'', si_url = ''http://127.0.0.1:9001'', si_started_at_unix = 1\<rparr>"

definition demo_codec :: info_codec where
  "demo_codec = \<lparr>info_to = (\<lambda>i. if i = demo_info 7 then Some ''seven'' else if i = demo_info 8 then Some ''eight'' else None),
     info_from = (\<lambda>s. if s = ''seven'' then Some (demo_info 7) else if s = ''eight'' then Some (demo_info 8) else None)\<rparr>"

lemma demo_trim: "str_trim ''seven'' = ''seven''" "str_trim ''eight'' = ''eight''"
  by (simp_all add: str_trim_def trim_start_def is_whitespace_def)

lemma demo_codec_ok: "json_like demo_codec"
  by (auto simp: json_like_def demo_codec_def demo_trim demo_info_def split: if_splits)

definition no_lock_file :: lock_fs where
  "no_lock_file = \<lparr>lf_entry = None, lf_bytes = (\<lambda>_. []), lf_holder = (\<lambda>_. None), lf_side = None, lf_next = 0\<rparr>"


text \<open>
  C24: Taking over the file of a server that died goes wrong in the variant of the crate: it has
  read the old text, so its position is behind it, and cutting the file does not move the
  position. The new text is written behind as many zero bytes as the old text had, and a probe of
  the running server fails to parse it. The variant of the command line tool writes the text
  alone.
\<close>

theorem takeover_corrupts_pidfile:
  assumes "json_like J" and "lf_entry fs = Some i" and "lf_holder fs i = None"
    and "info_from J (str_trim (lf_bytes fs i)) = Some prev" and "\<not> pid_alive (si_pid prev)" and "info_to J info = Some b"
  shows "(\<exists>l fs'. ipc_try_acquire J pid_alive all_well info fs = (Inr (Some l), fs')
      \<and> lf_bytes fs' i = replicate (length (lf_bytes fs i)) CHR 0x00 @ b \<and> lock_probe J pid_alive all_well fs' = Inl LockParse)
    \<and> (\<exists>l fs'. cli_try_acquire J all_well info fs = (Inr (Some l), fs') \<and> lf_bytes fs' i = b)"
proof
  show "\<exists>l fs'. cli_try_acquire J all_well info fs = (Inr (Some l), fs') \<and> lf_bytes fs' i = b"
    using assms(2,3,6)
    by (simp add: cli_try_acquire_def open_create_def try_lock_exclusive_def publish_info_def set_len_zero_def write_all_def write_at_start Let_def)
  let ?f = "\<lparr>of_id = lf_next fs, of_inode = i, of_pos = length (lf_bytes fs i)\<rparr>"
  let ?fs = "fs\<lparr>lf_next := Suc (lf_next fs), lf_holder := (lf_holder fs)(i := Some (lf_next fs))\<rparr>"
  have acq: "ipc_try_acquire J pid_alive all_well info fs = publish_info J all_well info ?f ?fs"
    using assms(2-5) by (simp add: ipc_try_acquire_def open_create_def try_lock_exclusive_def read_rest_def)
  obtain l fs' where p: "publish_info J all_well info ?f ?fs = (Inr (Some l), fs')"
    using assms(6) by (simp add: publish_info_def write_all_def Let_def)
  from p obtain b' where b': "info_to J info = Some b'" "lf_entry fs' = lf_entry ?fs" "lf_holder fs' = lf_holder ?fs"
    "lf_bytes fs' = (lf_bytes ?fs)(of_inode ?f := replicate (of_pos ?f) CHR 0x00 @ b')"
    by (rule publish_info_done) blast
  have "lf_bytes fs i \<noteq> []" using assms(1,4) by (auto simp: json_like_def str_trim_def trim_start_def)
  then obtain s where s: "replicate (length (lf_bytes fs i)) CHR 0x00 @ b = CHR 0x00 # s" by (cases "lf_bytes fs i") auto
  then obtain r where "str_trim (replicate (length (lf_bytes fs i)) CHR 0x00 @ b) = CHR 0x00 # r" using str_trim_zero by metis
  then have "info_from J (str_trim (replicate (length (lf_bytes fs i)) CHR 0x00 @ b)) = None" using assms(1) by (simp add: json_like_def)
  then have "lock_probe J pid_alive all_well fs' = Inl LockParse"
    using b' assms(2,6) by (simp add: lock_probe_def)
  then show "\<exists>l fs'. ipc_try_acquire J pid_alive all_well info fs = (Inr (Some l), fs')
      \<and> lf_bytes fs' i = replicate (length (lf_bytes fs i)) CHR 0x00 @ b \<and> lock_probe J pid_alive all_well fs' = Inl LockParse"
    using acq p b' assms(6) by auto
qed

definition dead_lock_file :: lock_fs where
  "dead_lock_file = no_lock_file\<lparr>lf_entry := Some 0, lf_bytes := (\<lambda>_. ''seven''), lf_next := 1\<rparr>"

theorem takeover_corrupts_pidfile_witness:
  "\<exists>l fs. ipc_try_acquire demo_codec (\<lambda>_. False) all_well (demo_info 8) dead_lock_file = (Inr (Some l), fs)
     \<and> lock_probe demo_codec (\<lambda>_. False) all_well fs = Inl LockParse"
  using takeover_corrupts_pidfile [OF demo_codec_ok, of dead_lock_file 0 "demo_info 7" "\<lambda>_. False" "demo_info 8" "''eight''"]
  by (auto simp: dead_lock_file_def no_lock_file_def demo_codec_def demo_trim demo_info_def)

text \<open>
  Whatever the policy and whichever operations fail, a server starts only when the file the
  path names was not locked. On a server that runs, the policies do what they say but for one: to
  replace it is always denied, since nothing stops the running server.
\<close>

theorem serve_run_respects_lock:
  assumes "lf_entry fs = Some i"
  shows "(serve_run J pid_alive fails policy info fs = (Some (StartServing l), fs') \<longrightarrow> lf_holder fs i = None)
    \<and> (lf_holder fs i \<noteq> None \<and> info_from J (str_trim (lf_bytes fs i)) = Some old \<longrightarrow>
       fst (serve_run J pid_alive all_well policy info fs) =
         Some (case policy of OnAttach \<Rightarrow> StartAttached (si_url old) | OnReplace \<Rightarrow> StartDenied | _ \<Rightarrow> StartAborted (si_url old)))"
proof
  show "serve_run J pid_alive fails policy info fs = (Some (StartServing l), fs') \<longrightarrow> lf_holder fs i = None"
  proof
    assume "serve_run J pid_alive fails policy info fs = (Some (StartServing l), fs')"
    then have "cli_try_acquire J fails info fs = (Inr (Some l), fs')"
      by (auto simp: serve_run_def split: sum.splits decision.splits prod.splits option.splits)
    then show "lf_holder fs i = None" by (rule cli_try_acquire_done) (use assms in blast)
  qed
  show "lf_holder fs i \<noteq> None \<and> info_from J (str_trim (lf_bytes fs i)) = Some old \<longrightarrow>
       fst (serve_run J pid_alive all_well policy info fs) =
         Some (case policy of OnAttach \<Rightarrow> StartAttached (si_url old) | OnReplace \<Rightarrow> StartDenied | _ \<Rightarrow> StartAborted (si_url old))"
  proof
    assume h: "lf_holder fs i \<noteq> None \<and> info_from J (str_trim (lf_bytes fs i)) = Some old"
    then have p: "lock_probe J pid_alive all_well fs = Inr (ServeRunning old False)"
      using assms by (intro lock_probe_held [of _ i]) auto
    have "fst (cli_try_acquire J all_well info fs) = Inr None" using cli_try_acquire_held [OF assms] h by simp
    then show "fst (serve_run J pid_alive all_well policy info fs) =
         Some (case policy of OnAttach \<Rightarrow> StartAttached (si_url old) | OnReplace \<Rightarrow> StartDenied | _ \<Rightarrow> StartAborted (si_url old))"
      by (cases policy) (auto simp: serve_run_def p split: prod.splits sum.splits option.splits)
  qed
qed

section \<open>Servers at the same time\<close>

text \<open>
  The steps of \<open>try_acquire\<close> and of the drop, for any number of processes: open, lock, write,
  unlock, remove. A process can end at any step, which closes its file and so releases its lock.
  The holder of a lock is the process.
\<close>

datatype serve_phase =
    Outside
  | Opened inode
  | Locked inode
  | Serving inode
  | Removing inode

record serve_world =
  sw_entry :: "inode option"
  sw_holder :: "inode \<Rightarrow> nat option"
  sw_next :: inode
  sw_at :: "nat \<Rightarrow> serve_phase"

fun phase_inode :: "serve_phase \<Rightarrow> inode option" where
  "phase_inode Outside = None"
| "phase_inode (Opened i) = Some i"
| "phase_inode (Locked i) = Some i"
| "phase_inode (Serving i) = Some i"
| "phase_inode (Removing i) = Some i"

fun has_lock :: "serve_phase \<Rightarrow> inode \<Rightarrow> bool" where
  "has_lock (Locked j) i \<longleftrightarrow> i = j"
| "has_lock (Serving j) i \<longleftrightarrow> i = j"
| "has_lock _ i \<longleftrightarrow> False"

definition release :: "nat \<Rightarrow> (inode \<Rightarrow> nat option) \<Rightarrow> inode \<Rightarrow> nat option" where
  "release p h i = (if h i = Some p then None else h i)"

inductive serve_step :: "bool \<Rightarrow> serve_world \<Rightarrow> serve_world \<Rightarrow> bool" for removes where
  open_existing: "sw_at w p = Outside \<Longrightarrow> sw_entry w = Some i
    \<Longrightarrow> serve_step removes w (w\<lparr>sw_at := (sw_at w)(p := Opened i)\<rparr>)"
| open_new: "sw_at w p = Outside \<Longrightarrow> sw_entry w = None
    \<Longrightarrow> serve_step removes w (w\<lparr>sw_entry := Some (sw_next w), sw_next := Suc (sw_next w), sw_at := (sw_at w)(p := Opened (sw_next w))\<rparr>)"
| lock_free: "sw_at w p = Opened i \<Longrightarrow> sw_holder w i = None
    \<Longrightarrow> serve_step removes w (w\<lparr>sw_holder := (sw_holder w)(i := Some p), sw_at := (sw_at w)(p := Locked i)\<rparr>)"
| lock_held: "sw_at w p = Opened i \<Longrightarrow> sw_holder w i \<noteq> None
    \<Longrightarrow> serve_step removes w (w\<lparr>sw_at := (sw_at w)(p := Outside)\<rparr>)"
| write_info: "sw_at w p = Locked i \<Longrightarrow> serve_step removes w (w\<lparr>sw_at := (sw_at w)(p := Serving i)\<rparr>)"
| unlock_step: "sw_at w p = Serving i
    \<Longrightarrow> serve_step removes w (w\<lparr>sw_holder := release p (sw_holder w), sw_at := (sw_at w)(p := Removing i)\<rparr>)"
| remove_step: "sw_at w p = Removing i \<Longrightarrow> removes
    \<Longrightarrow> serve_step removes w (w\<lparr>sw_entry := None, sw_at := (sw_at w)(p := Outside)\<rparr>)"
| end_step: "serve_step removes w (w\<lparr>sw_holder := release p (sw_holder w), sw_at := (sw_at w)(p := Outside)\<rparr>)"

text \<open>Processes hold what they think they hold; without removals all have the one file open.\<close>

definition serve_ok :: "bool \<Rightarrow> serve_world \<Rightarrow> bool" where
  "serve_ok removes w \<longleftrightarrow>
     (\<forall>p i. has_lock (sw_at w p) i \<longrightarrow> sw_holder w i = Some p)
     \<and> (\<not> removes \<longrightarrow> (\<forall>p i. phase_inode (sw_at w p) = Some i \<longrightarrow> sw_entry w = Some i))"

lemma serve_step_ok: "serve_step removes w w' \<Longrightarrow> serve_ok removes w \<Longrightarrow> serve_ok removes w'"
  by (induction rule: serve_step.induct) (auto simp: serve_ok_def release_def split: if_splits, (metis phase_inode.simps(2-4))+)

lemma serve_steps_ok: "(serve_step removes)\<^sup>*\<^sup>* w w' \<Longrightarrow> serve_ok removes w \<Longrightarrow> serve_ok removes w'"
  by (induction rule: rtranclp_induct) (auto intro: serve_step_ok)

theorem serve_run_respects_lock_witness:
  "let fs = dead_lock_file\<lparr>lf_holder := (\<lambda>_. Some 0)\<rparr>
   in fst (serve_run demo_codec (\<lambda>_. True) all_well OnReplace (demo_info 8) fs) = Some StartDenied"
proof -
  define fs where "fs = dead_lock_file\<lparr>lf_holder := (\<lambda>_. Some 0)\<rparr>"
  have e: "lf_entry fs = Some 0" by (simp add: fs_def dead_lock_file_def)
  have "info_from demo_codec (str_trim (lf_bytes fs 0)) = Some (demo_info 7)" "lf_holder fs 0 \<noteq> None"
    by (simp_all add: fs_def dead_lock_file_def demo_codec_def demo_trim)
  then have "fst (serve_run demo_codec (\<lambda>_. True) all_well OnReplace (demo_info 8) fs) = Some StartDenied"
    using serve_run_respects_lock [OF e, of demo_codec "\<lambda>_. True" all_well OnReplace "demo_info 8" _ _ "demo_info 7"] by simp
  then show ?thesis by (simp add: fs_def Let_def)
qed

definition serve_init :: serve_world where
  "serve_init = \<lparr>sw_entry = None, sw_holder = (\<lambda>_. None), sw_next = 0, sw_at = (\<lambda>_. Outside)\<rparr>"

lemma serve_init_ok: "serve_ok removes serve_init"
  by (simp add: serve_ok_def serve_init_def)

text \<open>
  C22: As long as no file is removed (all servers end by a crash), at most one process serves at a
  time, however the steps of the processes interleave.
\<close>

theorem one_server_without_removal:
  assumes "(serve_step False)\<^sup>*\<^sup>* serve_init w" and "sw_at w p = Serving i" and "sw_at w q = Serving j"
  shows "p = q \<and> i = j"
proof -
  have ok: "serve_ok False w" using serve_steps_ok [OF assms(1) serve_init_ok] .
  have "phase_inode (sw_at w p) = Some i" "phase_inode (sw_at w q) = Some j" using assms(2,3) by simp_all
  then have "sw_entry w = Some i" "sw_entry w = Some j" using ok unfolding serve_ok_def by blast+
  then have "i = j" by simp
  moreover have "has_lock (sw_at w p) i" "has_lock (sw_at w q) j" using assms(2,3) by simp_all
  then have "sw_holder w i = Some p" "sw_holder w j = Some q" using ok unfolding serve_ok_def by blast+
  ultimately show ?thesis by simp
qed

lemma serve_run3:
  assumes "step a b" "step b c" "step c d"
  shows "step\<^sup>*\<^sup>* a d"
  using assms by (meson rtranclp.rtrancl_refl rtranclp.rtrancl_into_rtrancl)

text \<open>A process that finds a file or none opens, locks and writes it.\<close>

lemma serve_alone:
  assumes "sw_at w p = Outside" and "sw_entry w = Some i \<or> sw_entry w = None \<and> i = sw_next w" and "sw_holder w i = None"
    and n: "n = (if sw_entry w = None then Suc (sw_next w) else sw_next w)"
  shows "(serve_step removes)\<^sup>*\<^sup>* w (w\<lparr>sw_entry := Some i, sw_next := n, sw_holder := (sw_holder w)(i := Some p), sw_at := (sw_at w)(p := Serving i)\<rparr>)"
proof -
  let ?w1 = "w\<lparr>sw_entry := Some i, sw_next := n, sw_at := (sw_at w)(p := Opened i)\<rparr>"
  let ?w2 = "w\<lparr>sw_entry := Some i, sw_next := n, sw_holder := (sw_holder w)(i := Some p), sw_at := (sw_at w)(p := Locked i)\<rparr>"
  have s1: "serve_step removes w ?w1"
  proof (cases "sw_entry w")
    case None
    then show ?thesis using open_new [OF assms(1) None, of removes] assms(2) n by auto
  next
    case (Some j)
    then have "?w1 = w\<lparr>sw_at := (sw_at w)(p := Opened i)\<rparr>" using assms(2) n by (cases w) simp
    then show ?thesis using open_existing [OF assms(1), of i removes] Some assms(2) by (metis option.distinct(1))
  qed
  have s2: "serve_step removes ?w1 ?w2"
    using lock_free [of ?w1 p i removes] assms(3) by simp
  have s3: "serve_step removes ?w2 (w\<lparr>sw_entry := Some i, sw_next := n, sw_holder := (sw_holder w)(i := Some p), sw_at := (sw_at w)(p := Serving i)\<rparr>)"
    using write_info [of ?w2 p i removes] by simp
  show ?thesis using serve_run3 [of "serve_step removes", OF s1 s2 s3] .
qed

abbreviation world :: "inode option \<Rightarrow> (inode \<Rightarrow> nat option) \<Rightarrow> inode \<Rightarrow> serve_phase \<Rightarrow> serve_phase \<Rightarrow> serve_phase \<Rightarrow> serve_world" where
  "world e h n a b c \<equiv> \<lparr>sw_entry = e, sw_holder = h, sw_next = n, sw_at = (\<lambda>_. Outside)(0 := a, 1 := b, 2 := c)\<rparr>"

lemma world_upd:
  "((\<lambda>_. Outside)(0 := a, Suc 0 := b, 2 := c))(0 := x) = (\<lambda>_. Outside)(0 := x, Suc 0 := b, 2 := c)"
  "((\<lambda>_. Outside)(0 := a, Suc 0 := b, 2 := c))(Suc 0 := x) = (\<lambda>_. Outside)(0 := a, Suc 0 := x, 2 := c)"
  "((\<lambda>_. Outside)(0 := a, Suc 0 := b, 2 := c))(2 := x) = (\<lambda>_. Outside)(0 := a, Suc 0 := b, 2 := x)"
  for a b c x :: serve_phase
  by (auto simp: fun_eq_iff)

lemma first_server: "(serve_step removes)\<^sup>*\<^sup>* serve_init (world (Some 0) ((\<lambda>_. None)(0 := Some 0)) 1 (Serving 0) Outside Outside)"
  using serve_alone [of serve_init 0 0 1 removes] by (simp add: serve_init_def fun_upd_idem)

theorem one_server_without_removal_witness:
  "\<exists>w. (serve_step False)\<^sup>*\<^sup>* serve_init w \<and> sw_at w 0 = Serving 0 \<and> (\<forall>q. sw_at w q = Serving 0 \<longleftrightarrow> q = 0)"
proof -
  let ?w = "world (Some 0) ((\<lambda>_. None)(0 := Some 0)) 1 (Serving 0) Outside Outside"
  have s: "sw_at ?w 0 = Serving 0" by simp
  have all: "sw_at ?w q = Serving 0 \<longleftrightarrow> q = 0" for q
    using one_server_without_removal [OF first_server s, of q 0] s by (cases "q = 0") simp_all
  show ?thesis by (intro exI [of _ ?w] conjI allI, rule first_server, rule s, rule all)
qed

text \<open>
  C25: The removal of the file breaks the guard. A process that has the file open when the server
  unlocks it can lock it before it is removed. It then serves under a file that the path no longer
  names, the next process makes a new file and serves as well: two servers run.
\<close>

theorem removal_admits_two_servers:
  "\<exists>w i j. (serve_step True)\<^sup>*\<^sup>* serve_init w \<and> sw_at w 1 = Serving i \<and> sw_at w 2 = Serving j"
proof -
  define none :: "inode \<Rightarrow> nat option" where "none = (\<lambda>_. None)"
  define w1 where "w1 = world (Some 0) (none(0 := Some 0)) 1 (Serving 0) Outside Outside"
  define w2 where "w2 = world (Some 0) (none(0 := Some 0)) 1 (Serving 0) (Opened 0) Outside"
  define w3 where "w3 = world (Some 0) none 1 (Removing 0) (Opened 0) Outside"
  define w4 where "w4 = world (Some 0) (none(0 := Some 1)) 1 (Removing 0) (Locked 0) Outside"
  define w5 where "w5 = world (Some 0) (none(0 := Some 1)) 1 (Removing 0) (Serving 0) Outside"
  define w6 where "w6 = world None (none(0 := Some 1)) 1 Outside (Serving 0) Outside"
  define w7 where "w7 = world (Some 1) (none(0 := Some 1, 1 := Some 2)) 2 Outside (Serving 0) (Serving 1)"
  have r: "release 0 (none(0 := Some 0)) = none" by (auto simp: release_def none_def)
  have s1: "(serve_step True)\<^sup>*\<^sup>* serve_init w1" unfolding w1_def none_def by (rule first_server)
  have s2: "serve_step True w1 w2" using open_existing [of w1 1 0 True] by (simp add: w1_def w2_def world_upd)
  have s3: "serve_step True w2 w3" using unlock_step [of w2 0 0 True] r by (simp add: w2_def w3_def world_upd)
  have s4: "serve_step True w3 w4" using lock_free [of w3 1 0 True] by (simp add: w3_def w4_def world_upd none_def)
  have s5: "serve_step True w4 w5" using write_info [of w4 1 0 True] by (simp add: w4_def w5_def world_upd)
  have s6: "serve_step True w5 w6" using remove_step [of w5 0 0 True] by (simp add: w5_def w6_def world_upd)
  have s7: "(serve_step True)\<^sup>*\<^sup>* w6 w7"
  proof -
    have "w7 = w6\<lparr>sw_entry := Some 1, sw_next := 2, sw_holder := (sw_holder w6)(1 := Some 2), sw_at := (sw_at w6)(2 := Serving 1)\<rparr>"
      by (simp add: w6_def w7_def)
    moreover have "sw_at w6 2 = Outside" "sw_entry w6 = None" "sw_next w6 = 1" "sw_holder w6 1 = None"
      by (simp_all add: w6_def none_def)
    ultimately show ?thesis using serve_alone [of w6 2 1 2 True] by (simp add: numeral_2_eq_2)
  qed
  have "(serve_step True)\<^sup>*\<^sup>* serve_init w4"
    using s1 serve_run3 [of "serve_step True" w1 w2 w3 w4, OF s2 s3 s4] by (rule rtranclp_trans)
  then have "(serve_step True)\<^sup>*\<^sup>* serve_init w5" using s5 by (rule rtranclp.rtrancl_into_rtrancl)
  then have "(serve_step True)\<^sup>*\<^sup>* serve_init w6" using s6 by (rule rtranclp.rtrancl_into_rtrancl)
  then have run: "(serve_step True)\<^sup>*\<^sup>* serve_init w7" using s7 by (rule rtranclp_trans)
  have both: "sw_at w7 1 = Serving 0" "sw_at w7 2 = Serving 1" by (simp_all add: w7_def)
  show ?thesis by (intro exI conjI, rule run, rule both(1), rule both(2))
qed

end
