(* ===== verification/LogBuffer.thy ===== *)
theory LogBuffer
  imports Prelude
begin

text \<open>
  The ring buffer of recent log lines of the IPC server
  (\<open>crates/sharecli-ipc/src/log_buffer.rs\<close>) and the poll of \<open>log.tail\<close> in \<open>handler.rs\<close>. The clock is an
  argument, the fields of an event are a list of names with their printed values, and the mutex is
  sequential access.
\<close>

section \<open>Buffer\<close>

record log_entry =
  le_id :: u64
  le_ts :: u64
  le_level :: string
  le_subsystem :: string
  le_msg :: string

record log_inner =
  lb_entries :: "log_entry list"
  lb_next_id :: u64
  lb_last_id :: u64

definition CAPACITY :: nat where
  "CAPACITY = 1000"

definition lb_new :: log_inner where
  "lb_new = \<lparr>lb_entries = [], lb_next_id = 1, lb_last_id = 0\<rparr>"

definition lb_push :: "u64 \<Rightarrow> string \<Rightarrow> string \<Rightarrow> string \<Rightarrow> log_inner \<Rightarrow> u64 \<times> log_inner" where
  "lb_push ts level subsystem msg inner =
     (let id = lb_next_id inner;
          entries = (if length (lb_entries inner) = CAPACITY then tl (lb_entries inner) else lb_entries inner);
          entry = \<lparr>le_id = id, le_ts = ts, le_level = level, le_subsystem = subsystem, le_msg = msg\<rparr>
      in (id, \<lparr>lb_entries = entries @ [entry], lb_next_id = id + 1, lb_last_id = id\<rparr>))"

definition lb_tail :: "u64 \<Rightarrow> nat \<Rightarrow> log_inner \<Rightarrow> log_entry list \<times> u64" where
  "lb_tail since_id mx inner =
     (let cap = min mx CAPACITY;
          out = filter (\<lambda>e. le_id e > since_id) (lb_entries inner)
      in (if length out > cap then take cap out else out, lb_last_id inner))"

definition subsystem_for :: "string \<Rightarrow> string" where
  "subsystem_for module_path =
     (if str_contains module_path ''sharecli_ipc'' \<or> str_contains module_path ''sharecli-ipc'' then ''ipc''
      else if str_contains module_path ''pool'' then ''pool''
      else if str_contains module_path ''gate'' \<or> str_contains module_path ''thermal'' then ''gate''
      else if str_contains module_path ''health'' \<or> str_contains module_path ''monitoring'' then ''health''
      else if str_contains module_path ''config'' then ''config''
      else if str_contains module_path ''fleet'' then ''pool''
      else ''core'')"

section \<open>Events\<close>

text \<open>A field comes as a string or with its debug print.\<close>

datatype field_value = FieldStr string | FieldDebug string

definition ends_with_quote :: "string \<Rightarrow> bool" where
  "ends_with_quote s \<longleftrightarrow> s \<noteq> [] \<and> last s = CHR 0x22"

definition strip_quotes :: "string \<Rightarrow> string" where
  "strip_quotes s =
     (if starts_with s [CHR 0x22] \<and> ends_with_quote s \<and> length s \<ge> 2 then butlast (tl s) else s)"

definition append_field :: "string \<Rightarrow> string \<Rightarrow> string \<Rightarrow> string" where
  "append_field msg name printed = (if msg \<noteq> [] then msg @ '' '' else msg) @ name @ ''='' @ printed"

fun record_field :: "string \<Rightarrow> string \<times> field_value \<Rightarrow> string" where
  "record_field msg (name, FieldStr v) = (if name = ''message'' then v else append_field msg name v)"
| "record_field msg (name, FieldDebug v) = (if name = ''message'' then strip_quotes v else append_field msg name v)"

datatype log_level = LevelError | LevelWarn | LevelInfo | LevelDebug | LevelTrace

definition level_name :: "log_level \<Rightarrow> string" where
  "level_name l =
     (case l of LevelError \<Rightarrow> ''ERROR'' | LevelWarn \<Rightarrow> ''WARN'' | LevelInfo \<Rightarrow> ''INFO'' | LevelDebug \<Rightarrow> ''DEBUG''
      | LevelTrace \<Rightarrow> ''TRACE'')"

definition on_event ::
  "u64 \<Rightarrow> log_level \<Rightarrow> string option \<Rightarrow> (string \<times> field_value) list \<Rightarrow> log_inner \<Rightarrow> log_inner" where
  "on_event ts level module_path fs inner =
     (let subsystem = subsystem_for (case module_path of None \<Rightarrow> ''core'' | Some m \<Rightarrow> m);
          msg = foldl record_field [] fs
      in snd (lb_push ts (level_name level) subsystem msg inner))"

text \<open>The request \<open>log.tail\<close>.\<close>

definition LOG_TAIL_MAX :: nat where
  "LOG_TAIL_MAX = 200"

definition log_tail_request :: "u64 option \<Rightarrow> log_inner \<Rightarrow> log_entry list \<times> u64" where
  "log_tail_request since_id inner = lb_tail (case since_id of None \<Rightarrow> 0 | Some i \<Rightarrow> i) LOG_TAIL_MAX inner"

section \<open>The log as a list\<close>

text \<open>
  A line without its number, and the numbered lines of a whole history. The buffer is the end of
  that list.
\<close>

type_synonym line = "u64 \<times> string \<times> string \<times> string"

fun number_line :: "line \<Rightarrow> u64 \<Rightarrow> log_entry" where
  "number_line (ts, l, s, m) i = \<lparr>le_id = i, le_ts = ts, le_level = l, le_subsystem = s, le_msg = m\<rparr>"

definition push_line :: "log_inner \<Rightarrow> line \<Rightarrow> log_inner" where
  "push_line inner x = (case x of (ts, l, s, m) \<Rightarrow> snd (lb_push ts l s m inner))"

definition numbered :: "line list \<Rightarrow> log_entry list" where
  "numbered xs = map (\<lambda>i. number_line (xs ! i) (of_nat (Suc i))) [0..<length xs]"

definition log_of :: "line list \<Rightarrow> log_inner" where
  "log_of xs = foldl push_line lb_new xs"

lemma numbered_snoc: "numbered (xs @ [x]) = numbered xs @ [number_line x (of_nat (Suc (length xs)))]"
  by (auto simp: numbered_def nth_append intro!: map_cong)

lemma length_numbered [simp]: "length (numbered xs) = length xs"
  by (simp add: numbered_def)

lemma log_of_state:
  "log_of xs = \<lparr>lb_entries = drop (length xs - CAPACITY) (numbered xs), lb_next_id = of_nat (Suc (length xs)), lb_last_id = of_nat (length xs)\<rparr>"
proof (induction xs rule: rev_induct)
  case Nil
  show ?case by (simp add: log_of_def lb_new_def numbered_def)
next
  case (snoc x xs)
  obtain ts l s m where x: "x = (ts, l, s, m)" by (cases x)
  have l: "log_of (xs @ [x]) = push_line (log_of xs) x" by (simp add: log_of_def)
  have ne: "length xs \<ge> CAPACITY \<Longrightarrow> tl (drop (length xs - CAPACITY) (numbered xs)) = drop (Suc (length xs) - CAPACITY) (numbered xs)"
    by (simp add: drop_Suc [symmetric] tl_drop Suc_diff_le)
  have one: "Suc 0 - CAPACITY = 0" by (simp add: CAPACITY_def)
  show ?case
    unfolding l snoc.IH numbered_snoc
    using ne one by (auto simp: x push_line_def lb_push_def Let_def not_le)
qed

text \<open>As long as the counter does not wrap, the number of a line is its place in the history.\<close>

lemma unat_u64: "n < 2 ^ 64 \<Longrightarrow> unat (of_nat n :: u64) = n"
  by (simp add: unat_of_nat)

lemma numbered_id: "i < length xs \<Longrightarrow> length xs < 2 ^ 64 \<Longrightarrow> unat (le_id (numbered xs ! i)) = Suc i"
  by (cases "xs ! i") (simp add: numbered_def unat_u64 del: of_nat_Suc)

lemma in_drop:
  assumes "x \<in> set (drop n l)"
  shows "\<exists>i. n \<le> i \<and> i < length l \<and> x = l ! i"
proof -
  from assms obtain i where i: "i < length (drop n l)" "x = drop n l ! i" unfolding in_set_conv_nth by blast
  then show ?thesis by (intro exI [of _ "n + i"]) simp
qed

lemma filter_numbered:
  assumes "length xs < 2 ^ 64" and "k \<le> length xs"
  shows "filter (\<lambda>e. le_id e > of_nat k) (drop c (numbered xs)) = drop (max k c) (numbered xs)"
proof -
  have k: "unat (of_nat k :: u64) = k" using assms by (intro unat_u64) simp
  have split: "drop c (numbered xs) = take (k - c) (drop c (numbered xs)) @ drop (max k c) (numbered xs)"
  proof (cases "c \<le> k")
    case True
    then have "drop (max k c) (numbered xs) = drop (k - c) (drop c (numbered xs))" by (simp add: max_def)
    then show ?thesis by (metis append_take_drop_id)
  qed (simp add: max_def)
  have "\<forall>e \<in> set (take (k - c) (drop c (numbered xs))). \<not> le_id e > of_nat k"
  proof
    fix e assume "e \<in> set (take (k - c) (drop c (numbered xs)))"
    then obtain i where i: "i < k - c" "c + i < length xs" "e = numbered xs ! (c + i)"
      by (auto simp: in_set_conv_nth)
    then have "unat (le_id e) = Suc (c + i)" using numbered_id assms(1) by simp
    then show "\<not> le_id e > of_nat k" using i(1) k by (simp add: word_less_nat_alt)
  qed
  moreover have "\<forall>e \<in> set (drop (max k c) (numbered xs)). le_id e > of_nat k"
  proof
    fix e assume "e \<in> set (drop (max k c) (numbered xs))"
    then obtain i where i: "max k c \<le> i" "i < length xs" "e = numbered xs ! i" using in_drop by fastforce
    then have "unat (le_id e) = Suc i" using numbered_id assms(1) by simp
    then show "le_id e > of_nat k" using k i(1) by (simp add: word_less_nat_alt)
  qed
  ultimately show ?thesis by (subst split) (simp add: filter_empty_conv filter_id_conv)
qed

lemma lb_tail_log_of:
  assumes "length xs < 2 ^ 64" and "k \<le> length xs"
  shows "lb_tail (of_nat k) mx (log_of xs) = (take (min mx CAPACITY) (drop (max k (length xs - CAPACITY)) (numbered xs)), of_nat (length xs))"
proof -
  have "(if length out > cap then take cap out else out) = take cap out" for cap and out :: "log_entry list" by simp
  then show ?thesis by (simp only: lb_tail_def log_of_state filter_numbered [OF assms] Let_def log_inner.simps)
qed

text \<open>A client that polls and goes on from the number it is given, with lines written in between.\<close>

fun polls :: "u64 \<Rightarrow> line list \<Rightarrow> line list list \<Rightarrow> log_entry list" where
  "polls since xs [] = []"
| "polls since xs (b # bs) =
     (case log_tail_request (Some since) (log_of (xs @ b)) of (out, last_id) \<Rightarrow> out @ polls last_id (xs @ b) bs)"

lemma numbered_append: "numbered (xs @ ys) = numbered xs @ drop (length xs) (numbered (xs @ ys))"
proof -
  have "take (length xs) (numbered (xs @ ys)) = numbered xs"
    by (auto simp: numbered_def take_map nth_append intro!: map_cong)
  then show ?thesis by (metis append_take_drop_id)
qed

lemma poll_once:
  assumes "length (xs @ b) < 2 ^ 64"
  shows "log_tail_request (Some (of_nat (length xs))) (log_of (xs @ b))
    = (take LOG_TAIL_MAX (drop (max (length xs) (length xs + length b - CAPACITY)) (numbered (xs @ b))), of_nat (length (xs @ b)))"
  using lb_tail_log_of [OF assms, of "length xs" LOG_TAIL_MAX]
  by (simp add: log_tail_request_def LOG_TAIL_MAX_def CAPACITY_def)

lemma polls_length:
  "length (xs @ concat bs) < 2 ^ 64 \<Longrightarrow> length (polls (of_nat (length xs)) xs bs) = (\<Sum>b \<leftarrow> bs. min LOG_TAIL_MAX (length b))"
proof (induction bs arbitrary: xs)
  case (Cons b bs)
  then have "length (xs @ b) < 2 ^ 64" by simp
  note one = poll_once [OF this]
  have IH: "length (polls (of_nat (length (xs @ b))) (xs @ b) bs) = (\<Sum>b \<leftarrow> bs. min LOG_TAIL_MAX (length b))"
    using Cons.IH [of "xs @ b"] Cons.prems by simp
  have "min LOG_TAIL_MAX (length (xs @ b) - max (length xs) (length xs + length b - CAPACITY)) = min LOG_TAIL_MAX (length b)"
    by (simp add: LOG_TAIL_MAX_def CAPACITY_def)
  then show ?case unfolding polls.simps one using IH by (simp add: min.commute)
qed simp

lemma polls_complete:
  "length (xs @ concat bs) < 2 ^ 64 \<Longrightarrow> \<forall>b \<in> set bs. length b \<le> LOG_TAIL_MAX
    \<Longrightarrow> numbered xs @ polls (of_nat (length xs)) xs bs = numbered (xs @ concat bs)"
proof (induction bs arbitrary: xs)
  case (Cons b bs)
  then have "length (xs @ b) < 2 ^ 64" by simp
  note one = poll_once [OF this]
  have b: "length b \<le> LOG_TAIL_MAX" "length b \<le> CAPACITY"
    using Cons.prems(2) by (simp_all add: LOG_TAIL_MAX_def CAPACITY_def)
  have "take LOG_TAIL_MAX (drop (max (length xs) (length xs + length b - CAPACITY)) (numbered (xs @ b))) = drop (length xs) (numbered (xs @ b))"
    using b by simp
  then have "numbered xs @ polls (of_nat (length xs)) xs (b # bs) = numbered (xs @ b) @ polls (of_nat (length (xs @ b))) (xs @ b) bs"
    unfolding polls.simps one prod.case append_assoc [symmetric] by (simp only: numbered_append [of xs b, symmetric])
  also have "\<dots> = numbered ((xs @ b) @ concat bs)" using Cons.IH [of "xs @ b"] Cons.prems by simp
  finally show ?case by simp
qed simp

lemma sum_min_less:
  "(\<Sum>b \<leftarrow> bs. min n (length b)) = length (concat bs) \<longleftrightarrow> (\<forall>b \<in> set bs. length b \<le> n)"
proof (induction bs)
  case (Cons b bs)
  have "(\<Sum>b \<leftarrow> bs. min n (length b)) \<le> length (concat bs)" by (induction bs) auto
  then show ?case using Cons by auto
qed simp

section \<open>Properties\<close>

text \<open>
  The buffer holds the last thousand lines of the history in order, numbered from one on, and
  the numbers it reports are those of the history, as long as fewer than \<open>2\<^sup>6\<^sup>4\<close> lines are written. A
  tail is the first lines after the given number that are still there, at most as many as asked
  for.
\<close>

theorem log_buffer_is_suffix:
  assumes "length xs < 2 ^ 64" and "k \<le> length xs"
  shows "lb_entries (log_of xs) = drop (length xs - CAPACITY) (numbered xs)
    \<and> lb_tail (of_nat k) mx (log_of xs)
       = (take (min mx CAPACITY) (drop (max k (length xs - CAPACITY)) (numbered xs)), of_nat (length xs))
    \<and> (\<forall>i < length xs. unat (le_id (numbered xs ! i)) = Suc i)"
  using lb_tail_log_of [OF assms] numbered_id assms(1) by (simp add: log_of_state)

theorem log_buffer_is_suffix_witness:
  "fst (lb_tail 1 5 (log_of [(0, ''INFO'', ''ipc'', ''a''), (0, ''INFO'', ''ipc'', ''b'')])) = [number_line (0, ''INFO'', ''ipc'', ''b'') 2]"
  using log_buffer_is_suffix [of "[(0, ''INFO'', ''ipc'', ''a''), (0, ''INFO'', ''ipc'', ''b'')]" 1 5]
  by (simp add: CAPACITY_def numbered_def upt_rec)

text \<open>
  C28: A client that goes on from the number each answer reports, as it is told to, sees every line
  exactly once and in order if and only if at most two hundred lines are written between any two
  of its polls. Otherwise lines that are in the buffer are skipped for good: an answer keeps the
  oldest new lines but reports the number of the newest.
\<close>

theorem polling_complete_iff:
  assumes "length (concat bs) < 2 ^ 64"
  shows "polls 0 [] bs = numbered (concat bs) \<longleftrightarrow> (\<forall>b \<in> set bs. length b \<le> LOG_TAIL_MAX)"
proof
  assume "polls 0 [] bs = numbered (concat bs)"
  then have "(\<Sum>b \<leftarrow> bs. min LOG_TAIL_MAX (length b)) = length (concat bs)"
    using polls_length [of "[]" bs] assms by simp
  then show "\<forall>b \<in> set bs. length b \<le> LOG_TAIL_MAX" by (simp only: sum_min_less)
next
  assume "\<forall>b \<in> set bs. length b \<le> LOG_TAIL_MAX"
  then show "polls 0 [] bs = numbered (concat bs)" using polls_complete [of "[]" bs] assms by (simp add: numbered_def)
qed

theorem polling_complete_iff_witness:
  "polls 0 [] [replicate 201 (0, ''INFO'', ''ipc'', ''a'')] \<noteq> numbered (replicate 201 (0, ''INFO'', ''ipc'', ''a''))"
  using polling_complete_iff [of "[replicate 201 (0, ''INFO'', ''ipc'', ''a'')]"] by (simp add: LOG_TAIL_MAX_def)

end
