(* ===== verification/MeshGit.thy ===== *)
theory MeshGit
  imports Paths
begin

text \<open>
  The parts of the mesh that run \<open>git\<close>: the pool of worktrees
  (\<open>crates/sharecli-mesh/src/worktree_pool.rs\<close>) and the three-way merge (\<open>smart_merge.rs\<close>). The programs
  they run are parameters: functions from arguments and the state of the file system to an answer
  and a new state.
\<close>

section \<open>Worktree pool\<close>

definition GIT_LOCAL_ENV_VARS :: "string list" where
  "GIT_LOCAL_ENV_VARS =
     [''GIT_ALTERNATE_OBJECT_DIRECTORIES'', ''GIT_CONFIG'', ''GIT_CONFIG_PARAMETERS'', ''GIT_CONFIG_COUNT'',
      ''GIT_OBJECT_DIRECTORY'', ''GIT_DIR'', ''GIT_WORK_TREE'', ''GIT_IMPLICIT_WORK_TREE'', ''GIT_GRAFT_FILE'',
      ''GIT_INDEX_FILE'', ''GIT_NO_REPLACE_OBJECTS'', ''GIT_REPLACE_REF_BASE'', ''GIT_PREFIX'', ''GIT_SHALLOW_FILE'',
      ''GIT_COMMON_DIR'', ''GIT_NAMESPACE'']"

datatype pool_error = PoolIo string | NotGitRepo string | GitFailed string | NoAllocation string

record worktree_lease =
  wl_slot_id :: string
  wl_path :: string
  wl_branch :: string

record worktree_pool =
  wp_repo_root :: string
  wp_pool_root :: string
  wp_base_ref :: string
  wp_leases :: "string \<rightharpoonup> worktree_lease"

text \<open>The answer of a process: it did not start, or it ended, well or not, with its two outputs.\<close>

datatype git_answer = GitNoStart string | GitDone bool string string string

text \<open>What the code uses of the host: the environment it inherits, \<open>git\<close>, and four file operations.\<close>

record 'w git_host =
  gh_env :: "(string \<times> string) list"
  gh_git :: "(string \<times> string) list \<Rightarrow> string \<Rightarrow> string list \<Rightarrow> 'w \<Rightarrow> git_answer \<times> 'w"
  gh_exists :: "string \<Rightarrow> 'w \<Rightarrow> bool"
  gh_is_dir :: "string \<Rightarrow> 'w \<Rightarrow> bool"
  gh_create_dir_all :: "string \<Rightarrow> 'w \<Rightarrow> string option \<times> 'w"
  gh_remove_dir_all :: "string \<Rightarrow> 'w \<Rightarrow> string option \<times> 'w"

definition git_command :: "'w git_host \<Rightarrow> string \<Rightarrow> string list \<Rightarrow> 'w \<Rightarrow> git_answer \<times> 'w" where
  "git_command H cwd args w = gh_git H (filter (\<lambda>(k, v). k \<notin> set GIT_LOCAL_ENV_VARS) (gh_env H)) cwd args w"

definition pool_git :: "'w git_host \<Rightarrow> string \<Rightarrow> string list \<Rightarrow> 'w \<Rightarrow> (pool_error + string) \<times> 'w" where
  "pool_git H cwd args w =
     (case git_command H cwd args w of
        (GitNoStart e, w) \<Rightarrow> (Inl (GitFailed e), w)
      | (GitDone ok status out err, w) \<Rightarrow>
          if ok then (Inr out, w)
          else (Inl (GitFailed (''git '' @ str_join '' '' args @ '' => '' @ status @ '': '' @ str_trim err)), w))"

definition ensure_git_repo :: "'w git_host \<Rightarrow> string \<Rightarrow> 'w \<Rightarrow> (pool_error + unit) \<times> 'w" where
  "ensure_git_repo H path w =
     (case git_command H path [''rev-parse'', ''--git-dir''] w of
        (GitNoStart e, w) \<Rightarrow> (Inl (GitFailed e), w)
      | (GitDone ok status out err, w) \<Rightarrow> if ok then (Inr (), w) else (Inl (NotGitRepo path), w))"

definition pool_open :: "'w git_host \<Rightarrow> string \<Rightarrow> string \<Rightarrow> 'w \<Rightarrow> (pool_error + worktree_pool) \<times> 'w" where
  "pool_open H repo_root pool_root w =
     (case ensure_git_repo H repo_root w of
        (Inl e, w) \<Rightarrow> (Inl e, w)
      | (Inr _, w) \<Rightarrow>
          (case gh_create_dir_all H pool_root w of
             (Some e, w) \<Rightarrow> (Inl (PoolIo e), w)
           | (None, w) \<Rightarrow>
               (Inr \<lparr>wp_repo_root = repo_root, wp_pool_root = pool_root, wp_base_ref = ''HEAD'', wp_leases = Map.empty\<rparr>, w)))"

definition with_base_ref :: "string \<Rightarrow> worktree_pool \<Rightarrow> worktree_pool" where
  "with_base_ref r p = p\<lparr>wp_base_ref := r\<rparr>"

text \<open>A path left behind by a crash is removed, by \<open>git\<close> and then by force.\<close>

definition clear_stale :: "'w git_host \<Rightarrow> worktree_pool \<Rightarrow> string \<Rightarrow> 'w \<Rightarrow> string option \<times> 'w" where
  "clear_stale H p path w =
     (if gh_exists H path w
      then (case pool_git H (wp_repo_root p) [''worktree'', ''remove'', ''--force'', path] w of
              (_, w) \<Rightarrow> if gh_exists H path w then gh_remove_dir_all H path w else (None, w))
      else (None, w))"

text \<open>The branch of the slot is made when it is not there.\<close>

definition ensure_branch :: "'w git_host \<Rightarrow> worktree_pool \<Rightarrow> string \<Rightarrow> 'w \<Rightarrow> (pool_error + unit) \<times> 'w" where
  "ensure_branch H p branch w =
     (case pool_git H (wp_repo_root p) [''branch'', ''--list'', branch] w of
        (Inl e, w) \<Rightarrow> (Inl e, w)
      | (Inr out, w) \<Rightarrow>
          if str_trim out = []
          then (case pool_git H (wp_repo_root p) [''branch'', branch, wp_base_ref p] w of
                  (Inl e, w) \<Rightarrow> (Inl e, w)
                | (Inr _, w) \<Rightarrow> (Inr (), w))
          else (Inr (), w))"

definition slot_branch :: "string \<Rightarrow> string" where
  "slot_branch slot_id = ''sharecli/pool/'' @ slot_id"

definition live_lease :: "'w git_host \<Rightarrow> worktree_pool \<Rightarrow> string \<Rightarrow> 'w \<Rightarrow> worktree_lease option" where
  "live_lease H p slot_id w =
     (case wp_leases p slot_id of
        None \<Rightarrow> None
      | Some existing \<Rightarrow> if gh_is_dir H (wl_path existing) w then Some existing else None)"

definition pool_allocate ::
  "'w git_host \<Rightarrow> string \<Rightarrow> worktree_pool \<Rightarrow> 'w \<Rightarrow> (pool_error + worktree_lease) \<times> worktree_pool \<times> 'w" where
  "pool_allocate H slot_id p w =
     (case live_lease H p slot_id w of
        Some existing \<Rightarrow> (Inr existing, p, w)
      | None \<Rightarrow>
          (let p = p\<lparr>wp_leases := (wp_leases p)(slot_id := None)\<rparr>;
               branch = slot_branch slot_id;
               path = path_join (wp_pool_root p) slot_id
           in case clear_stale H p path w of
                (Some e, w) \<Rightarrow> (Inl (PoolIo e), p, w)
              | (None, w) \<Rightarrow>
                  (case ensure_branch H p branch w of
                     (Inl e, w) \<Rightarrow> (Inl e, p, w)
                   | (Inr _, w) \<Rightarrow>
                       (case pool_git H (wp_repo_root p) [''worktree'', ''add'', path, branch] w of
                          (Inl e, w) \<Rightarrow> (Inl e, p, w)
                        | (Inr _, w) \<Rightarrow>
                            (let lease = \<lparr>wl_slot_id = slot_id, wl_path = path, wl_branch = branch\<rparr>
                             in (Inr lease, p\<lparr>wp_leases := (wp_leases p)(slot_id \<mapsto> lease)\<rparr>, w))))))"

definition pool_release ::
  "'w git_host \<Rightarrow> string \<Rightarrow> worktree_pool \<Rightarrow> 'w \<Rightarrow> (pool_error + unit) \<times> worktree_pool \<times> 'w" where
  "pool_release H slot_id p w =
     (case wp_leases p slot_id of
        None \<Rightarrow> (Inl (NoAllocation slot_id), p, w)
      | Some lease \<Rightarrow>
          (let p = p\<lparr>wp_leases := (wp_leases p)(slot_id := None)\<rparr>;
               drop_branch = (\<lambda>w. snd (pool_git H (wp_repo_root p) [''branch'', ''-D'', wl_branch lease] w))
           in case pool_git H (wp_repo_root p) [''worktree'', ''remove'', ''--force'', wl_path lease] w of
                (Inr _, w) \<Rightarrow> (Inr (), p, drop_branch w)
              | (Inl e, w) \<Rightarrow>
                  if gh_exists H (wl_path lease) w
                  then (case gh_remove_dir_all H (wl_path lease) w of
                          (Some e, w) \<Rightarrow> (Inl (PoolIo e), p, w)
                        | (None, w) \<Rightarrow>
                            (Inr (), p, drop_branch (snd (pool_git H (wp_repo_root p) [''worktree'', ''prune''] w))))
                  else (Inl e, p, w)))"

definition active_slots :: "worktree_pool \<Rightarrow> string set" where
  "active_slots p = dom (wp_leases p)"

section \<open>Smart merge\<close>

text \<open>
  A path is absolute or not and has components; \<open>Path::parent\<close> and comparison go by components. A
  relative path is resolved against a directory.
\<close>

type_synonym rpath = "bool \<times> string list"

definition rp_parent :: "rpath \<Rightarrow> rpath option" where
  "rp_parent p = (if snd p = [] then None else Some (fst p, butlast (snd p)))"

definition rp_file_name :: "rpath \<Rightarrow> string option" where
  "rp_file_name p = (if snd p = [] \<or> last (snd p) = ''..'' then None else Some (last (snd p)))"

definition rp_resolve :: "rpath \<Rightarrow> rpath \<Rightarrow> rpath" where
  "rp_resolve dir p = (if fst p then p else (fst dir, snd dir @ snd p))"

definition rp_child :: "rpath \<Rightarrow> string \<Rightarrow> rpath" where
  "rp_child dir n = (fst dir, snd dir @ [n])"

record merge_result =
  mr_success :: bool
  mr_conflicts :: "string list"
  mr_output :: string
  mr_used_mergiraf :: bool

definition mr_clean :: "string \<Rightarrow> bool \<Rightarrow> merge_result" where
  "mr_clean out used = \<lparr>mr_success = True, mr_conflicts = [], mr_output = out, mr_used_mergiraf = used\<rparr>"

definition mr_conflicted :: "string \<Rightarrow> bool \<Rightarrow> merge_result" where
  "mr_conflicted out used = \<lparr>mr_success = False, mr_conflicts = [], mr_output = out, mr_used_mergiraf = used\<rparr>"

record smart_merger =
  sm_mergiraf_binary :: "rpath option"
  sm_fallback_to_git :: bool

definition sm_default :: smart_merger where
  "sm_default = \<lparr>sm_mergiraf_binary = None, sm_fallback_to_git = True\<rparr>"

definition with_mergiraf_binary :: "rpath \<Rightarrow> smart_merger \<Rightarrow> smart_merger" where
  "with_mergiraf_binary b m = m\<lparr>sm_mergiraf_binary := Some b\<rparr>"

definition without_git_fallback :: "smart_merger \<Rightarrow> smart_merger" where
  "without_git_fallback m = m\<lparr>sm_fallback_to_git := False\<rparr>"

text \<open>
  Files by their absolute path. A program answers that it did not start, or ends with a code,
  which is missing when a signal ended it.
\<close>

type_synonym files = "rpath \<rightharpoonup> string"

datatype cmd_answer = CmdNoStart string | CmdDone "int option" string string

record merge_host =
  mh_cwd :: rpath
  mh_path_dirs :: "rpath list option"
  mh_mergiraf :: "rpath \<Rightarrow> rpath \<Rightarrow> rpath \<Rightarrow> rpath \<Rightarrow> rpath \<Rightarrow> files \<Rightarrow> cmd_answer \<times> files"
  mh_merge_file :: "rpath \<Rightarrow> rpath \<Rightarrow> rpath \<Rightarrow> rpath \<Rightarrow> files \<Rightarrow> cmd_answer \<times> files"
  mh_mkdir_fails :: "rpath \<Rightarrow> string option"
  mh_write_fails :: "rpath \<Rightarrow> string option"
  mh_remove_fails :: "rpath \<Rightarrow> bool"
  mh_stamp :: string

fun which_dirs :: "rpath \<Rightarrow> files \<Rightarrow> string \<Rightarrow> rpath list \<Rightarrow> rpath option" where
  "which_dirs cwd fs name [] = None"
| "which_dirs cwd fs name (d # ds) =
     (let candidate = rp_child d name
      in if fs (rp_resolve cwd candidate) \<noteq> None then Some candidate else which_dirs cwd fs name ds)"

definition which_bin :: "merge_host \<Rightarrow> files \<Rightarrow> string \<Rightarrow> rpath option" where
  "which_bin H fs name = (case mh_path_dirs H of None \<Rightarrow> None | Some ds \<Rightarrow> which_dirs (mh_cwd H) fs name ds)"

definition mergiraf_path :: "merge_host \<Rightarrow> files \<Rightarrow> smart_merger \<Rightarrow> rpath option" where
  "mergiraf_path H fs m = (case sm_mergiraf_binary m of Some p \<Rightarrow> Some p | None \<Rightarrow> which_bin H fs ''mergiraf'')"

definition try_write :: "merge_host \<Rightarrow> rpath \<Rightarrow> string \<Rightarrow> files \<Rightarrow> files" where
  "try_write H p bytes fs = (if mh_write_fails H (rp_resolve (mh_cwd H) p) = None then fs(rp_resolve (mh_cwd H) p \<mapsto> bytes) else fs)"

definition keep_stdout :: "merge_host \<Rightarrow> rpath \<Rightarrow> string \<Rightarrow> files \<Rightarrow> files" where
  "keep_stdout H output out fs =
     (if fs (rp_resolve (mh_cwd H) output) = None \<and> out \<noteq> [] then try_write H output out fs else fs)"

definition run_mergiraf ::
  "merge_host \<Rightarrow> rpath \<Rightarrow> rpath \<Rightarrow> rpath \<Rightarrow> rpath \<Rightarrow> rpath \<Rightarrow> files \<Rightarrow> merge_result \<times> files" where
  "run_mergiraf H bin base ours theirs output fs =
     (case mh_mergiraf H bin base ours theirs output fs of
        (CmdDone code out err, fs) \<Rightarrow>
          (if code = Some 0 then (mr_clean (out @ err) True, keep_stdout H output out fs)
           else if code = Some 1 then (mr_conflicted (out @ err) True, keep_stdout H output out fs)
           else (mr_conflicted (out @ err) False, fs))
      | (CmdNoStart e, fs) \<Rightarrow> (mr_conflicted e False, fs))"

definition copy_file :: "merge_host \<Rightarrow> rpath \<Rightarrow> rpath \<Rightarrow> files \<Rightarrow> (string + unit) \<times> files" where
  "copy_file H src dst fs =
     (case fs (rp_resolve (mh_cwd H) src) of
        None \<Rightarrow> (Inl ''No such file or directory'', fs)
      | Some c \<Rightarrow>
          (case mh_write_fails H (rp_resolve (mh_cwd H) dst) of
             Some e \<Rightarrow> (Inl e, fs)
           | None \<Rightarrow> (Inr (), fs(rp_resolve (mh_cwd H) dst \<mapsto> c))))"

definition remove_scratch :: "merge_host \<Rightarrow> rpath \<Rightarrow> files \<Rightarrow> files" where
  "remove_scratch H p fs =
     (if mh_remove_fails H (rp_resolve (mh_cwd H) p) then fs else fs(rp_resolve (mh_cwd H) p := None))"

definition path_arg_for_cwd :: "rpath \<Rightarrow> rpath \<Rightarrow> rpath" where
  "path_arg_for_cwd path cwd =
     (if rp_parent path = Some cwd
      then (False, [case rp_file_name path of None \<Rightarrow> ''.'' | Some n \<Rightarrow> n])
      else path)"

text \<open>The scratch copy of our side, named by the process and the time.\<close>

definition scratch_path :: "merge_host \<Rightarrow> rpath \<Rightarrow> rpath \<Rightarrow> rpath" where
  "scratch_path H output ours =
     (let parent = (case rp_parent output of None \<Rightarrow> (False, [''.'']) | Some p \<Rightarrow> p);
          ext = (case rp_file_name ours of None \<Rightarrow> None | Some n \<Rightarrow> name_extension n);
          suffix = (case ext of None \<Rightarrow> [] | Some e \<Rightarrow> ''.'' @ e)
      in rp_child parent (''.sharecli-merge-'' @ mh_stamp H @ suffix))"

definition tempfile_in_parent :: "merge_host \<Rightarrow> rpath \<Rightarrow> rpath \<Rightarrow> files \<Rightarrow> (string + rpath) \<times> files" where
  "tempfile_in_parent H output ours fs =
     (let parent = (case rp_parent output of None \<Rightarrow> (False, [''.'']) | Some p \<Rightarrow> p)
      in case mh_mkdir_fails H (rp_resolve (mh_cwd H) parent) of
           Some e \<Rightarrow> (Inl e, fs)
         | None \<Rightarrow>
             (let scratch = scratch_path H output ours
              in case copy_file H ours scratch fs of
                   (Inl e, fs) \<Rightarrow> (Inl e, fs)
                 | (Inr _, fs) \<Rightarrow> (Inr scratch, fs)))"

definition run_git_fallback ::
  "merge_host \<Rightarrow> rpath \<Rightarrow> rpath \<Rightarrow> rpath \<Rightarrow> rpath \<Rightarrow> files \<Rightarrow> merge_result \<times> files" where
  "run_git_fallback H base ours theirs output fs =
     (case tempfile_in_parent H output ours fs of
        (Inl e, fs) \<Rightarrow> (mr_conflicted e False, fs)
      | (Inr scratch, fs) \<Rightarrow>
          (let cwd = (case rp_parent output of None \<Rightarrow> (False, [''.'']) | Some p \<Rightarrow> p);
               name = (False, [case rp_file_name scratch of None \<Rightarrow> ''scratch'' | Some n \<Rightarrow> n])
           in case mh_merge_file H cwd name (path_arg_for_cwd base cwd) (path_arg_for_cwd theirs cwd) fs of
                (CmdDone code out err, fs) \<Rightarrow>
                  (case copy_file H scratch output fs of
                     (Inr _, fs) \<Rightarrow>
                       ((if code = Some 0 then mr_clean (out @ err) False else mr_conflicted (out @ err) False),
                        remove_scratch H scratch fs)
                   | (Inl e, fs) \<Rightarrow> (mr_conflicted e False, remove_scratch H scratch fs))
              | (CmdNoStart e, fs) \<Rightarrow>
                  (mr_conflicted e False, snd (copy_file H ours output (remove_scratch H scratch fs)))))"

definition sm_merge ::
  "merge_host \<Rightarrow> smart_merger \<Rightarrow> rpath \<Rightarrow> rpath \<Rightarrow> rpath \<Rightarrow> rpath \<Rightarrow> files \<Rightarrow> merge_result \<times> files" where
  "sm_merge H m base ours theirs output fs =
     (case mergiraf_path H fs m of
        Some bin \<Rightarrow>
          (case run_mergiraf H bin base ours theirs output fs of
             (result, fs) \<Rightarrow>
               if mr_used_mergiraf result \<or> \<not> sm_fallback_to_git m then (result, fs)
               else run_git_fallback H base ours theirs output fs)
      | None \<Rightarrow>
          if \<not> sm_fallback_to_git m
          then (mr_conflicted ''mergiraf unavailable and fallback disabled'' False, fs)
          else run_git_fallback H base ours theirs output fs)"

section \<open>Lemmas\<close>

definition lease_for :: "worktree_pool \<Rightarrow> string \<Rightarrow> worktree_lease" where
  "lease_for p s = \<lparr>wl_slot_id = s, wl_path = path_join (wp_pool_root p) s, wl_branch = slot_branch s\<rparr>"

definition pool_ok :: "worktree_pool \<Rightarrow> bool" where
  "pool_ok p \<longleftrightarrow> (\<forall>s l. wp_leases p s = Some l \<longrightarrow> l = lease_for p s)"

lemma live_lease_Some: "live_lease H p s w = Some l \<longleftrightarrow> wp_leases p s = Some l \<and> gh_is_dir H (wl_path l) w"
  by (auto simp: live_lease_def split: option.splits)

lemma pool_allocate_fresh:
  assumes "live_lease H p s w = None" and "pool_allocate H s p w = (res, p', w')"
  shows "isl res \<and> p' = p\<lparr>wp_leases := (wp_leases p)(s := None)\<rparr>
    \<or> res = Inr (lease_for p s) \<and> p' = p\<lparr>wp_leases := (wp_leases p)(s \<mapsto> lease_for p s)\<rparr>"
proof -
  define q where "q = p\<lparr>wp_leases := (wp_leases p)(s := None)\<rparr>"
  obtain c w1 where c: "clear_stale H q (path_join (wp_pool_root p) s) w = (c, w1)" by fastforce
  obtain e w2 where e: "ensure_branch H q (slot_branch s) w1 = (e, w2)" by fastforce
  obtain g w3 where g: "pool_git H (wp_repo_root p) [''worktree'', ''add'', path_join (wp_pool_root p) s, slot_branch s] w2 = (g, w3)" by fastforce
  have q: "wp_pool_root q = wp_pool_root p" "wp_repo_root q = wp_repo_root p" by (simp_all add: q_def)
  have "(res, p', w') = (case c of Some m \<Rightarrow> (Inl (PoolIo m), q, w1)
    | None \<Rightarrow> (case e of Inl m \<Rightarrow> (Inl m, q, w2)
      | Inr _ \<Rightarrow> (case g of Inl m \<Rightarrow> (Inl m, q, w3)
        | Inr _ \<Rightarrow> (Inr (lease_for p s), q\<lparr>wp_leases := (wp_leases q)(s \<mapsto> lease_for p s)\<rparr>, w3))))"
    unfolding assms(2) [symmetric] pool_allocate_def assms(1) q_def [symmetric] Let_def option.case q
    by (simp add: c e g lease_for_def split: option.split sum.split)
  then show ?thesis by (auto simp: q_def split: option.splits sum.splits)
qed

lemma pool_allocate_live: "live_lease H p s w = Some l \<Longrightarrow> pool_allocate H s p w = (Inr l, p, w)"
  by (simp add: pool_allocate_def)

lemma pool_git_error: "pool_git H cwd args w = (Inl e, w') \<Longrightarrow> \<exists>m. e = GitFailed m"
  by (auto simp: pool_git_def split: prod.splits git_answer.splits if_splits)

lemma pool_release_cases:
  assumes "pool_release H s p w = (res, p', w')"
  shows "p' = p\<lparr>wp_leases := (wp_leases p)(s := None)\<rparr> \<and> (res = Inl (NoAllocation t) \<longleftrightarrow> wp_leases p s = None \<and> t = s)"
proof (cases "wp_leases p s")
  case None
  then have "(wp_leases p)(s := None) = wp_leases p" by auto
  then show ?thesis using None assms by (auto simp: pool_release_def)
next
  case (Some l)
  then show ?thesis
    using assms by (auto simp: pool_release_def Let_def split: prod.splits option.splits sum.splits if_splits dest!: pool_git_error)
qed

text \<open>The variables that bind \<open>git\<close> to another repository do not reach it.\<close>

lemma git_env_clean: "v \<in> set GIT_LOCAL_ENV_VARS \<Longrightarrow> v \<notin> fst ` set (filter (\<lambda>(k, v). k \<notin> set GIT_LOCAL_ENV_VARS) env)"
  by auto

section \<open>Properties\<close>


text \<open>A host whose state is the set of checked out directories, with a \<open>git\<close> that adds and removes them.\<close>

definition demo_git :: "(string \<times> string) list \<Rightarrow> string \<Rightarrow> string list \<Rightarrow> string set \<Rightarrow> git_answer \<times> string set" where
  "demo_git env cwd args w =
     (if length args = 4 \<and> args ! 1 = ''add'' then (GitDone True [] [] [], insert (args ! 2) w)
      else if length args = 4 \<and> args ! 1 = ''remove'' then (GitDone False ''1'' [] ''not a worktree'', w)
      else (GitDone True [] [] [], w))"

definition demo_host :: "string set git_host" where
  "demo_host = \<lparr>gh_env = [], gh_git = demo_git, gh_exists = (\<lambda>p w. p \<in> w), gh_is_dir = (\<lambda>p w. p \<in> w),
     gh_create_dir_all = (\<lambda>p w. (None, w)), gh_remove_dir_all = (\<lambda>p w. (None, {q \<in> w. \<not> starts_with q p}))\<rparr>"

definition demo_pool :: worktree_pool where
  "demo_pool = \<lparr>wp_repo_root = ''/r'', wp_pool_root = ''/p'', wp_base_ref = ''HEAD'', wp_leases = Map.empty\<rparr>"

lemma demo_pool_ok: "pool_ok demo_pool"
  by (simp add: pool_ok_def demo_pool_def)




text \<open>
  In the fallback, \<open>git merge-file\<close> runs in the directory of the output, so an argument means the
  intended file exactly if it is absolute, lies in that directory, or that directory is the
  current one. For any other relative path another file is read.
\<close>

theorem merge_argument_intended_iff:
  assumes "rp_file_name path = Some n"
  shows "rp_resolve (rp_resolve here cwd) (path_arg_for_cwd path cwd) = rp_resolve here path
    \<longleftrightarrow> fst path \<or> rp_parent path = Some cwd \<or> rp_resolve here cwd = here"
proof -
  obtain a cs where p: "path = (a, cs)" by fastforce
  have cs: "cs \<noteq> []" "butlast cs @ [n] = cs" using assms by (auto simp: rp_file_name_def p split: if_splits)
  show ?thesis
  proof (cases "rp_parent path = Some cwd")
    case True
    then have "cwd = (a, butlast cs)" using cs by (simp add: rp_parent_def p)
    then show ?thesis using True cs assms by (auto simp: path_arg_for_cwd_def rp_resolve_def p)
  next
    case False
    then have "path_arg_for_cwd path cwd = path" by (simp add: path_arg_for_cwd_def)
    then show ?thesis using False by (auto simp: rp_resolve_def prod_eq_iff)
  qed
qed

theorem merge_argument_intended_iff_witness:
  "rp_resolve (rp_resolve (True, [''w'']) (False, [''out''])) (path_arg_for_cwd (False, [''in'', ''base'']) (False, [''out'']))
     \<noteq> rp_resolve (True, [''w'']) (False, [''in'', ''base''])"
  using merge_argument_intended_iff [of "(False, [''in'', ''base''])" "''base''" "(True, [''w''])" "(False, [''out''])"]
  by (simp add: rp_file_name_def rp_parent_def rp_resolve_def)

lemma scratch_name:
  assumes "rp_parent output = Some cwd"
  shows "rp_resolve (rp_resolve here cwd) (False, [case rp_file_name (scratch_path H output ours) of None \<Rightarrow> ''scratch'' | Some n \<Rightarrow> n])
    = rp_resolve here (scratch_path H output ours)"
  using assms by (auto simp: scratch_path_def Let_def rp_child_def rp_file_name_def rp_resolve_def)

lemma copy_file_only: "q \<noteq> rp_resolve (mh_cwd H) dst \<Longrightarrow> snd (copy_file H src dst fs) q = fs q"
  by (auto simp: copy_file_def split: option.splits)

lemma tempfile_only:
  assumes "tempfile_in_parent H output ours fs = (r, fs1)"
  shows "q \<noteq> rp_resolve (mh_cwd H) (scratch_path H output ours) \<Longrightarrow> fs1 q = fs q"
    and "r = Inr scratch \<Longrightarrow> scratch = scratch_path H output ours"
    and "isl r \<Longrightarrow> fs1 = fs"
  using assms by (auto simp: tempfile_in_parent_def copy_file_def Let_def split: option.splits prod.splits sum.splits)

text \<open>
  The fallback changes no file but its output, however the merge and the copies end: the inputs
  stay as they were and the scratch copy is gone, given that \<open>git merge-file\<close> writes only to the file
  it is given first, the name of the scratch copy was free, and its removal succeeds.
\<close>

theorem git_fallback_changes_output_only:
  assumes "\<forall>cwd a b c fs q. q \<noteq> rp_resolve (rp_resolve (mh_cwd H) cwd) a \<longrightarrow> snd (mh_merge_file H cwd a b c fs) q = fs q"
    and "fs (rp_resolve (mh_cwd H) (scratch_path H output ours)) = None" and "rp_parent output = Some cwd"
    and "q \<noteq> rp_resolve (mh_cwd H) output"
    and "\<not> mh_remove_fails H (rp_resolve (mh_cwd H) (scratch_path H output ours))"
  shows "snd (run_git_fallback H base ours theirs output fs) q = fs q"
proof -
  define scratch where "scratch = scratch_path H output ours"
  obtain r fs1 where t: "tempfile_in_parent H output ours fs = (r, fs1)" by fastforce
  show ?thesis
  proof (cases r)
    case (Inl e)
    then show ?thesis using t tempfile_only(3) [OF t] by (simp add: run_git_fallback_def)
  next
    case (Inr s)
    then have s: "s = scratch" using tempfile_only(2) [OF t] by (simp add: scratch_def)
    define name where "name = (False, [case rp_file_name scratch of None \<Rightarrow> ''scratch'' | Some n \<Rightarrow> n])"
    have at: "rp_resolve (rp_resolve (mh_cwd H) cwd) name = rp_resolve (mh_cwd H) scratch"
      unfolding name_def scratch_def by (rule scratch_name [OF assms(3)])
    obtain ans fs2 where m: "mh_merge_file H cwd name (path_arg_for_cwd base cwd) (path_arg_for_cwd theirs cwd) fs1 = (ans, fs2)" by fastforce
    have other: "fs2 q = fs q" if "q \<noteq> rp_resolve (mh_cwd H) scratch"
      using that assms(1) [rule_format, of q cwd name] tempfile_only(1) [OF t, of q] at m by (metis scratch_def snd_conv)
    have gone: "remove_scratch H scratch f q = fs q" if "q \<noteq> rp_resolve (mh_cwd H) scratch \<Longrightarrow> f q = fs q" for f
      using that assms(2,5) by (auto simp: remove_scratch_def scratch_def)
    show ?thesis
    proof (cases ans)
      case (CmdNoStart e)
      then show ?thesis
        using t Inr s m gone [of fs2] other copy_file_only [OF assms(4)]
        by (simp add: run_git_fallback_def assms(3) name_def Let_def)
    next
      case (CmdDone code out err)
      obtain r3 fs3 where c: "copy_file H scratch output fs2 = (r3, fs3)" by fastforce
      then have "fs3 q = fs2 q" using copy_file_only [OF assms(4), of scratch fs2] by simp
      then have "remove_scratch H scratch fs3 q = fs q" using gone [of fs3] other by simp
      then show ?thesis
        using t Inr s m CmdDone c by (cases r3) (simp_all add: run_git_fallback_def assms(3) name_def Let_def)
    qed
  qed
qed

definition demo_merge_host :: merge_host where
  "demo_merge_host = \<lparr>mh_cwd = (True, []), mh_path_dirs = None, mh_mergiraf = (\<lambda>_ _ _ _ _ fs. (CmdNoStart [], fs)),
     mh_merge_file = (\<lambda>cwd a b c fs. (CmdDone (Some 0) [] [], fs(rp_resolve (rp_resolve (True, []) cwd) a \<mapsto> ''merged''))),
     mh_mkdir_fails = (\<lambda>_. None), mh_write_fails = (\<lambda>_. None), mh_remove_fails = (\<lambda>_. False), mh_stamp = ''1''\<rparr>"

theorem git_fallback_changes_output_only_witness:
  "snd (run_git_fallback demo_merge_host (True, [''b'']) (True, [''o'']) (True, [''t'']) (True, [''out'']) [(True, [''o'']) \<mapsto> ''ours''])
     (True, [''o'']) = Some ''ours''"
  using git_fallback_changes_output_only [of demo_merge_host "[(True, [''o'']) \<mapsto> ''ours'']" "(True, [''out''])" "(True, [''o''])" "(True, [])" "(True, [''o''])"]
  by (simp add: demo_merge_host_def scratch_path_def rp_parent_def rp_resolve_def rp_child_def rp_file_name_def name_extension_def Let_def)

end
