(* ===== verification/ServeHttp.thy ===== *)
theory ServeHttp
  imports Resilience
begin

text \<open>
  The protection of the HTTP server: authentication (\<open>src/serve_auth.rs\<close>), the error envelope
  (\<open>src/error_envelope.rs\<close>), the request meters (\<open>src/http_red.rs\<close>), the three middlewares
  (\<open>src/commands/serve/middleware.rs\<close>) in the order in which \<open>src/commands/serve/run.rs\<close> stacks them, the
  embedded assets (\<open>src/dashboard_assets.rs\<close>) and the rotation of the audit log (\<open>src/audit_log.rs\<close>).
  Token decoding and signatures, the digest and the parser of key sets are parameters.
\<close>

unbundle bit_operations_syntax

section \<open>Authentication\<close>

datatype algorithm = RS256 | RS384 | RS512 | ES256 | ES384 | OtherAlgorithm string

datatype key_algorithm = KeyRS256 | KeyRS384 | KeyRS512 | KeyES256 | KeyES384 | OtherKeyAlgorithm string

datatype jwk_params = RsaParams string string | EcParams string string | OtherParams string

record jwk =
  jwk_kid :: "string option"
  jwk_alg :: "key_algorithm option"
  jwk_params :: jwk_params

datatype jwt_error = ExpiredSignature | InvalidIssuer | InvalidAudience | ImmatureSignature
  | InvalidSignature | OtherJwtError string

record validation =
  va_alg :: algorithm
  va_issuer :: string
  va_audience :: string
  va_leeway :: nat
  va_exp :: bool
  va_nbf :: bool

text \<open>The token library: \<open>'k\<close> is a key made for verification; a decoded token is its optional subject.\<close>

record 'k jwt_lib =
  jl_parse_jwks :: "string \<Rightarrow> string + jwk list"
  jl_rsa_key :: "string \<Rightarrow> string \<Rightarrow> string + 'k"
  jl_ec_key :: "string \<Rightarrow> string \<Rightarrow> string + 'k"
  jl_decode_header :: "string \<Rightarrow> string + (algorithm \<times> string option)"
  jl_decode :: "string \<Rightarrow> 'k \<Rightarrow> validation \<Rightarrow> jwt_error + string option"

record serve_jwt_config =
  jc_issuer :: string
  jc_audience :: string
  jc_jwks_path :: "string option"
  jc_jwks :: "string option"

record serve_config =
  sc_bearer_token :: "string option"
  sc_auth_mode :: "string option"
  sc_jwt :: "serve_jwt_config option"

record 'k jwt_validator =
  jv_issuer :: string
  jv_audience :: string
  jv_keys :: "(string option \<times> 'k \<times> algorithm) list"

datatype 'k auth_mode = Open | Bearer string | Jwt "'k jwt_validator"

definition filled :: "string option \<Rightarrow> string option" where
  "filled v = (case v of None \<Rightarrow> None | Some s \<Rightarrow> if s = [] then None else Some s)"

definition key_alg_to_algorithm :: "key_algorithm \<Rightarrow> string + algorithm" where
  "key_alg_to_algorithm ka =
     (case ka of
        KeyRS256 \<Rightarrow> Inr RS256 | KeyRS384 \<Rightarrow> Inr RS384 | KeyRS512 \<Rightarrow> Inr RS512
      | KeyES256 \<Rightarrow> Inr ES256 | KeyES384 \<Rightarrow> Inr ES384
      | OtherKeyAlgorithm other \<Rightarrow> Inl (''unsupported JWK alg '' @ other @ '' (HS*/PS* denied)''))"

definition supported_algorithm :: "algorithm \<Rightarrow> bool" where
  "supported_algorithm a = (case a of OtherAlgorithm _ \<Rightarrow> False | _ \<Rightarrow> True)"

text \<open>The environment is a function from names to the values that are set and valid text.\<close>

definition resolve_jwt_config :: "(string \<Rightarrow> string option) \<Rightarrow> serve_config \<Rightarrow> string + serve_jwt_config" where
  "resolve_jwt_config env serve =
     (case sc_jwt serve of
        None \<Rightarrow> Inl ''auth_mode=jwt requires [serve.jwt] with issuer, audience, and jwks_path or jwks''
      | Some jwt \<Rightarrow>
          let jwt = (case filled (env ''SHARECLI_SERVE_JWT_ISSUER'') of
                       Some iss \<Rightarrow> jwt\<lparr>jc_issuer := iss\<rparr> | None \<Rightarrow> jwt);
              jwt = (case filled (env ''SHARECLI_SERVE_JWT_AUDIENCE'') of
                       Some aud \<Rightarrow> jwt\<lparr>jc_audience := aud\<rparr> | None \<Rightarrow> jwt);
              jwt = (case filled (env ''SHARECLI_SERVE_JWKS_PATH'') of
                       Some path \<Rightarrow> jwt\<lparr>jc_jwks_path := Some path\<rparr> | None \<Rightarrow> jwt)
          in if jc_issuer jwt = [] \<or> jc_audience jwt = []
             then Inl ''serve.jwt requires non-empty issuer and audience''
             else if jc_jwks_path jwt = None \<and> filled (jc_jwks jwt) = None
             then Inl ''serve.jwt requires jwks_path or inline jwks''
             else Inr jwt)"

definition jwk_key :: "'k jwt_lib \<Rightarrow> jwk \<Rightarrow> string + (string option \<times> 'k \<times> algorithm)" where
  "jwk_key L k =
     (case (case jwk_params k of
              RsaParams n e \<Rightarrow>
                (case jl_rsa_key L n e of
                   Inl err \<Rightarrow> Inl (''RSA JWK decode failed: '' @ err) | Inr key \<Rightarrow> Inr (key, RS256))
            | EcParams x y \<Rightarrow>
                (case jl_ec_key L x y of
                   Inl err \<Rightarrow> Inl (''EC JWK decode failed: '' @ err) | Inr key \<Rightarrow> Inr (key, ES256))
            | OtherParams other \<Rightarrow>
                Inl (''unsupported JWK algorithm parameters '' @ other @ '' (HS* denied)'')) of
        Inl err \<Rightarrow> Inl err
      | Inr (key, default_alg) \<Rightarrow>
          (case (case jwk_alg k of Some ka \<Rightarrow> key_alg_to_algorithm ka | None \<Rightarrow> Inr default_alg) of
             Inl err \<Rightarrow> Inl err
           | Inr alg \<Rightarrow>
               if supported_algorithm alg then Inr (jwk_kid k, key, alg)
               else Inl (''unsupported alg '' @ (case alg of OtherAlgorithm a \<Rightarrow> a | _ \<Rightarrow> []))))"

fun jwk_keys :: "'k jwt_lib \<Rightarrow> jwk list \<Rightarrow> string + (string option \<times> 'k \<times> algorithm) list" where
  "jwk_keys L [] = Inr []"
| "jwk_keys L (k # ks) =
     (case jwk_key L k of
        Inl err \<Rightarrow> Inl err
      | Inr key \<Rightarrow> (case jwk_keys L ks of Inl err \<Rightarrow> Inl err | Inr keys \<Rightarrow> Inr (key # keys)))"

definition jv_from_config ::
  "'k jwt_lib \<Rightarrow> (string \<Rightarrow> string + string) \<Rightarrow> serve_jwt_config \<Rightarrow> string + 'k jwt_validator" where
  "jv_from_config L read_file cfg =
     (case (case filled (jc_jwks cfg) of
              Some inline \<Rightarrow> Inr inline
            | None \<Rightarrow>
                (case jc_jwks_path cfg of
                   Some path \<Rightarrow>
                     (case read_file path of
                        Inl e \<Rightarrow> Inl (''failed to read JWKS at '' @ path @ '': '' @ e) | Inr s \<Rightarrow> Inr s)
                 | None \<Rightarrow> Inl ''serve.jwt requires jwks_path or inline jwks'')) of
        Inl err \<Rightarrow> Inl err
      | Inr jwks_json \<Rightarrow>
          (case jl_parse_jwks L jwks_json of
             Inl e \<Rightarrow> Inl (''invalid JWKS JSON: '' @ e)
           | Inr jwks \<Rightarrow>
               if jwks = [] then Inl ''JWKS contains no keys''
               else
                 (case jwk_keys L jwks of
                    Inl err \<Rightarrow> Inl err
                  | Inr keys \<Rightarrow>
                      Inr \<lparr>jv_issuer = jc_issuer cfg, jv_audience = jc_audience cfg, jv_keys = keys\<rparr>)))"

definition jwt_mode ::
  "'k jwt_lib \<Rightarrow> (string \<Rightarrow> string + string) \<Rightarrow> (string \<Rightarrow> string option) \<Rightarrow> serve_config \<Rightarrow> string + 'k auth_mode" where
  "jwt_mode L read_file env serve =
     (case resolve_jwt_config env serve of
        Inl err \<Rightarrow> Inl err
      | Inr jwt \<Rightarrow> (case jv_from_config L read_file jwt of Inl err \<Rightarrow> Inl err | Inr v \<Rightarrow> Inr (Jwt v)))"

definition mode_hint :: "(string \<Rightarrow> string option) \<Rightarrow> serve_config \<Rightarrow> string option" where
  "mode_hint env serve =
     map_option (map ascii_lower)
       (case filled (env ''SHARECLI_SERVE_AUTH_MODE'') of Some s \<Rightarrow> Some s | None \<Rightarrow> sc_auth_mode serve)"

definition from_env_or_config ::
  "'k jwt_lib \<Rightarrow> (string \<Rightarrow> string + string) \<Rightarrow> (string \<Rightarrow> string option) \<Rightarrow> serve_config \<Rightarrow> string + 'k auth_mode" where
  "from_env_or_config L read_file env serve =
     (case filled (env ''SHARECLI_SERVE_TOKEN'') of
        Some token \<Rightarrow> Inr (Bearer token)
      | None \<Rightarrow>
          (let hint = mode_hint env serve
           in if hint = Some ''jwt'' then jwt_mode L read_file env serve
              else if hint = Some ''bearer''
              then (case filled (sc_bearer_token serve) of
                      Some token \<Rightarrow> Inr (Bearer token)
                    | None \<Rightarrow> Inl ''auth_mode=bearer requires serve.bearer_token or SHARECLI_SERVE_TOKEN'')
              else if hint = Some ''open'' \<or> hint = None
              then (case filled (sc_bearer_token serve) of
                      Some token \<Rightarrow> Inr (Bearer token)
                    | None \<Rightarrow>
                        if sc_jwt serve \<noteq> None \<and> hint = Some ''open'' then Inr Open
                        else if sc_jwt serve \<noteq> None \<and> hint = None then jwt_mode L read_file env serve
                        else Inr Open)
              else Inl (''unknown serve.auth_mode `'' @ the hint @ ''` (expected open|bearer|jwt)'')))"

definition from_env_or_token :: "(string \<Rightarrow> string option) \<Rightarrow> string option \<Rightarrow> 'k auth_mode" where
  "from_env_or_token env config_token =
     (case filled (env ''SHARECLI_SERVE_TOKEN'') of
        Some token \<Rightarrow> Bearer token
      | None \<Rightarrow> (case filled config_token of Some token \<Rightarrow> Bearer token | None \<Rightarrow> Open))"

definition auth_enabled :: "'k auth_mode \<Rightarrow> bool" where
  "auth_enabled m = (case m of Open \<Rightarrow> False | _ \<Rightarrow> True)"

definition mode_label :: "'k auth_mode \<Rightarrow> string" where
  "mode_label m = (case m of Open \<Rightarrow> ''open'' | Bearer _ \<Rightarrow> ''bearer'' | Jwt _ \<Rightarrow> ''jwt'')"

text \<open>Only keys of the algorithm of the token are tried, and of its key id if it names one.\<close>

definition key_matches :: "algorithm \<times> string option \<Rightarrow> string option \<times> 'k \<times> algorithm \<Rightarrow> bool" where
  "key_matches h k =
     (case (h, k) of ((halg, hkid), (kid, _, alg)) \<Rightarrow>
        halg = alg \<and>
        (case (hkid, kid) of (Some a, Some b) \<Rightarrow> a = b | (Some _, None) \<Rightarrow> False | (None, _) \<Rightarrow> True))"

definition map_jwt_error :: "jwt_error \<Rightarrow> string" where
  "map_jwt_error e =
     (case e of
        ExpiredSignature \<Rightarrow> ''jwt_expired'' | InvalidIssuer \<Rightarrow> ''jwt_invalid_iss''
      | InvalidAudience \<Rightarrow> ''jwt_invalid_aud'' | ImmatureSignature \<Rightarrow> ''jwt_nbf''
      | InvalidSignature \<Rightarrow> ''jwt_invalid_sig'' | OtherJwtError s \<Rightarrow> ''jwt_invalid:'' @ s)"

definition jv_validation :: "'k jwt_validator \<Rightarrow> algorithm \<Rightarrow> validation" where
  "jv_validation v alg =
     \<lparr>va_alg = alg, va_issuer = jv_issuer v, va_audience = jv_audience v, va_leeway = 60, va_exp = True, va_nbf = True\<rparr>"

fun try_keys ::
  "'k jwt_lib \<Rightarrow> 'k jwt_validator \<Rightarrow> string \<Rightarrow> string \<Rightarrow> (string option \<times> 'k \<times> algorithm) list \<Rightarrow> string + string" where
  "try_keys L v token last_err [] = Inl last_err"
| "try_keys L v token last_err ((kid, key, alg) # ks) =
     (case jl_decode L token key (jv_validation v alg) of
        Inr sub \<Rightarrow> Inr (case sub of Some s \<Rightarrow> s | None \<Rightarrow> ''unknown'')
      | Inl e \<Rightarrow> try_keys L v token (map_jwt_error e) ks)"

definition jv_validate :: "'k jwt_lib \<Rightarrow> 'k jwt_validator \<Rightarrow> string \<Rightarrow> string + string" where
  "jv_validate L v token =
     (case jl_decode_header L token of
        Inl e \<Rightarrow> Inl (''jwt_header:'' @ e)
      | Inr header \<Rightarrow>
          (let candidates = filter (key_matches header) (jv_keys v)
           in if candidates = [] then Inl ''jwt_no_matching_key''
              else try_keys L v token ''jwt_invalid'' candidates))"

definition tokens_equal :: "(string \<Rightarrow> string) \<Rightarrow> string \<Rightarrow> string \<Rightarrow> bool" where
  "tokens_equal sha256 a b \<longleftrightarrow> sha256 a = sha256 b"

definition strip_bearer :: "string \<Rightarrow> string option" where
  "strip_bearer raw =
     (if starts_with raw ''Bearer '' then Some (drop 7 raw)
      else if starts_with raw ''bearer '' then Some (drop 7 raw) else None)"

definition check_authorization ::
  "'k jwt_lib \<Rightarrow> (string \<Rightarrow> string) \<Rightarrow> 'k auth_mode \<Rightarrow> string option \<Rightarrow> string + string option" where
  "check_authorization L sha256 m header_val =
     (case m of
        Open \<Rightarrow> Inr None
      | Bearer token \<Rightarrow>
          (case header_val of
             None \<Rightarrow> Inl ''missing_authorization''
           | Some raw \<Rightarrow>
               (case strip_bearer raw of
                  None \<Rightarrow> Inl ''not_bearer''
                | Some provided \<Rightarrow>
                    if tokens_equal sha256 (str_trim provided) token then Inr None else Inl ''invalid_bearer''))
      | Jwt v \<Rightarrow>
          (case header_val of
             None \<Rightarrow> Inl ''missing_authorization''
           | Some raw \<Rightarrow>
               (case strip_bearer raw of
                  None \<Rightarrow> Inl ''not_bearer''
                | Some provided \<Rightarrow>
                    (case jv_validate L v (str_trim provided) of Inl e \<Rightarrow> Inl e | Inr sub \<Rightarrow> Inr (Some sub)))))"

definition check_bearer :: "'k jwt_lib \<Rightarrow> (string \<Rightarrow> string) \<Rightarrow> 'k auth_mode \<Rightarrow> string option \<Rightarrow> bool" where
  "check_bearer L sha256 m header_val \<longleftrightarrow> \<not> isl (check_authorization L sha256 m header_val)"

section \<open>Answers and meters\<close>

record error_body =
  eb_type :: string
  eb_code :: string
  eb_message :: string
  eb_request_id :: "string option"

definition envelope_new :: "string \<Rightarrow> string \<Rightarrow> string \<Rightarrow> error_body" where
  "envelope_new error_type code message =
     \<lparr>eb_type = error_type, eb_code = code, eb_message = message, eb_request_id = None\<rparr>"

definition envelope_authentication :: "string \<Rightarrow> string \<Rightarrow> error_body" where
  "envelope_authentication code message = envelope_new ''authentication_error'' code message"

definition envelope_unauthorized :: "string \<Rightarrow> error_body" where
  "envelope_unauthorized message = envelope_authentication ''unauthorized'' message"

definition envelope_rate_limited :: "string \<Rightarrow> error_body" where
  "envelope_rate_limited message = envelope_new ''rate_limit_error'' ''rate_limited'' message"

definition auth_failure_message :: "string \<Rightarrow> string" where
  "auth_failure_message reason =
     (if reason = ''missing_authorization'' then ''missing or invalid bearer token''
      else if reason = ''not_bearer'' then ''authorization header must use Bearer scheme''
      else if reason = ''invalid_bearer'' then ''invalid bearer token''
      else if reason = ''jwt_expired'' then ''jwt token expired''
      else if reason = ''jwt_invalid_iss'' then ''jwt issuer mismatch''
      else if reason = ''jwt_invalid_aud'' then ''jwt audience mismatch''
      else if reason = ''jwt_nbf'' then ''jwt not yet valid''
      else if reason = ''jwt_invalid_sig'' then ''jwt signature invalid''
      else if reason = ''jwt_no_matching_key'' then ''jwt signing key not found''
      else if starts_with reason ''jwt_header:'' then ''jwt header invalid''
      else if starts_with reason ''jwt_invalid:'' then ''jwt token invalid''
      else if starts_with reason ''jwt_'' then ''jwt token invalid''
      else ''missing or invalid bearer token'')"

datatype body = Envelope error_body | Payload string | NoBody

record http_request =
  rq_method :: string
  rq_path :: string
  rq_authorization :: "string option"
  rq_traceparent :: "string option"

record http_response =
  rs_status :: nat
  rs_headers :: "(string \<times> string) list"
  rs_body :: body

definition set_header :: "string \<Rightarrow> string \<Rightarrow> http_response \<Rightarrow> http_response" where
  "set_header name val r = r\<lparr>rs_headers := (name, val) # filter (\<lambda>(k, _). k \<noteq> name) (rs_headers r)\<rparr>"

record http_red =
  requests_total :: u64
  errors_total :: u64
  unauthorized_total :: u64
  duration_count :: u64
  duration_sum_ms :: u64
  bucket_le_5ms :: u64
  bucket_le_25ms :: u64
  bucket_le_100ms :: u64
  bucket_le_inf :: u64

definition red_record :: "nat \<Rightarrow> duration \<Rightarrow> http_red \<Rightarrow> http_red" where
  "red_record status elapsed m =
     (let m = m\<lparr>requests_total := requests_total m + 1\<rparr>;
          m = (if status \<ge> 500 then m\<lparr>errors_total := errors_total m + 1\<rparr> else m);
          m = (if status = 401 then m\<lparr>unauthorized_total := unauthorized_total m + 1\<rparr> else m);
          ms = (of_nat (as_millis elapsed) :: u64);
          m = m\<lparr>duration_count := duration_count m + 1, duration_sum_ms := duration_sum_ms m + ms,
                bucket_le_inf := bucket_le_inf m + 1\<rparr>;
          m = (if ms \<le> 5 then m\<lparr>bucket_le_5ms := bucket_le_5ms m + 1\<rparr> else m);
          m = (if ms \<le> 25 then m\<lparr>bucket_le_25ms := bucket_le_25ms m + 1\<rparr> else m)
      in if ms \<le> 100 then m\<lparr>bucket_le_100ms := bucket_le_100ms m + 1\<rparr> else m)"

datatype audit_event = AuthOk string string "string option" | AuthFail string string string

section \<open>The middlewares\<close>

text \<open>
  The shared state, with the clocks of the host and the process number. A handler maps a request and this state to the
  answer and the new state; a middleware takes the handler it wraps.
\<close>

record app_state =
  as_now :: instant
  as_rate_limit :: "serve_rate_limit option"
  as_red :: http_red
  as_extracted :: u64
  as_injected :: u64
  as_audit :: "audit_event list"
  as_nanos :: "128 word"
  as_pid :: u32

type_synonym handler = "http_request \<Rightarrow> app_state \<Rightarrow> http_response \<times> app_state"

definition URL_PREFIX :: string where
  "URL_PREFIX = ''/assets/dashboard/ui''"

definition is_dashboard_asset_path :: "string \<Rightarrow> bool" where
  "is_dashboard_asset_path path \<longleftrightarrow> starts_with path URL_PREFIX"

definition is_public_path :: "string \<Rightarrow> bool" where
  "is_public_path path \<longleftrightarrow> path = ''/healthz'' \<or> path = ''/readyz'' \<or> is_dashboard_asset_path path"

definition unauthorized_response :: "string \<Rightarrow> http_response" where
  "unauthorized_response reason =
     \<lparr>rs_status = 401, rs_headers = [(''www-authenticate'', ''Bearer'')],
      rs_body = Envelope (envelope_unauthorized (auth_failure_message reason))\<rparr>"

definition require_bearer :: "'k jwt_lib \<Rightarrow> (string \<Rightarrow> string) \<Rightarrow> 'k auth_mode \<Rightarrow> handler \<Rightarrow> handler" where
  "require_bearer L sha256 auth inner rq s =
     (if is_public_path (rq_path rq) \<or> \<not> auth_enabled auth then inner rq s
      else
        (case check_authorization L sha256 auth (rq_authorization rq) of
           Inr sub \<Rightarrow> inner rq (s\<lparr>as_audit := as_audit s @ [AuthOk (rq_path rq) (mode_label auth) sub]\<rparr>)
         | Inl reason \<Rightarrow>
             (unauthorized_response reason,
              s\<lparr>as_audit := as_audit s @ [AuthFail (rq_path rq) (mode_label auth) reason]\<rparr>)))"

definition serve_rate_limit_middleware :: "handler \<Rightarrow> handler" where
  "serve_rate_limit_middleware inner rq s =
     (if is_probe_path (rq_path rq) then inner rq s
      else
        (let (denied, s) =
               (case as_rate_limit s of
                  Some lim \<Rightarrow> (case srl_try_acquire (as_now s) lim of (ok, lim) \<Rightarrow> (\<not> ok, s\<lparr>as_rate_limit := Some lim\<rparr>))
                | None \<Rightarrow> (False, s))
         in if denied
            then (set_header ''retry-after''
                    (show_nat (case as_rate_limit s of Some lim \<Rightarrow> srl_retry_after_secs (as_now s) lim | None \<Rightarrow> 1))
                    \<lparr>rs_status = 429, rs_headers = [],
                     rs_body = Envelope (envelope_rate_limited ''HTTP rate limit exceeded; retry later'')\<rparr>, s)
            else inner rq s))"

text \<open>The trace context made up for a client that sent none is a function of the clock and the process.\<close>

definition pad_hex :: "nat \<Rightarrow> nat \<Rightarrow> string" where
  "pad_hex w n = replicate (w - length (show_hex n)) (CHR ''0'') @ show_hex n"

definition synthesize_traceparent :: "128 word \<Rightarrow> u32 \<Rightarrow> string" where
  "synthesize_traceparent nanos pid =
     (let trace_id = pad_hex 32 (unat (nanos XOR push_bit 64 (ucast pid)));
          span_id = pad_hex 16 (unat ((ucast nanos :: u64) XOR ucast pid))
      in ''00-'' @ trace_id @ ''-'' @ span_id @ ''-01'')"

definition http_observability_middleware :: "handler \<Rightarrow> handler" where
  "http_observability_middleware inner rq s =
     (let start = as_now s;
          s = (if rq_traceparent rq \<noteq> None then s\<lparr>as_extracted := as_extracted s + 1\<rparr> else s);
          (response, s) = inner rq s;
          s = s\<lparr>as_red := red_record (rs_status response) (nat (as_now s - start)) (as_red s)\<rparr>;
          outgoing = (case rq_traceparent rq of Some t \<Rightarrow> t | None \<Rightarrow> synthesize_traceparent (as_nanos s) (as_pid s));
          s = s\<lparr>as_injected := as_injected s + 1\<rparr>
      in (set_header ''traceparent'' outgoing response, s))"

text \<open>
  A layer added to the router wraps the layers added before it: the last one, authentication, is the
  outermost.
\<close>

definition serve_app :: "'k jwt_lib \<Rightarrow> (string \<Rightarrow> string) \<Rightarrow> 'k auth_mode \<Rightarrow> handler \<Rightarrow> handler" where
  "serve_app L sha256 auth routes =
     require_bearer L sha256 auth (serve_rate_limit_middleware (http_observability_middleware routes))"

fun serve_requests :: "handler \<Rightarrow> http_request list \<Rightarrow> app_state \<Rightarrow> http_response list \<times> app_state" where
  "serve_requests app [] s = ([], s)"
| "serve_requests app (rq # rqs) s =
     (let (r, s) = app rq s; (rs, s) = serve_requests app rqs s in (r # rs, s))"

section \<open>Embedded assets\<close>

text \<open>The files are built into the program; their bytes are an argument.\<close>

definition ASSETS :: "(string \<times> string) list" where
  "ASSETS =
     [(''favicons/phenotype.ico'', ''image/x-icon''), (''favicons/phenotype_16.png'', ''image/png''),
      (''favicons/phenotype_32.png'', ''image/png''), (''favicons/phenotype_64.png'', ''image/png''),
      (''favicons/phenotype_128.png'', ''image/png''), (''banners/dashboard_1280x320.png'', ''image/png''),
      (''empty-states/no-data.svg'', ''image/svg+xml''), (''empty-states/no-data.png'', ''image/png''),
      (''empty-states/no-results.svg'', ''image/svg+xml''), (''empty-states/no-results.png'', ''image/png''),
      (''empty-states/error.svg'', ''image/svg+xml''), (''empty-states/error.png'', ''image/png''),
      (''error-states/disconnect.svg'', ''image/svg+xml''), (''icons/phenotype_icon.png'', ''image/png''),
      (''dashboard.js'', ''application/javascript'')]"

definition asset_serve :: "(string \<Rightarrow> string) \<Rightarrow> string \<Rightarrow> http_response" where
  "asset_serve bytes path =
     (let name = dropWhile (\<lambda>c. c = CHR ''/'') path
      in case map_of ASSETS name of
           None \<Rightarrow> \<lparr>rs_status = 404, rs_headers = [], rs_body = NoBody\<rparr>
         | Some ct \<Rightarrow> set_header ''content-type'' ct \<lparr>rs_status = 200, rs_headers = [], rs_body = Payload (bytes name)\<rparr>)"

section \<open>The audit log\<close>

text \<open>
  Files by their path. Each operation may fail: creating the directory, reading the size, removing,
  renaming, opening, and writing, of which a part may have reached the file.
\<close>

record audit_faults =
  au_mkdir_fails :: bool
  au_stat_fails :: bool
  au_remove_fails :: bool
  au_rename_fails :: "string \<Rightarrow> bool"
  au_open_fails :: bool
  au_written :: "nat option"

type_synonym log_files = "string \<rightharpoonup> string"

definition DEFAULT_MAX_BYTES :: nat where
  "DEFAULT_MAX_BYTES = 10 * 1024 * 1024"

definition DEFAULT_RETAIN :: nat where
  "DEFAULT_RETAIN = 5"

definition positive_env :: "string option \<Rightarrow> nat \<Rightarrow> nat" where
  "positive_env v dflt =
     (case v of
        None \<Rightarrow> dflt
      | Some s \<Rightarrow> (case parse_uint (2 ^ 64) s of Some n \<Rightarrow> if n > 0 then n else dflt | None \<Rightarrow> dflt))"

definition max_bytes :: "(string \<Rightarrow> string option) \<Rightarrow> nat" where
  "max_bytes env = positive_env (env ''SHARECLI_AUDIT_MAX_BYTES'') DEFAULT_MAX_BYTES"

definition retain_count :: "(string \<Rightarrow> string option) \<Rightarrow> nat" where
  "retain_count env = positive_env (env ''SHARECLI_AUDIT_RETAIN'') DEFAULT_RETAIN"

definition rotation_path :: "string \<Rightarrow> nat \<Rightarrow> string" where
  "rotation_path path index = path @ ''.'' @ show_nat index"

definition try_rename :: "audit_faults \<Rightarrow> string \<Rightarrow> string \<Rightarrow> log_files \<Rightarrow> log_files" where
  "try_rename F a b fs =
     (case fs a of None \<Rightarrow> fs | Some c \<Rightarrow> if au_rename_fails F a then fs else (fs(a := None))(b \<mapsto> c))"

fun shift_files :: "audit_faults \<Rightarrow> string \<Rightarrow> nat \<Rightarrow> log_files \<Rightarrow> log_files" where
  "shift_files F path 0 fs = fs"
| "shift_files F path (Suc i) fs =
     shift_files F path i (try_rename F (rotation_path path (Suc i)) (rotation_path path (Suc i + 1)) fs)"

definition rotate_if_needed :: "audit_faults \<Rightarrow> nat \<Rightarrow> nat \<Rightarrow> string \<Rightarrow> log_files \<Rightarrow> log_files" where
  "rotate_if_needed F mx retain path fs =
     (case fs path of
        None \<Rightarrow> fs
      | Some c \<Rightarrow>
          if au_stat_fails F \<or> length c < mx then fs
          else
            (let oldest = rotation_path path retain;
                 fs = (if au_remove_fails F then fs else fs(oldest := None));
                 fs = shift_files F path (retain - 1) fs
             in try_rename F path (rotation_path path 1) fs))"

text \<open>A field of the caller replaces a standard one of the same name; values are serialised text.\<close>

definition audit_record :: "string \<Rightarrow> string \<Rightarrow> (string \<times> string) list \<Rightarrow> (string \<rightharpoonup> string)" where
  "audit_record ts event fs =
     foldl (\<lambda>m (k, v). m(k \<mapsto> v)) [''ts'' \<mapsto> ts, ''event'' \<mapsto> event, ''service'' \<mapsto> ''sharecli''] fs"

definition emit_line :: "audit_faults \<Rightarrow> (string \<Rightarrow> string option) \<Rightarrow> string \<Rightarrow> string \<Rightarrow> log_files \<Rightarrow> log_files" where
  "emit_line F env path line fs =
     (let fs = rotate_if_needed F (max_bytes env) (retain_count env) path fs;
          old = (case fs path of None \<Rightarrow> [] | Some c \<Rightarrow> c);
          text = line @ [CHR 0x0A]
      in if au_open_fails F then fs
         else fs(path \<mapsto> old @ (case au_written F of None \<Rightarrow> text | Some n \<Rightarrow> take n text)))"

definition emit_to ::
  "((string \<rightharpoonup> string) \<Rightarrow> string + string) \<Rightarrow> audit_faults \<Rightarrow> (string \<Rightarrow> string option) \<Rightarrow> string \<Rightarrow> string \<Rightarrow> string
     \<Rightarrow> (string \<times> string) list \<Rightarrow> log_files \<Rightarrow> log_files" where
  "emit_to to_json F env path ts event fields' fs =
     (if au_mkdir_fails F then fs
      else (case to_json (audit_record ts event fields') of
              Inl e \<Rightarrow> fs
            | Inr line \<Rightarrow> emit_line F env path line fs))"

definition is_configured :: "(string \<Rightarrow> string option) \<Rightarrow> bool" where
  "is_configured env \<longleftrightarrow> filled (env ''SHARECLI_AUDIT_LOG'') \<noteq> None"

section \<open>Authorization\<close>

lemma filled_Some [simp]: "filled v = Some s \<longleftrightarrow> v = Some s \<and> s \<noteq> []"
  by (auto simp: filled_def split: option.splits)

lemma strip_bearer_Some: "strip_bearer raw = Some p \<longleftrightarrow> raw = ''Bearer '' @ p \<or> raw = ''bearer '' @ p"
  by (auto simp: strip_bearer_def starts_with_iff)

definition accepted_by :: "'k jwt_lib \<Rightarrow> 'k jwt_validator \<Rightarrow> string \<Rightarrow> (string option \<times> 'k \<times> algorithm) list \<Rightarrow> string \<Rightarrow> bool" where
  "accepted_by L v token ks sub \<longleftrightarrow>
     (\<exists>as kid key alg bs s. ks = as @ (kid, key, alg) # bs
        \<and> list_all (\<lambda>(_, k, a). isl (jl_decode L token k (jv_validation v a))) as
        \<and> jl_decode L token key (jv_validation v alg) = Inr s
        \<and> sub = (case s of Some n \<Rightarrow> n | None \<Rightarrow> ''unknown''))"

lemma accepted_by_Nil [simp]: "\<not> accepted_by L v token [] sub"
  by (simp add: accepted_by_def)

lemma accepted_by_fail:
  assumes "jl_decode L token key (jv_validation v alg) = Inl e"
  shows "accepted_by L v token ((kid, key, alg) # ks) sub \<longleftrightarrow> accepted_by L v token ks sub"
proof
  assume "accepted_by L v token ((kid, key, alg) # ks) sub"
  then obtain as kid' key' alg' bs s where *: "(kid, key, alg) # ks = as @ (kid', key', alg') # bs"
    "list_all (\<lambda>(_, k, a). isl (jl_decode L token k (jv_validation v a))) as"
    "jl_decode L token key' (jv_validation v alg') = Inr s" "sub = (case s of Some n \<Rightarrow> n | None \<Rightarrow> ''unknown'')"
    unfolding accepted_by_def by blast
  then obtain x xs where as: "as = x # xs" using assms by (cases as) auto
  show "accepted_by L v token ks sub"
    unfolding accepted_by_def using * as
    by (intro exI [of _ xs] exI [of _ kid'] exI [of _ key'] exI [of _ alg'] exI [of _ bs] exI [of _ s]) simp
next
  assume "accepted_by L v token ks sub"
  then obtain as kid' key' alg' bs s where *: "ks = as @ (kid', key', alg') # bs"
    "list_all (\<lambda>(_, k, a). isl (jl_decode L token k (jv_validation v a))) as"
    "jl_decode L token key' (jv_validation v alg') = Inr s" "sub = (case s of Some n \<Rightarrow> n | None \<Rightarrow> ''unknown'')"
    unfolding accepted_by_def by blast
  show "accepted_by L v token ((kid, key, alg) # ks) sub"
    unfolding accepted_by_def using * assms
    by (intro exI [of _ "(kid, key, alg) # as"] exI [of _ kid'] exI [of _ key'] exI [of _ alg'] exI [of _ bs] exI [of _ s]) simp
qed

lemma accepted_by_ok:
  assumes "jl_decode L token key (jv_validation v alg) = Inr s"
  shows "accepted_by L v token ((kid, key, alg) # ks) sub \<longleftrightarrow> sub = (case s of Some n \<Rightarrow> n | None \<Rightarrow> ''unknown'')"
proof
  assume "accepted_by L v token ((kid, key, alg) # ks) sub"
  then obtain as kid' key' alg' bs s' where *: "(kid, key, alg) # ks = as @ (kid', key', alg') # bs"
    "list_all (\<lambda>(_, k, a). isl (jl_decode L token k (jv_validation v a))) as"
    "jl_decode L token key' (jv_validation v alg') = Inr s'" "sub = (case s' of Some n \<Rightarrow> n | None \<Rightarrow> ''unknown'')"
    unfolding accepted_by_def by blast
  then have "as = []" using assms by (cases as) auto
  with * assms show "sub = (case s of Some n \<Rightarrow> n | None \<Rightarrow> ''unknown'')" by simp
next
  assume "sub = (case s of Some n \<Rightarrow> n | None \<Rightarrow> ''unknown'')"
  then show "accepted_by L v token ((kid, key, alg) # ks) sub"
    unfolding accepted_by_def using assms
    by (intro exI [of _ "[]"] exI [of _ kid] exI [of _ key] exI [of _ alg] exI [of _ ks] exI [of _ s]) simp
qed

lemma try_keys_Inr: "try_keys L v token e ks = Inr sub \<longleftrightarrow> accepted_by L v token ks sub"
proof (induction ks arbitrary: e)
  case (Cons k ks)
  obtain kid key alg where k: "k = (kid, key, alg)" by (cases k)
  show ?case
    by (cases "jl_decode L token key (jv_validation v alg)")
      (auto simp: k Cons.IH accepted_by_fail accepted_by_ok)
qed simp

lemma jv_validate_Inr:
  "jv_validate L v token = Inr sub \<longleftrightarrow>
     (\<exists>hd. jl_decode_header L token = Inr hd \<and> accepted_by L v token (filter (key_matches hd) (jv_keys v)) sub)"
  by (cases "jl_decode_header L token") (auto simp: jv_validate_def Let_def try_keys_Inr)

lemma jwk_key_supported: "jwk_key L k = Inr (kid, key, alg) \<Longrightarrow> supported_algorithm alg"
  unfolding jwk_key_def by (simp split: sum.splits prod.splits if_splits)

lemma jwk_keys_supported:
  "jwk_keys L ks = Inr keys \<Longrightarrow> length keys = length ks \<and> list_all (\<lambda>(_, _, alg). supported_algorithm alg) keys"
proof (induction ks arbitrary: keys)
  case (Cons k ks)
  from Cons.prems obtain key rest where k: "jwk_key L k = Inr key" "jwk_keys L ks = Inr rest" "keys = key # rest"
    by (auto split: sum.splits)
  have "case key of (_, _, alg) \<Rightarrow> supported_algorithm alg"
    using k(1) jwk_key_supported [of L k] by (cases key) simp
  with k Cons.IH [OF k(2)] show ?case by simp
qed simp

lemma jwt_mode_Inr:
  assumes "jwt_mode L read_file env serve = Inr m"
  shows "\<exists>v. m = Jwt v \<and> jv_issuer v \<noteq> [] \<and> jv_audience v \<noteq> [] \<and> jv_keys v \<noteq> []
    \<and> list_all (\<lambda>(_, _, alg). supported_algorithm alg) (jv_keys v)"
proof -
  from assms obtain jwt v where r: "resolve_jwt_config env serve = Inr jwt" and v: "jv_from_config L read_file jwt = Inr v"
    and m: "m = Jwt v" by (auto simp: jwt_mode_def split: sum.splits)
  have "jc_issuer jwt \<noteq> [] \<and> jc_audience jwt \<noteq> []"
    using r by (auto simp: resolve_jwt_config_def Let_def split: option.splits if_splits)
  moreover from v obtain ks keys where "ks \<noteq> []" "jwk_keys L ks = Inr keys"
    "v = \<lparr>jv_issuer = jc_issuer jwt, jv_audience = jc_audience jwt, jv_keys = keys\<rparr>"
    by (auto simp: jv_from_config_def split: sum.splits if_splits)
  ultimately show ?thesis using m jwk_keys_supported [of L ks keys] by auto
qed

lemma mode_cases:
  assumes "(if a then J else if b then (case tok of Some t \<Rightarrow> Inr (Bearer t) | None \<Rightarrow> Inl x)
      else if c \<or> d then (case tok of Some t \<Rightarrow> Inr (Bearer t)
          | None \<Rightarrow> if e \<noteq> None \<and> c then Inr Open else if e \<noteq> None \<and> d then J else Inr Open)
      else Inl y) = Inr m"
  shows "J = Inr m \<and> (a \<or> d \<and> e \<noteq> None) \<or> (\<exists>t. tok = Some t \<and> m = Bearer t) \<or> tok = None \<and> m = Open \<and> (c \<or> d \<and> e = None)"
  using assms by (cases tok; cases a; cases b; cases c; cases d; cases e) auto

section \<open>The stack\<close>

definition rejected :: "'k jwt_lib \<Rightarrow> (string \<Rightarrow> string) \<Rightarrow> 'k auth_mode \<Rightarrow> http_request \<Rightarrow> bool" where
  "rejected L sha256 auth rq \<longleftrightarrow>
     \<not> is_public_path (rq_path rq) \<and> isl (check_authorization L sha256 auth (rq_authorization rq))"

lemma serve_app_rejected:
  assumes "rejected L sha256 auth rq"
  shows "serve_app L sha256 auth routes rq s =
    (unauthorized_response (projl (check_authorization L sha256 auth (rq_authorization rq))),
     s\<lparr>as_audit := as_audit s @ [AuthFail (rq_path rq) (mode_label auth) (projl (check_authorization L sha256 auth (rq_authorization rq)))]\<rparr>)"
proof -
  have "auth_enabled auth"
    using assms by (auto simp: rejected_def auth_enabled_def check_authorization_def split: auth_mode.splits)
  then show ?thesis
    using assms by (auto simp: rejected_def serve_app_def require_bearer_def split: sum.splits)
qed

lemma serve_app_passed:
  assumes "\<not> rejected L sha256 auth rq"
  shows "\<exists>ev. serve_app L sha256 auth routes rq s =
    serve_rate_limit_middleware (http_observability_middleware routes) rq (s\<lparr>as_audit := as_audit s @ ev\<rparr>)"
proof (cases "is_public_path (rq_path rq) \<or> \<not> auth_enabled auth")
  case True
  then show ?thesis by (auto simp: serve_app_def require_bearer_def intro!: exI [of _ "[]"])
next
  case False
  with assms obtain sub where "check_authorization L sha256 auth (rq_authorization rq) = Inr sub"
    by (cases "check_authorization L sha256 auth (rq_authorization rq)") (auto simp: rejected_def)
  with False show ?thesis by (auto simp: serve_app_def require_bearer_def)
qed

lemma status_set_header [simp]: "rs_status (set_header n v r) = rs_status r"
  by (simp add: set_header_def)

lemma red_record_unauthorized: "status \<noteq> 401 \<Longrightarrow> unauthorized_total (red_record status d m) = unauthorized_total m"
  by (simp add: red_record_def Let_def)

lemma rate_limit_keeps_unauthorized:
  assumes "\<forall>rq s. rs_status (fst (inner rq s)) \<noteq> 401 \<and> unauthorized_total (as_red (snd (inner rq s))) = unauthorized_total (as_red s)"
  shows "rs_status (fst (serve_rate_limit_middleware inner rq s)) \<noteq> 401
    \<and> unauthorized_total (as_red (snd (serve_rate_limit_middleware inner rq s))) = unauthorized_total (as_red s)"
  using assms by (auto simp: serve_rate_limit_middleware_def Let_def split: option.split prod.split)

lemma observability_keeps_unauthorized:
  assumes "\<forall>rq s. rs_status (fst (inner rq s)) \<noteq> 401 \<and> unauthorized_total (as_red (snd (inner rq s))) = unauthorized_total (as_red s)"
  shows "rs_status (fst (http_observability_middleware inner rq s)) \<noteq> 401
    \<and> unauthorized_total (as_red (snd (http_observability_middleware inner rq s))) = unauthorized_total (as_red s)"
proof -
  define s1 where "s1 = (if rq_traceparent rq \<noteq> None then s\<lparr>as_extracted := as_extracted s + 1\<rparr> else s)"
  obtain r s2 where i: "inner rq s1 = (r, s2)" by fastforce
  have "rs_status r \<noteq> 401" "unauthorized_total (as_red s2) = unauthorized_total (as_red s)"
    using assms [rule_format, of rq s1] i by (auto simp: s1_def)
  then show ?thesis
    using i by (cases "rq_traceparent rq") (simp_all add: http_observability_middleware_def Let_def s1_def red_record_unauthorized)
qed

section \<open>Rotation\<close>

lemma rotation_path_inj [simp]: "rotation_path path i = rotation_path path j \<longleftrightarrow> i = j"
  using show_nat_inj by (auto simp: rotation_path_def inj_on_def)

lemma rotation_path_other [simp]: "rotation_path path i \<noteq> path" "path \<noteq> rotation_path path i"
  by (auto simp: rotation_path_def)

definition no_audit_faults :: audit_faults where
  "no_audit_faults = \<lparr>au_mkdir_fails = False, au_stat_fails = False, au_remove_fails = False,
     au_rename_fails = (\<lambda>_. False), au_open_fails = False, au_written = None\<rparr>"

lemma try_rename_no_faults: "fs b = None \<or> fs a \<noteq> None \<Longrightarrow> a \<noteq> b \<Longrightarrow> try_rename no_audit_faults a b fs = (fs(a := None))(b := fs a)"
  by (auto simp: try_rename_def no_audit_faults_def split: option.split)

lemma shift_files_no_faults:
  assumes "fs (rotation_path path (Suc n)) = None"
  shows "shift_files no_audit_faults path n fs (rotation_path path 1) = None"
    and "1 \<le> j \<Longrightarrow> j \<le> n \<Longrightarrow> shift_files no_audit_faults path n fs (rotation_path path (Suc j)) = fs (rotation_path path j)"
    and "\<forall>j. 1 \<le> j \<and> j \<le> Suc n \<longrightarrow> p \<noteq> rotation_path path j \<Longrightarrow> shift_files no_audit_faults path n fs p = fs p"
proof -
  have "shift_files no_audit_faults path n fs (rotation_path path 1) = None
    \<and> (\<forall>j. 1 \<le> j \<and> j \<le> n \<longrightarrow> shift_files no_audit_faults path n fs (rotation_path path (Suc j)) = fs (rotation_path path j))
    \<and> (\<forall>p. (\<forall>j. 1 \<le> j \<and> j \<le> Suc n \<longrightarrow> p \<noteq> rotation_path path j) \<longrightarrow> shift_files no_audit_faults path n fs p = fs p)"
    using assms
  proof (induction n arbitrary: fs)
    case (Suc n)
    define fs1 where "fs1 = (fs(rotation_path path (Suc n) := None))(rotation_path path (Suc (Suc n)) := fs (rotation_path path (Suc n)))"
    have s: "shift_files no_audit_faults path (Suc n) fs = shift_files no_audit_faults path n fs1"
      using Suc.prems by (simp add: try_rename_no_faults fs1_def)
    have n: "fs1 (rotation_path path (Suc n)) = None" by (simp add: fs1_def)
    have f1: "fs1 (rotation_path path (Suc (Suc n))) = fs (rotation_path path (Suc n))" by (simp add: fs1_def)
    have f2: "fs1 (rotation_path path j) = fs (rotation_path path j)" if "j \<le> n" for j
      using that by (simp add: fs1_def)
    note IH = Suc.IH [of fs1, OF n]
    note IH3 = IH [THEN conjunct2, THEN conjunct2, rule_format]
    have top: "shift_files no_audit_faults path n fs1 (rotation_path path (Suc (Suc n))) = fs (rotation_path path (Suc n))"
      by (subst IH3) (simp_all add: f1)
    have low: "shift_files no_audit_faults path n fs1 (rotation_path path (Suc j)) = fs (rotation_path path j)"
      if "1 \<le> j" "j \<le> n" for j
      using IH that f2 by simp
    have rest: "shift_files no_audit_faults path n fs1 q = fs q"
      if "\<forall>j. 1 \<le> j \<and> j \<le> Suc (Suc n) \<longrightarrow> q \<noteq> rotation_path path j" for q
    proof -
      have "shift_files no_audit_faults path n fs1 q = fs1 q" by (rule IH3) (use that in simp)
      also have "\<dots> = fs q" using that [rule_format, of "Suc n"] that [rule_format, of "Suc (Suc n)"] by (simp add: fs1_def)
      finally show ?thesis .
    qed
    show ?case
      unfolding s using IH top low rest by (metis le_Suc_eq)
  qed simp
  then show "shift_files no_audit_faults path n fs (rotation_path path 1) = None"
    and "1 \<le> j \<Longrightarrow> j \<le> n \<Longrightarrow> shift_files no_audit_faults path n fs (rotation_path path (Suc j)) = fs (rotation_path path j)"
    and "\<forall>j. 1 \<le> j \<and> j \<le> Suc n \<longrightarrow> p \<noteq> rotation_path path j \<Longrightarrow> shift_files no_audit_faults path n fs p = fs p"
    by blast+
qed

text \<open>The rotated files as a list, the newest first.\<close>

definition rotated :: "string \<Rightarrow> log_files \<Rightarrow> string list \<Rightarrow> bool" where
  "rotated path fs rots \<longleftrightarrow> (\<forall>i. fs (rotation_path path (Suc i)) = (if i < length rots then Some (rots ! i) else None))"

lemma rotate_no_faults:
  assumes "rotated path fs rots" "length rots \<le> retain" "0 < retain" "fs path = Some c" "mx \<le> length c"
  shows "rotate_if_needed no_audit_faults mx retain path fs path = None"
    and "rotated path (rotate_if_needed no_audit_faults mx retain path fs) (take retain (c # rots))"
proof -
  obtain n where n: "retain = Suc n" using assms(3) gr0_implies_Suc by blast
  define fs1 where "fs1 = fs(rotation_path path retain := None)"
  define fs2 where "fs2 = shift_files no_audit_faults path n fs1"
  have none: "fs1 (rotation_path path (Suc n)) = None" by (simp add: fs1_def n)
  note sh = shift_files_no_faults [of fs1 path n, OF none, folded fs2_def]
  have p: "fs2 path = Some c" using sh(3) [of path] assms(4) by (simp add: fs1_def)
  have r: "rotate_if_needed no_audit_faults mx retain path fs = (fs2(path := None))(rotation_path path 1 := Some c)"
    using assms(4,5) p sh(1) try_rename_no_faults [of fs2 "rotation_path path 1" path]
    by (simp add: rotate_if_needed_def Let_def fs1_def [symmetric] fs2_def [symmetric] n)
      (simp add: no_audit_faults_def fs1_def fs2_def n)
  show "rotate_if_needed no_audit_faults mx retain path fs path = None" by (simp add: r)
  have old: "fs (rotation_path path (Suc i)) = (if i < length rots then Some (rots ! i) else None)" for i
    using assms(1) by (simp add: rotated_def)
  show "rotated path (rotate_if_needed no_audit_faults mx retain path fs) (take retain (c # rots))"
    unfolding rotated_def r
  proof
    fix i
    show "((fs2(path := None))(rotation_path path 1 := Some c)) (rotation_path path (Suc i)) =
      (if i < length (take retain (c # rots)) then Some (take retain (c # rots) ! i) else None)"
    proof (cases "i = 0")
      case False
      then obtain k where k: "i = Suc k" using not0_implies_Suc by blast
      have "fs2 (rotation_path path (Suc i)) = (if i \<le> n then fs (rotation_path path i) else fs (rotation_path path (Suc i)))"
        using sh(2) [of i] sh(3) [of "rotation_path path (Suc i)"] k by (auto simp: fs1_def n)
      also have "\<dots> = (if i < length (take retain (c # rots)) then Some (take retain (c # rots) ! i) else None)"
        using assms(2) by (auto simp: k old n)
      finally show ?thesis using False by simp
    qed (simp add: n)
  qed
qed

lemma positive_env_pos: "0 < d \<Longrightarrow> 0 < positive_env v d"
  by (auto simp: positive_env_def split: option.splits)

lemma limits_pos: "0 < max_bytes env" "0 < retain_count env"
  by (simp_all add: max_bytes_def retain_count_def positive_env_pos DEFAULT_MAX_BYTES_def DEFAULT_RETAIN_def)

text \<open>What the files hold of a text that was written: the rotated files, the active one, and what was dropped.\<close>

definition retained :: "nat \<Rightarrow> nat \<Rightarrow> nat \<Rightarrow> string \<Rightarrow> string \<Rightarrow> log_files \<Rightarrow> bool" where
  "retained mx retain k path whole fs \<longleftrightarrow>
     (\<exists>rots active dropped. whole = dropped @ concat (rev rots) @ active
        \<and> fs path = (if whole = [] then None else Some active) \<and> rotated path fs rots
        \<and> length rots \<le> retain \<and> (dropped = [] \<or> length rots = retain)
        \<and> list_all (\<lambda>f. mx \<le> length f \<and> length f < mx + k) rots \<and> length active < mx + k)"

lemma concat_rev_take:
  assumes "length rots \<le> n"
  shows "\<exists>d. concat (rev (c # rots)) = d @ concat (rev (take n (c # rots))) \<and> (d = [] \<or> length (take n (c # rots)) = n)"
proof -
  have "concat (rev (c # rots)) = concat (rev (drop n (c # rots))) @ concat (rev (take n (c # rots)))"
    by (metis append_take_drop_id concat_append rev_append)
  then show ?thesis using assms by (cases "length rots = n") auto
qed

lemma retained_emit:
  assumes r: "retained (max_bytes env) (retain_count env) k path whole fs" and k: "length line < k"
  shows "retained (max_bytes env) (retain_count env) k path (whole @ line @ [CHR 0x0A]) (emit_line no_audit_faults env path line fs)"
proof -
  define mx where "mx = max_bytes env"
  define n where "n = retain_count env"
  have pos: "0 < mx" "0 < n" by (simp_all add: mx_def n_def limits_pos)
  obtain rots active dropped where w: "whole = dropped @ concat (rev rots) @ active"
    and a: "fs path = (if whole = [] then None else Some active)" and ro: "rotated path fs rots" and le: "length rots \<le> n"
    and d: "dropped = [] \<or> length rots = n" and sz: "list_all (\<lambda>f. mx \<le> length f \<and> length f < mx + k) rots" "length active < mx + k"
    using r unfolding retained_def mx_def [symmetric] n_def [symmetric] by blast
  define fs1 where "fs1 = rotate_if_needed no_audit_faults mx n path fs"
  have emit: "emit_line no_audit_faults env path line fs =
      fs1(path \<mapsto> (case fs1 path of None \<Rightarrow> [] | Some c \<Rightarrow> c) @ line @ [CHR 0x0A])"
    by (simp add: emit_line_def Let_def fs1_def mx_def n_def no_audit_faults_def)
  have upd: "rotated path (f(path \<mapsto> x)) rs = rotated path f rs" for f x rs by (simp add: rotated_def)
  show ?thesis
  proof (cases "whole \<noteq> [] \<and> mx \<le> length active")
    case True
    then have c: "fs path = Some active" using a by simp
    have f1: "fs1 path = None" "rotated path fs1 (take n (active # rots))"
      using rotate_no_faults [OF ro le pos(2) c, of mx] True by (simp_all add: fs1_def)
    obtain e where e: "concat (rev (active # rots)) = e @ concat (rev (take n (active # rots)))"
      "e = [] \<or> length (take n (active # rots)) = n"
      using concat_rev_take [OF le, of active] by blast
    have "whole @ line @ [CHR 0x0A] = (dropped @ e) @ concat (rev (take n (active # rots))) @ line @ [CHR 0x0A]"
      using w e(1) by simp
    moreover have "dropped @ e = [] \<or> length (take n (active # rots)) = n" using d e(2) le pos(2) by auto
    moreover have "list_all (\<lambda>f. mx \<le> length f \<and> length f < mx + k) (take n (active # rots))"
      using sz True by (auto simp: list_all_iff dest!: in_set_takeD)
    ultimately show ?thesis
      unfolding retained_def emit mx_def [symmetric] n_def [symmetric] using f1 k pos(1)
      by (intro exI [of _ "take n (active # rots)"] exI [of _ "line @ [CHR 0x0A]"] exI [of _ "dropped @ e"])
        (simp add: upd)
  next
    case False
    then have f1: "fs1 = fs" using a by (auto simp: fs1_def rotate_if_needed_def)
    have act: "(case fs path of None \<Rightarrow> [] | Some c \<Rightarrow> c) = active" using a w by (auto split: if_splits)
    have "length active < mx" using False w pos(1) by auto
    then show ?thesis
      unfolding retained_def emit mx_def [symmetric] n_def [symmetric] f1 act using w ro le d sz k
      by (intro exI [of _ rots] exI [of _ "active @ line @ [CHR 0x0A]"] exI [of _ dropped]) (simp add: upd)
  qed
qed

lemma retained_start: "0 < mx \<Longrightarrow> retained mx retain k path [] Map.empty"
  unfolding retained_def by (intro exI [of _ "[]"]) (simp add: rotated_def)

section \<open>Properties\<close>


text \<open>
  C32: A configured protection is never lost on the way to the mode. The server is open only if no
  token is set, in the environment or the configuration, and the mode is open or neither a mode nor keys
  are configured. A mode with signed tokens has an issuer, an audience and at least one key, all of
  signature algorithms with a public key.
\<close>

theorem mode_never_weaker:
  assumes "from_env_or_config L read_file env serve = Inr m"
  shows "(m = Open \<longleftrightarrow> filled (env ''SHARECLI_SERVE_TOKEN'') = None \<and> filled (sc_bearer_token serve) = None
      \<and> (mode_hint env serve = Some ''open'' \<or> mode_hint env serve = None \<and> sc_jwt serve = None))
    \<and> (\<forall>t. m = Bearer t \<longrightarrow> t \<noteq> [] \<and> (env ''SHARECLI_SERVE_TOKEN'' = Some t \<or> sc_bearer_token serve = Some t))
    \<and> (\<forall>v. m = Jwt v \<longrightarrow> jv_issuer v \<noteq> [] \<and> jv_audience v \<noteq> [] \<and> jv_keys v \<noteq> []
         \<and> list_all (\<lambda>(_, _, alg). supported_algorithm alg) (jv_keys v))"
proof (cases "filled (env ''SHARECLI_SERVE_TOKEN'')")
  case None
  define tok where "tok = filled (sc_bearer_token serve)"
  define hint where "hint = mode_hint env serve"
  have m: "(if hint = Some ''jwt'' then jwt_mode L read_file env serve
      else if hint = Some ''bearer'' then (case tok of Some token \<Rightarrow> Inr (Bearer token)
        | None \<Rightarrow> Inl ''auth_mode=bearer requires serve.bearer_token or SHARECLI_SERVE_TOKEN'')
      else if hint = Some ''open'' \<or> hint = None
      then (case tok of Some token \<Rightarrow> Inr (Bearer token)
            | None \<Rightarrow> if sc_jwt serve \<noteq> None \<and> hint = Some ''open'' then Inr Open
                else if sc_jwt serve \<noteq> None \<and> hint = None then jwt_mode L read_file env serve else Inr Open)
      else Inl (''unknown serve.auth_mode `'' @ the hint @ ''` (expected open|bearer|jwt)'')) = Inr m"
    using assms unfolding from_env_or_config_def None Let_def option.case tok_def hint_def .
  from mode_cases [OF m]
  consider "jwt_mode L read_file env serve = Inr m" "hint = Some ''jwt'' \<or> hint = None \<and> sc_jwt serve \<noteq> None"
    | t where "tok = Some t" "m = Bearer t"
    | "tok = None" "m = Open" "hint = Some ''open'' \<or> hint = None \<and> sc_jwt serve = None"
    by blast
  then show ?thesis
  proof cases
    case 1
    from jwt_mode_Inr [OF 1(1)] 1(2) show ?thesis by (auto simp: hint_def)
  next
    case 2
    then have "sc_bearer_token serve = Some t" "t \<noteq> []" by (simp_all add: tok_def)
    with 2 show ?thesis by (simp add: tok_def)
  next
    case 3
    with None show ?thesis by (simp add: tok_def hint_def)
  qed
next
  case (Some t)
  then have "m = Bearer t" using assms by (simp add: from_env_or_config_def del: filled_Some)
  with Some show ?thesis by simp
qed

definition demo_jwt_lib :: "nat jwt_lib" where
  "demo_jwt_lib = \<lparr>jl_parse_jwks = (\<lambda>_. Inr [\<lparr>jwk_kid = None, jwk_alg = Some KeyES384, jwk_params = EcParams ''x'' ''y''\<rparr>]),
     jl_rsa_key = (\<lambda>_ _. Inl []), jl_ec_key = (\<lambda>_ _. Inr 7), jl_decode_header = (\<lambda>_. Inr (ES384, None)),
     jl_decode = (\<lambda>t k v. if t = ''good'' then Inr (Some ''ann'') else Inl InvalidSignature)\<rparr>"

definition demo_serve_config :: serve_config where
  "demo_serve_config = \<lparr>sc_bearer_token = None, sc_auth_mode = None,
     sc_jwt = Some \<lparr>jc_issuer = ''iss'', jc_audience = ''aud'', jc_jwks_path = None, jc_jwks = Some ''k''\<rparr>\<rparr>"

theorem mode_never_weaker_witness:
  "\<exists>v. from_env_or_config demo_jwt_lib (\<lambda>_. Inl []) (\<lambda>_. None) demo_serve_config = Inr (Jwt v) \<and> jv_keys v \<noteq> []"
proof -
  define v where "v = \<lparr>jv_issuer = ''iss'', jv_audience = ''aud'', jv_keys = [(None :: string option, 7 :: nat, ES384)]\<rparr>"
  have "from_env_or_config demo_jwt_lib (\<lambda>_. Inl []) (\<lambda>_. None) demo_serve_config = Inr (Jwt v)"
    by (simp add: from_env_or_config_def filled_def mode_hint_def demo_serve_config_def demo_jwt_lib_def ascii_lower_def jwt_mode_def
        resolve_jwt_config_def jv_from_config_def jwk_key_def key_alg_to_algorithm_def supported_algorithm_def Let_def v_def)
  with mode_never_weaker [OF this] show ?thesis by blast
qed


definition demo_request :: "string \<Rightarrow> http_request" where
  "demo_request token = \<lparr>rq_method = ''GET'', rq_path = ''/config'', rq_authorization = Some (''Bearer '' @ token), rq_traceparent = None\<rparr>"

definition demo_app_state :: app_state where
  "demo_app_state = \<lparr>as_now = 0, as_rate_limit = Some (srl_new 1 (from_secs 60)),
     as_red = \<lparr>requests_total = 0, errors_total = 0, unauthorized_total = 0, duration_count = 0, duration_sum_ms = 0,
       bucket_le_5ms = 0, bucket_le_25ms = 0, bucket_le_100ms = 0, bucket_le_inf = 0\<rparr>,
     as_extracted = 0, as_injected = 0, as_audit = [], as_nanos = 0, as_pid = 1\<rparr>"

lemma demo_rejected: "rejected demo_jwt_lib id (Bearer ''secret'') (demo_request ''guess'')"
  by (simp add: rejected_def demo_request_def is_public_path_def is_dashboard_asset_path_def URL_PREFIX_def starts_with_def
      check_authorization_def strip_bearer_def tokens_equal_def str_trim_def trim_start_def is_whitespace_def)

definition demo_routes :: handler where
  "demo_routes rq s = (\<lparr>rs_status = 200, rs_headers = [], rs_body = NoBody\<rparr>, s)"


text \<open>
  C34: The meter of unauthorized requests never moves. For routes that answer no 401 themselves, every
  rejected request is answered with 401 and no other one is, and yet the counter that reports the
  401 answers stays where it was, because the meters are inside the authentication.
\<close>

theorem unauthorized_never_counted:
  assumes "\<forall>rq s. rs_status (fst (routes rq s)) \<noteq> 401 \<and> as_red (snd (routes rq s)) = as_red s"
  shows "unauthorized_total (as_red (snd (serve_requests (serve_app L sha256 auth routes) rqs s))) = unauthorized_total (as_red s)
    \<and> map (\<lambda>r. rs_status r = 401) (fst (serve_requests (serve_app L sha256 auth routes) rqs s)) = map (rejected L sha256 auth) rqs"
proof -
  have inner: "\<forall>rq s. rs_status (fst (routes rq s)) \<noteq> 401 \<and> unauthorized_total (as_red (snd (routes rq s))) = unauthorized_total (as_red s)"
    using assms by simp
  have passed: "rs_status (fst (serve_rate_limit_middleware (http_observability_middleware routes) rq s)) \<noteq> 401
      \<and> unauthorized_total (as_red (snd (serve_rate_limit_middleware (http_observability_middleware routes) rq s))) = unauthorized_total (as_red s)"
    for rq s
    by (rule rate_limit_keeps_unauthorized) (use observability_keeps_unauthorized [OF inner] in blast)
  have one: "unauthorized_total (as_red (snd (serve_app L sha256 auth routes rq s))) = unauthorized_total (as_red s)
      \<and> (rs_status (fst (serve_app L sha256 auth routes rq s)) = 401) = rejected L sha256 auth rq" for rq s
  proof (cases "rejected L sha256 auth rq")
    case True
    then show ?thesis by (simp add: serve_app_rejected unauthorized_response_def)
  next
    case False
    from serve_app_passed [OF this] obtain ev where "serve_app L sha256 auth routes rq s =
      serve_rate_limit_middleware (http_observability_middleware routes) rq (s\<lparr>as_audit := as_audit s @ ev\<rparr>)" by blast
    then show ?thesis using False passed [of rq "s\<lparr>as_audit := as_audit s @ ev\<rparr>"] by simp
  qed
  show ?thesis
  proof (induction rqs arbitrary: s)
    case (Cons rq rqs)
    obtain r s1 where "serve_app L sha256 auth routes rq s = (r, s1)" by fastforce
    with one [of rq s] Cons.IH [of s1] show ?case by (simp add: split_beta)
  qed simp
qed

theorem unauthorized_never_counted_witness:
  "unauthorized_total (as_red (snd (serve_requests (serve_app demo_jwt_lib id (Bearer ''secret'') demo_routes) [demo_request ''guess''] demo_app_state))) = 0"
  using unauthorized_never_counted [of demo_routes demo_jwt_lib id "Bearer ''secret''" "[demo_request ''guess'']" demo_app_state]
  by (simp add: demo_routes_def demo_app_state_def)

text \<open>
  C35: The audit log and its rotated files always hold, in order and without a gap, the end of
  everything that was written, and nothing was dropped before the configured number of files was
  full. Each rotated file has reached the configured size, and no file exceeds it by a line.
\<close>

theorem audit_retention:
  assumes "list_all (\<lambda>l. length l < k) ls"
    and "fs = foldl (\<lambda>fs l. emit_line no_audit_faults env path l fs) Map.empty ls"
  shows "\<exists>rots active dropped. concat (map (\<lambda>l. l @ [CHR 0x0A]) ls) = dropped @ concat (rev rots) @ active
    \<and> fs path = (if ls = [] then None else Some active)
    \<and> (\<forall>i. fs (rotation_path path (Suc i)) = (if i < length rots then Some (rots ! i) else None))
    \<and> length rots \<le> retain_count env \<and> (dropped = [] \<or> length rots = retain_count env)
    \<and> list_all (\<lambda>f. max_bytes env \<le> length f \<and> length f < max_bytes env + k) rots \<and> length active < max_bytes env + k"
proof -
  have "retained (max_bytes env) (retain_count env) k path (concat (map (\<lambda>l. l @ [CHR 0x0A]) ls)) fs"
    using assms
  proof (induction ls arbitrary: fs rule: rev_induct)
    case Nil
    then show ?case by (simp add: retained_start limits_pos)
  next
    case (snoc l ls)
    then show ?case using retained_emit [of env k path _ _ l] by (simp add: list_all_iff)
  qed
  moreover have "concat (map (\<lambda>l. l @ [CHR 0x0A]) ls) = [] \<longleftrightarrow> ls = []" by (cases ls) auto
  ultimately show ?thesis unfolding retained_def rotated_def by auto
qed

theorem audit_retention_witness:
  "emit_line no_audit_faults (\<lambda>_. None) ''a'' ''y'' (emit_line no_audit_faults (\<lambda>_. None) ''a'' ''x'' Map.empty) ''a'' \<noteq> None"
  using audit_retention [of 2 "[''x'', ''y'']" _ "\<lambda>_. None" "''a''", OF _ refl] by auto

text \<open>Rotation never reaches a file beyond the configured number: lowering it leaves the older files where they are.\<close>

lemma files_beyond_retention_stay:
  assumes "retain < i" "0 < retain"
  shows "rotate_if_needed F mx retain path fs (rotation_path path i) = fs (rotation_path path i)"
proof -
  have "shift_files F path n f (rotation_path path i) = f (rotation_path path i)" if "Suc n < i" for n f
    using that by (induction n arbitrary: f) (simp_all add: try_rename_def split: option.split)
  with assms show ?thesis
    by (cases retain) (auto simp: rotate_if_needed_def Let_def try_rename_def split: option.split)
qed

end
