(* ===== verification/BuildPermits.thy ===== *)
theory BuildPermits
  imports Prelude "HOL-Library.Multiset"
begin

text \<open>
  The throttle for builds: the counting semaphore and the start of processes of
  \<open>crates/spawn-core/src/spawn_core.zig\<close> with its wrappers in \<open>crates/spawn-core-sys\<close>, and the policy over it
  (\<open>src/spawn_policy.rs\<close>). The threads that wait for a permit interleave at the mutex of the semaphore,
  and a wait on the condition may end without a signal.
\<close>

section \<open>The semaphore\<close>

record semaphore =
  sem_count :: nat
  sem_max :: nat

definition spc_semaphore_new :: "nat \<Rightarrow> semaphore" where
  "spc_semaphore_new mx = \<lparr>sem_count = mx, sem_max = mx\<rparr>"

text \<open>The test under the mutex that ends the loop of a blocking acquisition, and the decrement after it.\<close>

definition acquire_check :: "semaphore \<Rightarrow> semaphore option" where
  "acquire_check s = (if sem_count s = 0 then None else Some (s\<lparr>sem_count := sem_count s - 1\<rparr>))"

text \<open>The first argument is the result of locking the mutex, 0 for success.\<close>

definition spc_semaphore_try_acquire :: "int \<Rightarrow> semaphore \<Rightarrow> int \<times> semaphore" where
  "spc_semaphore_try_acquire rc s =
     (if rc \<noteq> 0 then (- rc, s)
      else if sem_count s > 0 then (0, s\<lparr>sem_count := sem_count s - 1\<rparr>) else (1, s))"

definition spc_semaphore_release :: "int \<Rightarrow> semaphore \<Rightarrow> int \<times> semaphore" where
  "spc_semaphore_release rc s =
     (if rc \<noteq> 0 then (- rc, s)
      else (0, if sem_count s < sem_max s then s\<lparr>sem_count := sem_count s + 1\<rparr> else s))"

definition spc_semaphore_available :: "semaphore \<Rightarrow> nat" where
  "spc_semaphore_available s = sem_count s"

definition zig_semaphore_new :: "nat \<Rightarrow> semaphore" where
  "zig_semaphore_new mx = spc_semaphore_new (max mx 1)"

definition zig_try_acquire :: "int \<Rightarrow> semaphore \<Rightarrow> (int + bool) \<times> semaphore" where
  "zig_try_acquire rc s =
     (case spc_semaphore_try_acquire rc s of (n, s) \<Rightarrow>
        (if n = 0 then Inr True else if n = 1 then Inr False else Inl (- n), s))"

definition zig_release :: "int \<Rightarrow> semaphore \<Rightarrow> (int + unit) \<times> semaphore" where
  "zig_release rc s =
     (case spc_semaphore_release rc s of (n, s) \<Rightarrow> (if n = 0 then Inr () else Inl (- n), s))"

section \<open>Processes\<close>

record spawn_params =
  sp_program :: string
  sp_argv :: "string list"
  sp_envp :: "string list option"
  sp_cwd :: "string option"
  sp_nice_delta :: int
  sp_background_qos :: bool

text \<open>The calls of \<open>setpriority\<close>: which, who, priority.\<close>

definition spc_spawn :: "bool \<Rightarrow> (spawn_params \<Rightarrow> int) \<Rightarrow> spawn_params \<Rightarrow> int \<times> (int \<times> int \<times> int) list" where
  "spc_spawn is_macos start params =
     (let pid = start params
      in if pid \<le> 0 then (pid, [])
         else (pid,
           (if sp_nice_delta params \<noteq> 0 then [(0, pid, sp_nice_delta params)] else [])
           @ (if is_macos \<and> sp_background_qos params then [(0x1000, pid, 0)] else [])))"

definition zig_spawn :: "bool \<Rightarrow> (spawn_params \<Rightarrow> int) \<Rightarrow> spawn_params \<Rightarrow> (int + int) \<times> (int \<times> int \<times> int) list" where
  "zig_spawn is_macos start params =
     (case spc_spawn is_macos start params of (pid, calls) \<Rightarrow>
        (if pid > 0 then Inr pid else Inl (- pid), calls))"

text \<open>The answer of \<open>waitpid\<close> is its result and the status word.\<close>

definition spc_waitpid :: "int \<times> int \<Rightarrow> int" where
  "spc_waitpid answer =
     (case answer of (ret, status) \<Rightarrow> if ret < 0 then - 1 else take_bit 8 (drop_bit 8 status))"

section \<open>The policy\<close>

record spawn_policy_config =
  nice_level :: nat
  max_concurrent_builds :: nat
  use_sccache :: bool

definition default_spawn_policy_config :: spawn_policy_config where
  "default_spawn_policy_config = \<lparr>nice_level = 10, max_concurrent_builds = 2, use_sccache = False\<rparr>"

definition is_build_harness :: "string \<Rightarrow> bool" where
  "is_build_harness harness \<longleftrightarrow>
     harness \<in> {''cargo'', ''rustc'', ''build'', ''make'', ''cmake'', ''ninja'', ''bazel''}"

record spawn_policy =
  spol_semaphore :: semaphore
  spol_config :: spawn_policy_config

definition spol_new :: "spawn_policy_config \<Rightarrow> spawn_policy" where
  "spol_new config = \<lparr>spol_semaphore = zig_semaphore_new (max (max_concurrent_builds config) 1), spol_config = config\<rparr>"

definition try_acquire_build_permit :: "int \<Rightarrow> spawn_policy \<Rightarrow> bool \<times> spawn_policy" where
  "try_acquire_build_permit rc p =
     (case zig_try_acquire rc (spol_semaphore p) of (r, s) \<Rightarrow> (r = Inr True, p\<lparr>spol_semaphore := s\<rparr>))"

definition drop_build_permit :: "int \<Rightarrow> spawn_policy \<Rightarrow> spawn_policy" where
  "drop_build_permit rc p = p\<lparr>spol_semaphore := snd (zig_release rc (spol_semaphore p))\<rparr>"

definition available_permits :: "spawn_policy \<Rightarrow> nat" where
  "available_permits p = spc_semaphore_available (spol_semaphore p)"

definition apply_taskpolicy :: "bool \<Rightarrow> spawn_policy_config \<Rightarrow> string \<Rightarrow> string list \<Rightarrow> string \<times> string list" where
  "apply_taskpolicy is_macos config program args =
     (if is_macos \<and> nice_level config > 0 then (''taskpolicy'', [''--'', program] @ args)
      else (program, args))"

definition build_env_overrides :: "bool \<Rightarrow> spawn_policy_config \<Rightarrow> (string \<times> string) list" where
  "build_env_overrides sccache_on_path config =
     [(''CARGO_BUILD_JOBS'', show_nat (max_concurrent_builds config))]
     @ (if use_sccache config \<and> sccache_on_path then [(''RUSTC_WRAPPER'', ''sccache'')] else [])"

section \<open>Threads\<close>

text \<open>
  A thread waits on the condition or has been woken, by a signal or without one, and must look at
  the count again. A wait that fails leaves everything as it is and is no step. Releasing wakes one of
  the threads that wait, if there is any.
\<close>

datatype phase = Idle | Waiting | Woken | Holding

record permits =
  pm_sem :: semaphore
  pm_threads :: "phase list"

inductive permit_step :: "permits \<Rightarrow> permits \<Rightarrow> bool" where
  step_acquire: "i < length (pm_threads p) \<Longrightarrow> pm_threads p ! i \<in> {Idle, Woken} \<Longrightarrow> acquire_check (pm_sem p) = Some s \<Longrightarrow>
    permit_step p (p\<lparr>pm_sem := s, pm_threads := (pm_threads p)[i := Holding]\<rparr>)"
| step_wait: "i < length (pm_threads p) \<Longrightarrow> pm_threads p ! i \<in> {Idle, Woken} \<Longrightarrow> acquire_check (pm_sem p) = None \<Longrightarrow>
    permit_step p (p\<lparr>pm_threads := (pm_threads p)[i := Waiting]\<rparr>)"
| step_wake: "i < length (pm_threads p) \<Longrightarrow> pm_threads p ! i = Waiting \<Longrightarrow>
    permit_step p (p\<lparr>pm_threads := (pm_threads p)[i := Woken]\<rparr>)"
| step_try: "i < length (pm_threads p) \<Longrightarrow> pm_threads p ! i = Idle \<Longrightarrow> zig_try_acquire 0 (pm_sem p) = (Inr True, s) \<Longrightarrow>
    permit_step p (p\<lparr>pm_sem := s, pm_threads := (pm_threads p)[i := Holding]\<rparr>)"
| step_release: "i < length (pm_threads p) \<Longrightarrow> pm_threads p ! i = Holding \<Longrightarrow> zig_release 0 (pm_sem p) = (Inr (), s) \<Longrightarrow>
    Waiting \<notin> set (pm_threads p) \<Longrightarrow>
    permit_step p (p\<lparr>pm_sem := s, pm_threads := (pm_threads p)[i := Idle]\<rparr>)"
| step_signal: "i < length (pm_threads p) \<Longrightarrow> pm_threads p ! i = Holding \<Longrightarrow> zig_release 0 (pm_sem p) = (Inr (), s) \<Longrightarrow>
    j < length (pm_threads p) \<Longrightarrow> pm_threads p ! j = Waiting \<Longrightarrow>
    permit_step p (p\<lparr>pm_sem := s, pm_threads := (pm_threads p)[i := Idle, j := Woken]\<rparr>)"

definition threads_in :: "phase \<Rightarrow> permits \<Rightarrow> nat" where
  "threads_in ph p = count (mset (pm_threads p)) ph"

definition permits_start :: "spawn_policy_config \<Rightarrow> nat \<Rightarrow> permits" where
  "permits_start config n = \<lparr>pm_sem = spol_semaphore (spol_new config), pm_threads = replicate n Idle\<rparr>"

definition permits_ok :: "nat \<Rightarrow> permits \<Rightarrow> bool" where
  "permits_ok mx p \<longleftrightarrow> sem_max (pm_sem p) = mx \<and> sem_count (pm_sem p) + threads_in Holding p = mx
     \<and> (threads_in Waiting p > 0 \<longrightarrow> sem_count (pm_sem p) \<le> threads_in Woken p)"

lemma threads_in_update:
  assumes "i < length (pm_threads p)"
  shows "threads_in ph (q\<lparr>pm_threads := (pm_threads p)[i := v]\<rparr>) =
    threads_in ph p - (if ph = pm_threads p ! i then 1 else 0) + (if ph = v then 1 else 0)"
  using assms by (simp add: threads_in_def mset_update)

lemma threads_in_pos: "threads_in ph p > 0 \<longleftrightarrow> ph \<in> set (pm_threads p)"
  by (simp add: threads_in_def)

lemma nth_threads_in: "i < length (pm_threads p) \<Longrightarrow> pm_threads p ! i = ph \<Longrightarrow> threads_in ph p > 0"
  using nth_mem by (fastforce simp: threads_in_pos)

lemma threads_in_two:
  assumes "i < length (pm_threads p)" "j < length (pm_threads p)" "i \<noteq> j"
  shows "threads_in ph (q\<lparr>pm_threads := (pm_threads p)[i := v, j := w]\<rparr>) =
    threads_in ph p - (if ph = pm_threads p ! i then 1 else 0) + (if ph = v then 1 else 0)
      - (if ph = pm_threads p ! j then 1 else 0) + (if ph = w then 1 else 0)"
  using assms by (simp add: threads_in_def mset_update)

lemma permit_step_ok:
  assumes "permit_step p q" "permits_ok mx p"
  shows "permits_ok mx q"
  using assms
proof (induction rule: permit_step.induct)
  case (step_acquire i p s)
  then have "sem_count (pm_sem p) > 0" "s = (pm_sem p)\<lparr>sem_count := sem_count (pm_sem p) - 1\<rparr>"
    by (auto simp: acquire_check_def split: if_splits)
  moreover have "pm_threads p ! i = Idle \<or> threads_in Woken p > 0 \<and> pm_threads p ! i = Woken"
    using step_acquire.hyps nth_threads_in by auto
  ultimately show ?case
    using step_acquire.prems step_acquire.hyps(1) by (auto simp: permits_ok_def threads_in_update)
next
  case (step_wait i p)
  then have "sem_count (pm_sem p) = 0" "pm_threads p ! i \<noteq> Holding" by (auto simp: acquire_check_def split: if_splits)
  then show ?case using step_wait.prems step_wait.hyps(1) by (auto simp: permits_ok_def threads_in_update)
next
  case (step_wake i p)
  then show ?case using nth_threads_in [OF step_wake.hyps] by (auto simp: permits_ok_def threads_in_update)
next
  case (step_try i p s)
  then have "sem_count (pm_sem p) > 0" "s = (pm_sem p)\<lparr>sem_count := sem_count (pm_sem p) - 1\<rparr>"
    by (auto simp: zig_try_acquire_def spc_semaphore_try_acquire_def split: if_splits)
  then show ?case using step_try.prems step_try.hyps(1,2) by (auto simp: permits_ok_def threads_in_update)
next
  case (step_release i p s)
  have h: "threads_in Holding p > 0" by (rule nth_threads_in [OF step_release.hyps(1,2)])
  then have "s = (pm_sem p)\<lparr>sem_count := sem_count (pm_sem p) + 1\<rparr>"
    using step_release.hyps(3) step_release.prems by (auto simp: zig_release_def spc_semaphore_release_def permits_ok_def)
  moreover have "threads_in Waiting p = 0" using step_release.hyps(4) threads_in_pos [of Waiting p] by simp
  ultimately show ?case
    using h step_release.prems step_release.hyps(1,2) by (auto simp: permits_ok_def threads_in_update)
next
  case (step_signal i p s j)
  have h: "threads_in Holding p > 0" "threads_in Waiting p > 0" "i \<noteq> j"
    using nth_threads_in [OF step_signal.hyps(1,2)] nth_threads_in [OF step_signal.hyps(4,5)] step_signal.hyps by auto
  then have "s = (pm_sem p)\<lparr>sem_count := sem_count (pm_sem p) + 1\<rparr>"
    using step_signal.hyps(3) step_signal.prems by (auto simp: zig_release_def spc_semaphore_release_def permits_ok_def)
  then show ?case
    using h step_signal.prems step_signal.hyps(1,2,4,5) by (auto simp: permits_ok_def threads_in_two)
qed

lemma permits_start_ok: "permits_ok (max (max_concurrent_builds config) 1) (permits_start config n)"
  by (auto simp: permits_ok_def permits_start_def spol_new_def zig_semaphore_new_def spc_semaphore_new_def threads_in_def)

lemma permit_steps_ok: "permit_step\<^sup>*\<^sup>* p q \<Longrightarrow> permits_ok mx p \<Longrightarrow> permits_ok mx q"
  by (induction rule: rtranclp_induct) (auto intro: permit_step_ok)

lemma permit_step_length: "permit_step p q \<Longrightarrow> length (pm_threads q) = length (pm_threads p)"
  by (induction rule: permit_step.induct) simp_all

section \<open>Properties\<close>

text \<open>
  C36: However the threads interleave and whichever waits end without a signal, never more builds hold
  a permit than configured, and at least one may. No wake-up is lost: while a thread waits, either a
  woken thread can take a free permit at once, or all permits are held and returning any of
  them wakes a thread that finds it free.
\<close>

theorem build_permits_correct:
  assumes "permit_step\<^sup>*\<^sup>* (permits_start config n) p"
  shows "threads_in Holding p + available_permits \<lparr>spol_semaphore = pm_sem p, spol_config = config\<rparr> = max (max_concurrent_builds config) 1
    \<and> (Waiting \<in> set (pm_threads p) \<longrightarrow>
        (\<exists>i q. i < length (pm_threads p) \<and> pm_threads p ! i = Woken \<and> permit_step p q \<and> pm_threads q = (pm_threads p)[i := Holding])
        \<or> (threads_in Holding p = max (max_concurrent_builds config) 1
            \<and> (\<forall>i. i < length (pm_threads p) \<and> pm_threads p ! i = Holding \<longrightarrow>
                 (\<exists>j q. permit_step p q \<and> pm_threads q = (pm_threads p)[i := Idle, j := Woken] \<and> sem_count (pm_sem q) = 1))))"
proof -
  have ok: "permits_ok (max (max_concurrent_builds config) 1) p"
    by (rule permit_steps_ok [OF assms permits_start_ok])
  have sum: "sem_count (pm_sem p) + threads_in Holding p = max (max_concurrent_builds config) 1" using ok by (simp add: permits_ok_def)
  have "(\<exists>i q. i < length (pm_threads p) \<and> pm_threads p ! i = Woken \<and> permit_step p q \<and> pm_threads q = (pm_threads p)[i := Holding])"
    if w: "Waiting \<in> set (pm_threads p)" and c: "sem_count (pm_sem p) > 0"
  proof -
    have "threads_in Woken p > 0" using ok w c threads_in_pos [of Waiting p] by (auto simp: permits_ok_def)
    then obtain i where i: "i < length (pm_threads p)" "pm_threads p ! i = Woken" by (auto simp: threads_in_pos in_set_conv_nth)
    have "acquire_check (pm_sem p) = Some ((pm_sem p)\<lparr>sem_count := sem_count (pm_sem p) - 1\<rparr>)" using c by (simp add: acquire_check_def)
    from permit_step.step_acquire [OF i(1) _ this] i show ?thesis by (intro exI conjI) auto
  qed
  moreover have "\<exists>j q. permit_step p q \<and> pm_threads q = (pm_threads p)[i := Idle, j := Woken] \<and> sem_count (pm_sem q) = 1"
    if w: "Waiting \<in> set (pm_threads p)" and c: "sem_count (pm_sem p) = 0" and i: "i < length (pm_threads p)" "pm_threads p ! i = Holding" for i
  proof -
    obtain j where j: "j < length (pm_threads p)" "pm_threads p ! j = Waiting" using w by (auto simp: in_set_conv_nth)
    have "zig_release 0 (pm_sem p) = (Inr (), (pm_sem p)\<lparr>sem_count := 1\<rparr>)"
      using c ok by (simp add: zig_release_def spc_semaphore_release_def permits_ok_def)
    from permit_step.step_signal [OF i this j] show ?thesis by (intro exI conjI) auto
  qed
  ultimately show ?thesis
    using sum by (cases "sem_count (pm_sem p)") (auto simp: available_permits_def spc_semaphore_available_def)
qed

definition one_build :: spawn_policy_config where
  "one_build = \<lparr>nice_level = 0, max_concurrent_builds = 1, use_sccache = False\<rparr>"

definition one_held :: permits where
  "one_held = \<lparr>pm_sem = \<lparr>sem_count = 0, sem_max = 1\<rparr>, pm_threads = [Holding, Waiting]\<rparr>"

lemma one_held_reached: "permit_step\<^sup>*\<^sup>* (permits_start one_build 2) one_held"
proof -
  define p1 where "p1 = \<lparr>pm_sem = \<lparr>sem_count = 0, sem_max = 1\<rparr>, pm_threads = [Holding, Idle]\<rparr>"
  have s: "permits_start one_build 2 = \<lparr>pm_sem = \<lparr>sem_count = 1, sem_max = 1\<rparr>, pm_threads = [Idle, Idle]\<rparr>"
    by (simp add: permits_start_def one_build_def spol_new_def zig_semaphore_new_def spc_semaphore_new_def numeral_2_eq_2)
  have a: "permit_step (permits_start one_build 2) p1"
    using permit_step.step_acquire [of 0 "permits_start one_build 2" "\<lparr>sem_count = 0, sem_max = 1\<rparr>"]
    by (simp add: s p1_def acquire_check_def)
  have b: "permit_step p1 one_held"
    using permit_step.step_wait [of 1 p1] by (simp add: p1_def one_held_def acquire_check_def)
  show ?thesis using a b by (meson converse_rtranclp_into_rtranclp rtranclp.rtrancl_refl)
qed

theorem build_permits_correct_witness:
  "\<exists>j q. permit_step one_held q \<and> pm_threads q = (pm_threads one_held)[0 := Idle, j := Woken] \<and> sem_count (pm_sem q) = 1"
proof -
  have t: "pm_threads one_held = [Holding, Waiting]" by (simp add: one_held_def)
  have "\<not> (i < length (pm_threads one_held) \<and> pm_threads one_held ! i = Woken)" for i
    by (auto simp: t nth_Cons split: nat.splits)
  moreover have "Waiting \<in> set (pm_threads one_held)" "0 < length (pm_threads one_held)" "pm_threads one_held ! 0 = Holding"
    by (simp_all add: t)
  ultimately show ?thesis using build_permits_correct [OF one_held_reached] by blast
qed

text \<open>
  C37: What a wait reports. A child that exits gives its exit code; a child that a signal ends, with or
  without a core file, gives 0, so it cannot be told from one that succeeded.
\<close>

theorem waitpid_reports:
  assumes "0 < pid" "0 \<le> code" "code < 256" "0 < sig" "sig < 128" "core \<in> {0, 128}"
  shows "spc_waitpid (pid, 256 * code) = code \<and> spc_waitpid (pid, sig + core) = 0"
proof -
  have "drop_bit 8 (256 * code) = code" "drop_bit 8 (sig + core) = 0" using assms by (auto simp: drop_bit_eq_div)
  then show ?thesis using assms by (simp add: spc_waitpid_def take_bit_eq_mod)
qed

theorem waitpid_reports_witness: "spc_waitpid (77, 256 * 3) = 3 \<and> spc_waitpid (77, 9 + 128) = 0"
  using waitpid_reports [of 77 3 9 128] by simp

text \<open>The number of jobs a build is told agrees with the number of permits exactly for a positive setting.\<close>

lemma jobs_agree_iff:
  "build_env_overrides b config ! 0 = (''CARGO_BUILD_JOBS'', show_nat (available_permits (spol_new config)))
     \<longleftrightarrow> 0 < max_concurrent_builds config"
proof -
  have "show_nat m = show_nat (max m 1) \<longleftrightarrow> 0 < m" for m :: nat
  proof (cases m)
    case 0
    then show ?thesis using show_nat_inj [of 0 1] by auto
  qed simp
  then show ?thesis
    by (simp add: build_env_overrides_def available_permits_def spc_semaphore_available_def spol_new_def zig_semaphore_new_def spc_semaphore_new_def)
qed

end
