(* ===== verification/AgentCalls.thy ===== *)
theory AgentCalls
  imports FusePaths AgentDetect
begin

text \<open>
  What agents may run and what was run: the admission of agent commands (\<open>src/agent_call_policy.rs\<close>) and
  the journal of operations with its rollbacks (\<open>src/commands/undo.rs\<close>). JSON coding is a parameter.
\<close>

section \<open>Admission\<close>

definition USIZE_MAX :: nat where
  "USIZE_MAX = 2 ^ 64 - 1"

datatype pause_code = HazardousRoot | ProjectLimit | Thermal | BuildSlot

record agent_call_decision =
  cd_command :: string
  cd_pause_code :: "pause_code option"
  cd_resume_condition :: "string option"
  cd_deadline :: duration

record agent_call_policy =
  ap_project_root :: string
  ap_project_limit :: nat
  ap_admitted_calls :: nat
  ap_thermal_headroom :: bool
  ap_build_slots :: nat
  ap_admitted_builds :: nat

definition DEFAULT_DEADLINE :: duration where
  "DEFAULT_DEADLINE = from_secs 30"

definition ap_new :: "string \<Rightarrow> agent_call_policy" where
  "ap_new project_root =
     \<lparr>ap_project_root = project_root, ap_project_limit = USIZE_MAX, ap_admitted_calls = 0,
      ap_thermal_headroom = True, ap_build_slots = USIZE_MAX, ap_admitted_builds = 0\<rparr>"

definition with_project_limit :: "nat \<Rightarrow> agent_call_policy \<Rightarrow> agent_call_policy" where
  "with_project_limit limit p = p\<lparr>ap_project_limit := limit\<rparr>"

definition with_thermal_headroom :: "bool \<Rightarrow> agent_call_policy \<Rightarrow> agent_call_policy" where
  "with_thermal_headroom available p = p\<lparr>ap_thermal_headroom := available\<rparr>"

definition with_build_slots :: "nat \<Rightarrow> agent_call_policy \<Rightarrow> agent_call_policy" where
  "with_build_slots slots p = p\<lparr>ap_build_slots := slots\<rparr>"

definition has_recursive_flag :: "string list \<Rightarrow> bool" where
  "has_recursive_flag ws =
     list_ex (\<lambda>w. w = ''--recursive'' \<or> starts_with w ''-'' \<and> list_ex (\<lambda>c. c = CHR ''r'' \<or> c = CHR ''R'') (tl w)) ws"

definition is_build_command :: "string \<Rightarrow> bool" where
  "is_build_command command =
     (case split_whitespace command of [] \<Rightarrow> False | w # _ \<Rightarrow> w \<in> {''cargo'', ''make'', ''just''})"

definition ROOTS :: "string list" where
  "ROOTS = [''/'', ''/Applications'', ''/Library'', ''/System'', ''/Users'', ''/bin'', ''/dev'', ''/etc'', ''/opt'',
     ''/private'', ''/proc'', ''/sys'', ''/tmp'', ''/usr'', ''/var'', ''/Volumes'']"

definition is_hazardous_root :: "string \<Rightarrow> bool" where
  "is_hazardous_root p = list_ex (\<lambda>root. components p = components root) ROOTS"

definition targets_hazardous_root :: "string \<Rightarrow> bool" where
  "targets_hazardous_root command = list_ex is_hazardous_root (split_whitespace command)"

definition normalize :: "agent_call_policy \<Rightarrow> string \<Rightarrow> string" where
  "normalize p command =
     (case split_whitespace command of
        [] \<Rightarrow> command
      | program # rest \<Rightarrow>
          if program \<notin> {''grep'', ''egrep''} \<or> \<not> has_recursive_flag rest then command
          else
            (let positional = filter (\<lambda>w. \<not> starts_with w ''-'') rest;
                 pattern = (case positional of [] \<Rightarrow> [] | w # _ \<Rightarrow> w);
                 target = (case drop 1 positional of
                             [] \<Rightarrow> ap_project_root p
                           | t # _ \<Rightarrow> if t = ''.'' then ap_project_root p else t)
             in ''rg --hidden --glob '' @ [CHR 0x27] @ ''!target'' @ [CHR 0x27] @ '' --glob '' @ [CHR 0x27] @ ''!node_modules''
                @ [CHR 0x27] @ '' '' @ pattern @ '' '' @ target))"

definition paused :: "string \<Rightarrow> pause_code \<Rightarrow> string \<Rightarrow> agent_call_decision" where
  "paused command code resume =
     \<lparr>cd_command = command, cd_pause_code = Some code, cd_resume_condition = Some resume, cd_deadline = DEFAULT_DEADLINE\<rparr>"

definition sat_succ :: "nat \<Rightarrow> nat" where
  "sat_succ n = min (n + 1) USIZE_MAX"

definition admit :: "agent_call_policy \<Rightarrow> string \<Rightarrow> agent_call_decision \<times> agent_call_policy" where
  "admit p command =
     (let normalized = normalize p command
      in if targets_hazardous_root normalized
         then (paused normalized HazardousRoot ''use a path inside the project root'', p)
         else if \<not> ap_thermal_headroom p then (paused normalized Thermal ''wait for thermal headroom'', p)
         else if ap_admitted_calls p \<ge> ap_project_limit p
         then (paused normalized ProjectLimit ''wait for an active project call to finish'', p)
         else
           (let build = is_build_command normalized
            in if build \<and> ap_admitted_builds p \<ge> ap_build_slots p
               then (paused normalized BuildSlot ''wait for an available build slot'', p)
               else
                 (\<lparr>cd_command = normalized, cd_pause_code = None, cd_resume_condition = None, cd_deadline = DEFAULT_DEADLINE\<rparr>,
                  p\<lparr>ap_admitted_calls := sat_succ (ap_admitted_calls p),
                    ap_admitted_builds := (if build then sat_succ (ap_admitted_builds p) else ap_admitted_builds p)\<rparr>)))"

fun admit_all :: "agent_call_policy \<Rightarrow> string list \<Rightarrow> agent_call_decision list \<times> agent_call_policy" where
  "admit_all p [] = ([], p)"
| "admit_all p (c # cs) = (let (d, p) = admit p c; (ds, p) = admit_all p cs in (d # ds, p))"

section \<open>The journal\<close>

record operation_record =
  or_id :: string
  or_ts :: u64
  or_kind :: string
  or_target :: string
  or_reversible :: bool
  or_note :: "string option"

text \<open>Failures: creating the directory, opening for writing or reading, and writing.\<close>

record journal_faults =
  jf_mkdir :: "string option"
  jf_open :: "string option"
  jf_write :: "string option"

record journal_codec =
  jc_to_json :: "operation_record \<Rightarrow> string + string"
  jc_from_json :: "string \<Rightarrow> operation_record option"

definition append_record ::
  "journal_codec \<Rightarrow> journal_faults \<Rightarrow> operation_record \<Rightarrow> string option \<Rightarrow> (string + unit) \<times> string option" where
  "append_record J F rec file =
     (case jf_mkdir F of
        Some e \<Rightarrow> (Inl e, file)
      | None \<Rightarrow>
          (case jf_open F of
             Some e \<Rightarrow> (Inl e, file)
           | None \<Rightarrow>
               (let old = (case file of None \<Rightarrow> [] | Some c \<Rightarrow> c)
                in case jc_to_json J rec of
                     Inl e \<Rightarrow> (Inl e, Some old)
                   | Inr line \<Rightarrow>
                       (case jf_write F of
                          Some e \<Rightarrow> (Inl e, Some old)
                        | None \<Rightarrow> (Inr (), Some (old @ line @ [CHR 0x0A]))))))"

fun parse_lines :: "journal_codec \<Rightarrow> string list \<Rightarrow> string + operation_record list" where
  "parse_lines J [] = Inr []"
| "parse_lines J (line # ls) =
     (if \<not> utf8_valid (map (\<lambda>c. of_nat (of_char c)) line) then Inl ''stream did not contain valid UTF-8''
      else (case parse_lines J ls of
              Inl e \<Rightarrow> Inl e
            | Inr out \<Rightarrow>
                if str_trim line = [] then Inr out
                else (case jc_from_json J line of Some rec \<Rightarrow> Inr (rec # out) | None \<Rightarrow> Inr out)))"

definition read_recent ::
  "journal_codec \<Rightarrow> journal_faults \<Rightarrow> nat \<Rightarrow> string option \<Rightarrow> string + operation_record list" where
  "read_recent J F limit file =
     (case file of
        None \<Rightarrow> Inr []
      | Some c \<Rightarrow>
          (case jf_open F of
             Some e \<Rightarrow> Inl e
           | None \<Rightarrow>
               (case parse_lines J (str_lines c) of
                  Inl e \<Rightarrow> Inl e
                | Inr out \<Rightarrow> Inr (take limit (sort_key (\<lambda>r. - int (unat (or_ts r))) out)))))"

definition tombstone :: "u64 \<Rightarrow> string option \<Rightarrow> operation_record \<Rightarrow> operation_record" where
  "tombstone now note rec =
     \<lparr>or_id = or_id rec @ ''-rb'', or_ts = now, or_kind = ''rollback'', or_target = or_target rec, or_reversible = False,
      or_note = (case note of Some n \<Rightarrow> Some n | None \<Rightarrow> Some (''rolled back '' @ or_id rec))\<rparr>"

definition mark_rolled_back ::
  "journal_codec \<Rightarrow> journal_faults \<Rightarrow> u64 \<Rightarrow> string \<Rightarrow> string option \<Rightarrow> string option \<Rightarrow> (string + operation_record) \<times> string option" where
  "mark_rolled_back J F now opid note file =
     (case read_recent J F USIZE_MAX file of
        Inl e \<Rightarrow> (Inl e, file)
      | Inr records \<Rightarrow>
          (case find (\<lambda>r. or_id r = opid) records of
             None \<Rightarrow> (Inl (''no operation with id '' @ opid @ '' in journal''), file)
           | Some rec \<Rightarrow>
               if \<not> or_reversible rec then (Inl (''operation '' @ opid @ '' is not reversible''), file)
               else (case append_record J F (tombstone now note rec) file of
                       (Inl e, file) \<Rightarrow> (Inl e, file) | (Inr _, file) \<Rightarrow> (Inr rec, file))))"

section \<open>Counting admissions\<close>

abbreviation admitted :: "agent_call_decision \<Rightarrow> bool" where
  "admitted d \<equiv> cd_pause_code d = None"

definition policy_ok :: "agent_call_policy \<Rightarrow> bool" where
  "policy_ok p \<longleftrightarrow> ap_project_limit p \<le> USIZE_MAX \<and> ap_build_slots p \<le> USIZE_MAX
     \<and> ap_admitted_calls p \<le> ap_project_limit p \<and> ap_admitted_builds p \<le> ap_build_slots p"

lemma admit_paused: "\<not> admitted (fst (admit p c)) \<Longrightarrow> snd (admit p c) = p"
  by (auto simp: admit_def paused_def Let_def)

lemma admit_admitted:
  assumes "admitted (fst (admit p c))"
  shows "\<not> targets_hazardous_root (cd_command (fst (admit p c))) \<and> ap_thermal_headroom p
    \<and> ap_admitted_calls p < ap_project_limit p
    \<and> (is_build_command (cd_command (fst (admit p c))) \<longrightarrow> ap_admitted_builds p < ap_build_slots p)
    \<and> snd (admit p c) = p\<lparr>ap_admitted_calls := sat_succ (ap_admitted_calls p),
        ap_admitted_builds := (if is_build_command (cd_command (fst (admit p c))) then sat_succ (ap_admitted_builds p) else ap_admitted_builds p)\<rparr>"
  using assms by (auto simp: admit_def paused_def Let_def not_le split: if_splits)

lemma sat_succ_less: "n < m \<Longrightarrow> m \<le> USIZE_MAX \<Longrightarrow> sat_succ n = Suc n"
  by (simp add: sat_succ_def)

lemma admit_ok:
  assumes "policy_ok p" "admit p c = (d, q)"
  shows "policy_ok q \<and> ap_project_limit q = ap_project_limit p \<and> ap_build_slots q = ap_build_slots p
    \<and> (admitted d \<longrightarrow> \<not> targets_hazardous_root (cd_command d))
    \<and> ap_admitted_calls q = ap_admitted_calls p + (if admitted d then 1 else 0)
    \<and> ap_admitted_builds q = ap_admitted_builds p + (if admitted d \<and> is_build_command (cd_command d) then 1 else 0)"
proof (cases "admitted d")
  case True
  then show ?thesis
    using admit_admitted [of p c] assms by (auto simp: policy_ok_def sat_succ_less)
next
  case False
  then show ?thesis using admit_paused [of p c] assms by auto
qed

lemma admit_all_ok:
  "policy_ok p \<Longrightarrow> admit_all p cs = (ds, q) \<Longrightarrow>
     policy_ok q \<and> ap_project_limit q = ap_project_limit p \<and> ap_build_slots q = ap_build_slots p
     \<and> list_all (\<lambda>d. admitted d \<longrightarrow> \<not> targets_hazardous_root (cd_command d)) ds
     \<and> ap_admitted_calls q = ap_admitted_calls p + length (filter admitted ds)
     \<and> ap_admitted_builds q = ap_admitted_builds p + length (filter (\<lambda>d. admitted d \<and> is_build_command (cd_command d)) ds)"
proof (induction cs arbitrary: p ds)
  case (Cons c cs)
  obtain d p1 where a: "admit p c = (d, p1)" by fastforce
  obtain ds1 q1 where b: "admit_all p1 cs = (ds1, q1)" by fastforce
  have r: "ds = d # ds1" "q = q1" using Cons.prems(2) a b by auto
  have p1: "policy_ok p1" using admit_ok [OF Cons.prems(1) a] by blast
  from Cons.IH [OF p1] b r(2) admit_ok [OF Cons.prems(1) a] show ?case by (auto simp: r(1))
qed simp

section \<open>Reading what was appended\<close>

text \<open>What is relied on of the coding: a record becomes one line that is not blank and is read back.\<close>

definition journal_codec_ok :: "journal_codec \<Rightarrow> bool" where
  "journal_codec_ok J \<longleftrightarrow> (\<forall>r l. jc_to_json J r = Inr l \<longrightarrow>
     CHR 0x0A \<notin> set l \<and> last l \<noteq> CHR 0x0D \<and> str_trim l \<noteq> [] \<and> utf8_valid (map (\<lambda>c. of_nat (of_char c)) l)
     \<and> jc_from_json J l = Some r)"

definition no_journal_faults :: journal_faults where
  "no_journal_faults = \<lparr>jf_mkdir = None, jf_open = None, jf_write = None\<rparr>"

definition journal_of :: "journal_codec \<Rightarrow> operation_record list \<Rightarrow> string option \<Rightarrow> bool" where
  "journal_of J rs file \<longleftrightarrow> (\<exists>ls. list_all2 (\<lambda>r l. jc_to_json J r = Inr l) rs ls
     \<and> (case file of None \<Rightarrow> [] | Some c \<Rightarrow> c) = concat (map (\<lambda>l. l @ [CHR 0x0A]) ls))"

lemma split_on_lines:
  "list_all (\<lambda>l. d \<notin> set l) ls \<Longrightarrow> split_on d (concat (map (\<lambda>l. l @ [d]) ls)) = ls @ [[]]"
  by (induction ls) (simp_all add: split_on_append)

lemma str_lines_concat:
  assumes "list_all (\<lambda>l. CHR 0x0A \<notin> set l \<and> last l \<noteq> CHR 0x0D) ls"
  shows "str_lines (concat (map (\<lambda>l. l @ [CHR 0x0A]) ls)) = ls"
proof -
  have "list_all (\<lambda>l. CHR 0x0A \<notin> set l) ls" using assms by (auto simp: list_all_iff)
  then have "split_on (CHR 0x0A) (concat (map (\<lambda>l. l @ [CHR 0x0A]) ls)) = ls @ [[]]" by (rule split_on_lines)
  moreover have "map strip_cr ls = ls" using assms by (auto simp: list_all_iff strip_cr_def intro: map_idI)
  ultimately show ?thesis by (simp add: str_lines_def)
qed

lemma parse_lines_records:
  assumes "journal_codec_ok J"
  shows "list_all2 (\<lambda>r l. jc_to_json J r = Inr l) rs ls \<Longrightarrow> parse_lines J ls = Inr rs"
proof (induction rule: list_all2_induct)
  case (Cons r rs l ls)
  then show ?case using assms by (auto simp: journal_codec_ok_def)
qed simp

lemma read_journal:
  assumes ok: "journal_codec_ok J" and j: "journal_of J rs file" and f: "jf_open F = None"
  shows "read_recent J F limit file = Inr (take limit (sort_key (\<lambda>r. - int (unat (or_ts r))) rs))"
proof -
  obtain ls where ls: "list_all2 (\<lambda>r l. jc_to_json J r = Inr l) rs ls"
    and c: "(case file of None \<Rightarrow> [] | Some c \<Rightarrow> c) = concat (map (\<lambda>l. l @ [CHR 0x0A]) ls)"
    using j by (auto simp: journal_of_def)
  show ?thesis
  proof (cases "file")
    case None
    then have "ls = []" using c by (cases ls) auto
    then show ?thesis using ls None by (simp add: read_recent_def)
  next
    case (Some tx)
    have "list_all (\<lambda>l. CHR 0x0A \<notin> set l \<and> last l \<noteq> CHR 0x0D) ls"
      using ls ok by (induction rule: list_all2_induct) (auto simp: journal_codec_ok_def)
    then have "str_lines tx = ls" using c Some by (simp add: str_lines_concat)
    then show ?thesis using Some f parse_lines_records [OF ok ls] by (simp add: read_recent_def)
  qed
qed

lemma append_journal:
  assumes "journal_of J rs file" "jc_to_json J r = Inr l"
  obtains file' where "append_record J no_journal_faults r file = (Inr (), file')" "journal_of J (rs @ [r]) file'"
proof -
  obtain ls where ls: "list_all2 (\<lambda>r l. jc_to_json J r = Inr l) rs ls"
    and c: "(case file of None \<Rightarrow> [] | Some c \<Rightarrow> c) = concat (map (\<lambda>l. l @ [CHR 0x0A]) ls)"
    using assms(1) by (auto simp: journal_of_def)
  have "list_all2 (\<lambda>r l. jc_to_json J r = Inr l) (rs @ [r]) (ls @ [l])" using ls assms(2) by (simp add: list_all2_appendI)
  then have "journal_of J (rs @ [r]) (Some (concat (map (\<lambda>l. l @ [CHR 0x0A]) ls) @ l @ [CHR 0x0A]))"
    unfolding journal_of_def by (intro exI [of _ "ls @ [l]"]) simp
  then show thesis using that assms(2) c by (simp add: append_record_def no_journal_faults_def)
qed

section \<open>Properties\<close>

text \<open>
  C38: The policy admits at most the configured number of calls and of builds, and never a command
  one of whose words is a hazardous root. Nothing is ever given back: once the limit is used up every
  later command is paused, although the pause asks to wait until an active call finishes.
\<close>

theorem admission_limits:
  assumes "limit \<le> USIZE_MAX" "slots \<le> USIZE_MAX"
    and "admit_all (with_build_slots slots (with_project_limit limit (ap_new root))) cs = (ds, q)"
  shows "length (filter admitted ds) \<le> limit
    \<and> length (filter (\<lambda>d. admitted d \<and> is_build_command (cd_command d)) ds) \<le> slots
    \<and> list_all (\<lambda>d. admitted d \<longrightarrow> \<not> targets_hazardous_root (cd_command d)) ds
    \<and> (length (filter admitted ds) = limit \<longrightarrow> (\<forall>cs'. list_all (\<lambda>d. \<not> admitted d) (fst (admit_all q cs'))))"
proof -
  have "policy_ok (with_build_slots slots (with_project_limit limit (ap_new root)))"
    using assms(1,2) by (simp add: policy_ok_def with_build_slots_def with_project_limit_def ap_new_def)
  from admit_all_ok [OF this assms(3)]
  have q: "policy_ok q" "ap_project_limit q = limit" "ap_build_slots q = slots"
    "list_all (\<lambda>d. admitted d \<longrightarrow> \<not> targets_hazardous_root (cd_command d)) ds"
    "ap_admitted_calls q = length (filter admitted ds)"
    "ap_admitted_builds q = length (filter (\<lambda>d. admitted d \<and> is_build_command (cd_command d)) ds)"
    by (simp_all add: with_build_slots_def with_project_limit_def ap_new_def)
  have "list_all (\<lambda>d. \<not> admitted d) (fst (admit_all q cs'))" if "ap_admitted_calls q = ap_project_limit q" for cs'
  proof (induction cs')
    case (Cons c cs')
    have "\<not> admitted (fst (admit q c))" using admit_admitted [of q c] that by auto
    with admit_paused [OF this] Cons.IH show ?case by (simp add: split_beta)
  qed simp
  then show ?thesis using q by (simp add: policy_ok_def)
qed

theorem admission_limits_witness:
  "admitted (fst (admit (with_build_slots 1 (with_project_limit 1 (ap_new ''/p''))) ''ls''))
   \<and> \<not> admitted (fst (admit (snd (admit (with_build_slots 1 (with_project_limit 1 (ap_new ''/p''))) ''ls'')) ''ls''))"
proof -
  let ?p = "with_build_slots 1 (with_project_limit 1 (ap_new ''/p''))"
  have w: "split_whitespace ''ls'' = [''ls'']" by (simp add: split_whitespace_def is_whitespace_def)
  have "\<not> targets_hazardous_root ''ls''"
    by (simp add: targets_hazardous_root_def w is_hazardous_root_def ROOTS_def components_def piece_def starts_with_def)
  moreover have "normalize ?p ''ls'' = ''ls''" "\<not> is_build_command ''ls''" by (simp_all add: normalize_def is_build_command_def w)
  ultimately have a: "admitted (fst (admit ?p ''ls''))"
    by (simp add: admit_def with_build_slots_def with_project_limit_def ap_new_def)
  have one: "admit_all ?p [''ls''] = ([fst (admit ?p ''ls'')], snd (admit ?p ''ls''))" by (simp add: split_beta)
  have "(1::nat) \<le> USIZE_MAX" by (simp add: USIZE_MAX_def)
  from admission_limits [OF this this one] a
  have "list_all (\<lambda>d. \<not> admitted d) (fst (admit_all (snd (admit ?p ''ls'')) [''ls'']))" by (simp del: admit_all.simps)
  with a show ?thesis by (simp add: split_beta)
qed

text \<open>
  C39: What is appended to the journal is read back: all records, by falling time, cut at the limit.
  Records of the same second keep the order in which they were appended, the oldest first.
\<close>

theorem journal_roundtrip:
  assumes "journal_codec_ok J" "list_all (\<lambda>r. \<exists>l. jc_to_json J r = Inr l) rs"
    and "jn = foldl (\<lambda>f r. snd (append_record J no_journal_faults r f)) None rs"
  shows "\<exists>sorted. read_recent J no_journal_faults limit jn = Inr (take limit sorted) \<and> mset sorted = mset rs
    \<and> sorted_wrt (\<lambda>a b. or_ts b \<le> or_ts a) sorted \<and> (\<forall>t. filter (\<lambda>r. or_ts r = t) sorted = filter (\<lambda>r. or_ts r = t) rs)"
proof -
  have "journal_of J rs jn"
    using assms(2,3)
  proof (induction rs arbitrary: jn rule: rev_induct)
    case Nil
    then show ?case by (simp add: journal_of_def)
  next
    case (snoc r rs)
    define j0 where "j0 = foldl (\<lambda>f r. snd (append_record J no_journal_faults r f)) None rs"
    obtain l where l: "jc_to_json J r = Inr l" using snoc.prems(1) by auto
    have "journal_of J rs j0" by (rule snoc.IH) (use snoc.prems(1) in \<open>simp_all add: j0_def\<close>)
    from append_journal [OF this l] obtain f' where "append_record J no_journal_faults r j0 = (Inr (), f')" "journal_of J (rs @ [r]) f'" .
    then show ?case using snoc.prems(2) by (simp add: j0_def)
  qed
  then have r: "read_recent J no_journal_faults limit jn = Inr (take limit (sort_key (\<lambda>r. - int (unat (or_ts r))) rs))"
    using read_journal [OF assms(1)] by (simp add: no_journal_faults_def)
  have "sorted (map (\<lambda>r. - int (unat (or_ts r))) (sort_key (\<lambda>r. - int (unat (or_ts r))) rs))" by (rule sorted_sort_key)
  then have "sorted_wrt (\<lambda>a b. or_ts b \<le> or_ts a) (sort_key (\<lambda>r. - int (unat (or_ts r))) rs)"
    by (simp add: sorted_map word_le_def)
  moreover have "filter (\<lambda>r. or_ts r = t) (sort_key (\<lambda>r. - int (unat (or_ts r))) rs) = filter (\<lambda>r. or_ts r = t) rs" for t
  proof -
    have eq: "(\<lambda>r. or_ts r = t) = (\<lambda>r. - int (unat (or_ts r)) = - int (unat t))" by (intro ext) (simp add: word_uint_eq_iff)
    show ?thesis unfolding eq by (rule sort_key_stable)
  qed
  ultimately show ?thesis using r by (intro exI [of _ "sort_key (\<lambda>r. - int (unat (or_ts r))) rs"]) simp
qed

definition demo_operation :: operation_record where
  "demo_operation = \<lparr>or_id = ''a'', or_ts = 5, or_kind = ''stop'', or_target = ''t'', or_reversible = True, or_note = None\<rparr>"

definition demo_journal_codec :: journal_codec where
  "demo_journal_codec =
     \<lparr>jc_to_json = (\<lambda>r. if r = demo_operation then Inr ''x''
        else if r = tombstone 5 None demo_operation then Inr ''y'' else Inl ''other''),
      jc_from_json = (\<lambda>l. if l = ''x'' then Some demo_operation
        else if l = ''y'' then Some (tombstone 5 None demo_operation) else None)\<rparr>"

lemma demo_journal_codec_ok: "journal_codec_ok demo_journal_codec"
  by (auto simp: journal_codec_ok_def demo_journal_codec_def str_trim_def trim_start_def is_whitespace_def
      utf8_valid.simps utf8_take_def utf8_width_def split: if_splits)

theorem journal_roundtrip_witness:
  "\<exists>sorted. read_recent demo_journal_codec no_journal_faults 9 (snd (append_record demo_journal_codec no_journal_faults demo_operation None))
     = Inr (take 9 sorted) \<and> mset sorted = {#demo_operation#}"
  using journal_roundtrip [OF demo_journal_codec_ok, of "[demo_operation]" _ 9, OF _ refl]
  by (auto simp: demo_journal_codec_def)

text \<open>
  C40: A rollback can be repeated for ever. An operation that was rolled back is found again by the
  next rollback of the same id, which succeeds and records a second tombstone with the same id.
\<close>

theorem rollback_repeats:
  assumes "journal_codec_ok J" "journal_of J rs jn" "length rs < USIZE_MAX"
    and "mark_rolled_back J no_journal_faults now opid note jn = (Inr rec, jn1)"
    and "jc_to_json J (tombstone now' note' rec) = Inr l"
  shows "\<exists>jn2. mark_rolled_back J no_journal_faults now' opid note' jn1 = (Inr rec, jn2)
    \<and> journal_of J (rs @ [tombstone now note rec, tombstone now' note' rec]) jn2"
proof -
  let ?key = "\<lambda>r. - int (unat (or_ts r))"
  have read: "read_recent J no_journal_faults USIZE_MAX j = Inr (sort_key ?key xs)"
    if "journal_of J xs j" "length xs \<le> USIZE_MAX" for xs j
    using read_journal [OF assms(1) that(1), of no_journal_faults USIZE_MAX] that(2) by (simp add: no_journal_faults_def)
  have first: "find P xs = (case filter P xs of [] \<Rightarrow> None | x # _ \<Rightarrow> Some x)" for P and xs :: "operation_record list"
    by (induction xs) simp_all
  have r: "read_recent J no_journal_faults USIZE_MAX jn = Inr (sort_key ?key rs)" using read assms(2,3) by simp
  have f: "find (\<lambda>r. or_id r = opid) (sort_key ?key rs) = Some rec" "or_reversible rec"
    "append_record J no_journal_faults (tombstone now note rec) jn = (Inr (), jn1)"
    using assms(4) by (auto simp: mark_rolled_back_def r split: option.splits if_splits sum.splits prod.splits)
  then have id: "or_id rec = opid" by (auto simp: find_Some_iff)
  obtain l1 where l1: "jc_to_json J (tombstone now note rec) = Inr l1"
    using f(3) by (auto simp: append_record_def no_journal_faults_def Let_def split: sum.splits)
  from append_journal [OF assms(2) l1] f(3) have j1: "journal_of J (rs @ [tombstone now note rec]) jn1" by auto
  from append_journal [OF j1 assms(5)] obtain jn2
    where a: "append_record J no_journal_faults (tombstone now' note' rec) jn1 = (Inr (), jn2)"
      "journal_of J (rs @ [tombstone now note rec, tombstone now' note' rec]) jn2" by auto
  have "filter (\<lambda>r. or_id r = opid) (sort_key ?key (rs @ [tombstone now note rec])) = filter (\<lambda>r. or_id r = opid) (sort_key ?key rs)"
    using id by (simp add: filter_sort tombstone_def)
  then have "find (\<lambda>r. or_id r = opid) (sort_key ?key (rs @ [tombstone now note rec])) = Some rec"
    using f(1) by (simp only: first)
  then have "mark_rolled_back J no_journal_faults now' opid note' jn1 = (Inr rec, jn2)"
    using read [OF j1] assms(3) f(2) a(1) by (simp add: mark_rolled_back_def)
  then show ?thesis using a(2) by blast
qed

lemma demo_journal: "journal_of demo_journal_codec [demo_operation] (Some [CHR ''x'', CHR 0x0A])"
  unfolding journal_of_def by (intro exI [of _ "[''x'']"]) (simp add: demo_journal_codec_def)

lemma demo_rollback:
  "mark_rolled_back demo_journal_codec no_journal_faults 5 ''a'' None (Some [CHR ''x'', CHR 0x0A])
     = (Inr demo_operation, Some [CHR ''x'', CHR 0x0A, CHR ''y'', CHR 0x0A])"
proof -
  have "read_recent demo_journal_codec no_journal_faults USIZE_MAX (Some [CHR ''x'', CHR 0x0A]) = Inr [demo_operation]"
    using read_journal [OF demo_journal_codec_ok demo_journal, of no_journal_faults USIZE_MAX]
    by (simp add: no_journal_faults_def USIZE_MAX_def)
  moreover have "tombstone 5 None demo_operation \<noteq> demo_operation" by (simp add: tombstone_def demo_operation_def)
  moreover have "or_id demo_operation = ''a''" "or_reversible demo_operation" by (simp_all add: demo_operation_def)
  ultimately show ?thesis
    by (simp add: mark_rolled_back_def append_record_def no_journal_faults_def demo_journal_codec_def)
qed

theorem rollback_repeats_witness:
  "\<exists>jn2. mark_rolled_back demo_journal_codec no_journal_faults 5 ''a'' None (Some [CHR ''x'', CHR 0x0A, CHR ''y'', CHR 0x0A])
     = (Inr demo_operation, jn2)"
proof -
  have "tombstone 5 None demo_operation \<noteq> demo_operation" by (simp add: tombstone_def demo_operation_def)
  then have "jc_to_json demo_journal_codec (tombstone 5 None demo_operation) = Inr ''y''" by (simp add: demo_journal_codec_def)
  then show ?thesis
    using rollback_repeats [OF demo_journal_codec_ok demo_journal _ demo_rollback, of 5 None] by (auto simp: USIZE_MAX_def)
qed

text \<open>
  Lines that are text but no record are skipped; a single line that is not UTF-8 makes the whole
  journal unreadable.
\<close>

theorem journal_readable_iff:
  assumes "jf_open F = None"
  shows "(\<exists>out. read_recent J F limit (Some c) = Inr out) \<longleftrightarrow> list_all (\<lambda>l. utf8_valid (map (\<lambda>c. of_nat (of_char c)) l)) (str_lines c)"
proof -
  have "isl (parse_lines J ls) \<longleftrightarrow> \<not> list_all (\<lambda>l. utf8_valid (map (\<lambda>c. of_nat (of_char c)) l)) ls" for ls
    by (induction ls) (auto split: sum.split option.split)
  from this [of "str_lines c"] show ?thesis
    using assms by (cases "parse_lines J (str_lines c)") (auto simp: read_recent_def)
qed

theorem journal_readable_iff_witness:
  "\<not> (\<exists>out. read_recent demo_journal_codec no_journal_faults 9 (Some [CHR ''x'', CHR 0x0A, CHR 0xFF]) = Inr out)"
  using journal_readable_iff [of no_journal_faults demo_journal_codec 9 "[CHR ''x'', CHR 0x0A, CHR 0xFF]"]
  by (simp add: no_journal_faults_def str_lines_def strip_cr_def utf8_valid.simps utf8_take_def utf8_width_def)

text \<open>A quoted pattern with more than two words is cut inside its quotes.\<close>

lemma quoted_pattern_is_cut:
  "normalize (ap_new ''/p'') (''grep -r '' @ [CHR 0x22] @ ''x y z'' @ [CHR 0x22] @ '' src'')
     = ''rg --hidden --glob '' @ [CHR 0x27] @ ''!target'' @ [CHR 0x27] @ '' --glob '' @ [CHR 0x27] @ ''!node_modules''
       @ [CHR 0x27] @ '' '' @ [CHR 0x22] @ ''x y''"
  by (simp add: normalize_def split_whitespace_def is_whitespace_def has_recursive_flag_def starts_with_def)

end
