(* ===== verification/Spec2Isabelle.thy ===== *)
theory Spec2Isabelle
  imports TransactionContract Meters ThermalGate CoalesceCache SlotQueue Speculation InterceptFs
    Hypervisor MeshQueue Resilience ServeLock LogBuffer MeshGit ServeHttp
    BuildPermits AgentCalls
begin

text \<open>
  ShareCLI (\<open>src/\<close>) is a runtime for hosts on which many coding agents work at once. It finds the
  agents among the processes, watches the host, refuses or delays work when the host is hot or
  contended, runs identical commands once and shares the result, queues mutating commands, and
  lets agents share a file system view in which their writes are staged. This development is a
  shallow embedding of the Rust code of these parts, with the theorems that make them correct and
  with the places where they are not.

  \<^bold>\<open>The parts and how they interact.\<close> A command enters \<open>Hypervisor::run\<close> (\<open>crates/sharecli-core\<close>). The
  thermal gate polls the governor of \<open>crates/sharecli-fleet\<close> and may refuse or delay it; the agent is
  detected and the host is sampled. A mutating command takes a slot of the queue of
  \<open>crates/sharecli-ipc\<close>. Any other command is keyed, looked up in the cache of that crate, and on a miss
  run under the lock of its key, with a FUSE mount of its directory (\<open>crates/sharecli-fuse\<close>) around
  it. Predicted commands are run ahead by the speculation loop. The mesh (\<open>crates/sharecli-mesh\<close>) hands
  tasks to teammates through a directory. The command line tool (\<open>src/\<close>) serves the state over HTTP,
  one server per host, and limits, retries and supervises.

  \<^bold>\<open>Theories and sources.\<close>
    \<^item> \<open>Prelude\<close>: machine words with saturating and checked arithmetic, durations, byte strings and
      their operations, printing and parsing of numbers, and the locale \<open>machine\<close> of a step function
      with an invariant, which the pool, the membership, the coalescer, the request handlers and the
      bounded queue interpret.
    \<^item> \<open>TransactionContract\<close>: \<open>transaction_contract.rs\<close> (resource pool, membership, producer).
    \<^item> \<open>Meters\<close>, \<open>ThermalGate\<close>: the meters of \<open>sharecli-fleet\<close>, \<open>thermal.rs\<close>, \<open>agent_contention.rs\<close> and the gate.
    \<^item> \<open>Paths\<close>, \<open>CommandKey\<close>: path syntax; \<open>cache_key.rs\<close>, \<open>nocache.rs\<close>, \<open>semantic.rs\<close>.
    \<^item> \<open>TtlCache\<close>: the locale \<open>ttl_cache\<close> of a cache with expiry; it is interpreted by \<open>CoalesceCache\<close>
      (\<open>sharecli-ipc/src/lib.rs\<close>, with its lock file) and by the negative entries of \<open>FuseCaches\<close>.
    \<^item> \<open>SlotQueue\<close>: \<open>queue.rs\<close> (tickets, lanes, ageing, slots). \<open>Speculation\<close>: \<open>speculation.rs\<close>.
    \<^item> \<open>FusePaths\<close>, \<open>FileSystem\<close>, \<open>FuseCaches\<close>, \<open>FuseCow\<close>, \<open>InterceptFs\<close>: the modules of \<open>sharecli-fuse\<close>, from
      the inode table to the request handlers, over a tree of files with faults.
    \<^item> \<open>AgentDetect\<close>, \<open>ResourceWatch\<close>: \<open>detect.rs\<close>, \<open>proc_scan.rs\<close>, \<open>resource_watch.rs\<close> and the panels.
    \<^item> \<open>Hypervisor\<close>: \<open>types.rs\<close>, \<open>fuse_guard.rs\<close>, \<open>hypervisor.rs\<close>, composed of the theories above.
    \<^item> \<open>MeshQueue\<close>: \<open>task_queue.rs\<close> and \<open>operator_status.rs\<close> of \<open>sharecli-mesh\<close>.
    \<^item> \<open>Resilience\<close>, \<open>ServeLock\<close>: the control modules and the single-instance guard of the tool.
    \<^item> \<open>LogBuffer\<close>: \<open>log_buffer.rs\<close> of \<open>sharecli-ipc\<close> and the request that polls it.
    \<^item> \<open>MeshGit\<close>: \<open>worktree_pool.rs\<close> and \<open>smart_merge.rs\<close> of \<open>sharecli-mesh\<close>, with \<open>git\<close> as a parameter.
    \<^item> \<open>ServeHttp\<close>: \<open>serve_auth.rs\<close>, \<open>middleware.rs\<close>, \<open>http_red.rs\<close>, \<open>audit_log.rs\<close> and the assets of the server.
    \<^item> \<open>BuildPermits\<close>: the semaphore of \<open>spawn_core.zig\<close> with waiting threads, and \<open>spawn_policy.rs\<close>.
    \<^item> \<open>AgentCalls\<close>: \<open>agent_call_policy.rs\<close> and the journal of \<open>commands/undo.rs\<close>.

  Structs are records, enums datatypes, \<open>u8\<close>, \<open>u32\<close> and \<open>u64\<close> are words, \<open>usize\<close> counters and
  durations are natural numbers, strings are lists of bytes, and a floating point number is its bit
  pattern. A fallible operation returns a sum with the error on the left. A mutex is sequential
  access; where processes or threads interleave (lock file, slots, task directory, server lock) the
  interleaving is a step relation or a sequence of steps. Code outside the repository is a
  parameter: hashing, \<open>git\<close>, TOML and JSON coding, the rows of \<open>sysinfo\<close>, starting a process. What a
  theorem needs of it is a named hypothesis, and a witness instantiates it.

  \<^bold>\<open>What the lemmas show.\<close> For each component: the invariant of its state and that every operation
  keeps it, the result of each operation on each branch, and the contract its clients use. Across
  components: a command is run at most once per key and expiry time by all callers together, a
  failed store leaves the old entry, requests are separated by their keys, the pool never
  overcommits, at most the configured number of slots run, the overlays implement a per-agent view
  of the tree, reads never return stale bytes, a run cleans up after itself on every path, queued
  tasks are not lost, and one server runs. Theorems with the opposite sign state where the code
  breaks such a promise; they are named in the findings of the manifest.

  \<^bold>\<open>Bounds and fuel.\<close> One definition takes fuel: the forests of agent processes recurse to a given
  depth, because the code recurses without limit on a table with a cycle of parents. On a table in
  which every process is deeper than its parent a stack deeper than the table is enough, which is part
  of the theorem on the forests. All other recursions are structural or have a measure: the wait
  for a lock ends because its clock moves on by the back-off until the deadline, the retry loop by
  its number of attempts, the walk over parent processes by the set of processes seen. The
  readiness loop of a mount, which would not end for a poll interval of zero, is a partial function,
  and a lemma shows that it returns for a positive one.

  \<^bold>\<open>Not modelled.\<close> Terminal, tray, desktop and web user interfaces (\<open>crates/sharecli-thermal-tui\<close>,
  \<open>crates/sharecli-tray-*\<close>, \<open>desktop/\<close>, \<open>windows/\<close>, \<open>contrib/\<close>), since they draw what others compute; argument
  parsing and the commands that only call other parts and print (\<open>src/main.rs\<close>, \<open>src/commands/\<close>, \<open>src/cast/\<close>);
  sockets, HTTP and WebSocket transport (\<open>crates/sharecli-ipc/src/handler.rs\<close> and \<open>ws_client.rs\<close>,
  \<open>src/tray_http.rs\<close>, \<open>crates/gateway-tools\<close>), whose behaviour is that of their libraries; foreign
  function bindings (\<open>crates/sharecli-ffi\<close>) and the system calls that start a process; mounting itself
  (\<open>backend.rs\<close>, \<open>winfsp_mount.rs\<close>, \<open>mount_smoke.rs\<close>), which is kernel interaction; the message daemon
  \<open>lib/teamcomm\<close>, whose state is in an SQL database; telemetry export; the migrated projects under
  \<open>sharecli/preserved\<close>; tests, benches, fuzz targets and scripts. The manifest lists these parts with
  their reasons.
\<close>

end
